(* ===== verification/Ktcp_Prelude.thy ===== *)
theory Ktcp_Prelude
  imports Main "HOL-Library.Word" "HOL-Library.Multiset" "HOL-Library.Monad_Syntax"
begin

unbundle bit_operations_syntax

text \<open>
  Shared vocabulary of the development: the machine integers of the kernel code, the three kinds
  of value a kernel pointer can have, checked array access, byte order conversion, and reachability
  in a transition system.

  Convention of the whole library: a C function that mutates state becomes a HOL function that
  takes the state and returns the new one, inside the option monad. \<open>None\<close> is a kernel oops: a
  \<open>NULL\<close> or dangling dereference, an access past the end of an array, or a failed \<open>assert\<close>.
  Error codes that the C code returns are ordinary values, never \<open>None\<close>.
\<close>

section \<open>Types\<close>

type_synonym u8 = "8 word"
type_synonym u16 = "16 word"
type_synonym u32 = "32 word"
type_synonym u64 = "64 word"

text \<open>\<open>s32\<close> is the C type \<open>int32_t\<close>: 32 bits, read with \<^const>\<open>sint\<close>.\<close>
type_synonym s32 = "32 word"

text \<open>Identity of a slab object, and of a \<open>struct socket\<close>.\<close>
type_synonym addr = nat
type_synonym sock = nat
type_synonym cpu = nat

text \<open>
  A kernel pointer: \<open>NULL\<close>, an error code disguised as a pointer (\<open>ERR_PTR\<close>), or a real object.
\<close>
datatype 'a kptr = NULL | ERR_PTR int | PTR 'a

fun IS_ERR_OR_NULL :: "'a kptr \<Rightarrow> bool" where
  "IS_ERR_OR_NULL NULL = True"
| "IS_ERR_OR_NULL (ERR_PTR _) = True"
| "IS_ERR_OR_NULL (PTR _) = False"

section \<open>Constants of the C environment\<close>

abbreviation (input) EAGAIN :: int where "EAGAIN \<equiv> 11"
abbreviation (input) ENOMEM :: int where "ENOMEM \<equiv> 12"
abbreviation (input) EFAULT :: int where "EFAULT \<equiv> 14"
abbreviation (input) EEXIST :: int where "EEXIST \<equiv> 17"
abbreviation (input) EINVAL :: int where "EINVAL \<equiv> 22"
abbreviation (input) AF_INET :: u16 where "AF_INET \<equiv> 2"
abbreviation (input) PAGE_SIZE :: nat where "PAGE_SIZE \<equiv> 4096"
abbreviation (input) L1_CACHE_BYTES :: u64 where "L1_CACHE_BYTES \<equiv> 64"

section \<open>Arrays of fixed length\<close>

text \<open>Reading and writing a C array; an index past the end is an oops.\<close>

definition arr_get :: "'a list \<Rightarrow> nat \<Rightarrow> 'a option" where
  "arr_get xs i = (if i < length xs then Some (xs ! i) else None)"

definition arr_set :: "'a list \<Rightarrow> nat \<Rightarrow> 'a \<Rightarrow> 'a list option" where
  "arr_set xs i v = (if i < length xs then Some (xs[i := v]) else None)"

section \<open>Byte order\<close>

text \<open>
  The module runs on little-endian machines: \<open>htons\<close> and \<open>htonl\<close> reverse the bytes of a word, and
  the bytes of a word in memory are its low byte first.
\<close>

definition htons :: "u16 \<Rightarrow> u16" where
  "htons x = push_bit 8 x OR drop_bit 8 x"

definition htonl :: "u32 \<Rightarrow> u32" where
  "htonl x = push_bit 24 x OR push_bit 8 (x AND 0xFF00) OR
             (drop_bit 8 x AND 0xFF00) OR drop_bit 24 x"

abbreviation (input) ntohs :: "u16 \<Rightarrow> u16" where "ntohs \<equiv> htons"
abbreviation (input) ntohl :: "u32 \<Rightarrow> u32" where "ntohl \<equiv> htonl"

definition bytes16 :: "u16 \<Rightarrow> u8 list" where
  "bytes16 w = [ucast w, ucast (drop_bit 8 w)]"

definition bytes32 :: "u32 \<Rightarrow> u8 list" where
  "bytes32 w = [ucast w, ucast (drop_bit 8 w), ucast (drop_bit 16 w), ucast (drop_bit 24 w)]"

definition word16 :: "u8 list \<Rightarrow> u16" where
  "word16 bs = ucast (bs ! 0) OR push_bit 8 (ucast (bs ! 1))"

definition word32 :: "u8 list \<Rightarrow> u32" where
  "word32 bs = ucast (bs ! 0) OR push_bit 8 (ucast (bs ! 1)) OR
               push_bit 16 (ucast (bs ! 2)) OR push_bit 24 (ucast (bs ! 3))"

section \<open>Reachability\<close>

text \<open>The states a transition system can be in.\<close>

inductive reach :: "('s \<Rightarrow> bool) \<Rightarrow> ('s \<Rightarrow> 's \<Rightarrow> bool) \<Rightarrow> 's \<Rightarrow> bool"
  for init step where
  reach_init: "init s \<Longrightarrow> reach init step s"
| reach_step: "reach init step s \<Longrightarrow> step s t \<Longrightarrow> reach init step t"

text \<open>
  An inductive invariant of a transition system: what every machine of the development provides,
  and what it gets in return.
\<close>

locale invariant_system =
  fixes init :: "'s \<Rightarrow> bool"
    and step :: "'s \<Rightarrow> 's \<Rightarrow> bool"
    and inv :: "'s \<Rightarrow> bool"
  assumes init_inv: "init s \<Longrightarrow> inv s"
    and step_inv: "inv s \<Longrightarrow> step s t \<Longrightarrow> inv t"
begin

lemma reach_inv: "reach init step s \<Longrightarrow> inv s"
  by (induction rule: reach.induct) (auto intro: init_inv step_inv)

end

text \<open>
  A system in which every step from a good state gains rank, the rank is bounded, and a good state
  without a step is final: every run is short and can be completed to a final state.
\<close>

locale ranked_system =
  fixes step :: "'s \<Rightarrow> 's \<Rightarrow> bool"
    and good :: "'s \<Rightarrow> bool"
    and rank :: "'s \<Rightarrow> nat"
    and bound :: nat
    and final :: "'s \<Rightarrow> bool"
  assumes step_good: "good s \<Longrightarrow> step s t \<Longrightarrow> good t"
    and step_rank: "good s \<Longrightarrow> step s t \<Longrightarrow> rank s < rank t"
    and rank_le: "good s \<Longrightarrow> rank s \<le> bound"
    and stuck_final: "good s \<Longrightarrow> \<forall>t. \<not> step s t \<Longrightarrow> final s"
begin

lemma run_good: "(step ^^ n) s t \<Longrightarrow> good s \<Longrightarrow> good t \<and> rank s + n \<le> rank t"
proof (induction n arbitrary: t)
  case (Suc n)
  then obtain t1 where "good t1" "rank s + n \<le> rank t1" "step t1 t" by (auto elim!: relpowp_Suc_E)
  then show ?case using step_good step_rank [of t1 t] by auto
qed simp

lemma runs_good: "step\<^sup>*\<^sup>* s t \<Longrightarrow> good s \<Longrightarrow> good t"
  using run_good by (metis rtranclp_imp_relpowp)

lemma run_short: "(step ^^ n) s t \<Longrightarrow> good s \<Longrightarrow> n \<le> bound"
  using run_good [of n s t] rank_le [of t] by auto

lemma reaches_final:
  assumes "good s" shows "\<exists>t. step\<^sup>*\<^sup>* s t \<and> final t"
  using assms
proof (induction "bound - rank s" arbitrary: s rule: less_induct)
  case less
  show ?case
  proof (cases "\<exists>t. step s t")
    case True
    then obtain t where t: "step s t" by blast
    have "rank s < rank t" "good t" using step_good [OF less(2) t] step_rank [OF less(2) t] by simp_all
    then obtain t2 where "step\<^sup>*\<^sup>* t t2" "final t2" using less(1) [of t] rank_le [of t] by force
    then show ?thesis using t by (blast intro: converse_rtranclp_into_rtranclp)
  next
    case False
    then show ?thesis using stuck_final [OF less(2)] by blast
  qed
qed

end

section \<open>Lemmas\<close>

named_theorems byte_simps \<open>byte layout of words\<close>

lemma arr_get_Some [simp]: "i < length xs \<Longrightarrow> arr_get xs i = Some (xs ! i)"
  by (simp add: arr_get_def)

lemma arr_set_Some [simp]: "i < length xs \<Longrightarrow> arr_set xs i v = Some (xs[i := v])"
  by (simp add: arr_set_def)

lemma find_unique:
  assumes "\<And>x y. x \<in> set xs \<Longrightarrow> y \<in> set xs \<Longrightarrow> P x \<Longrightarrow> P y \<Longrightarrow> x = y"
  shows "find P xs = Some x \<longleftrightarrow> x \<in> set xs \<and> P x"
  using assms by (induction xs) auto

lemma find_SomeD: "find P xs = Some x \<Longrightarrow> x \<in> set xs \<and> P x"
  by (induction xs) (auto split: if_splits)

lemma sorted_wrt_remove1: "sorted_wrt P xs \<Longrightarrow> sorted_wrt P (remove1 x xs)"
  by (induction xs) (auto dest: set_remove1_subset [THEN subsetD])

lemma IS_ERR_OR_NULL_iff: "IS_ERR_OR_NULL p \<longleftrightarrow> (\<forall>x. p \<noteq> PTR x)"
  by (cases p) auto

lemma not_IS_ERR_OR_NULL: "\<not> IS_ERR_OR_NULL p \<longleftrightarrow> (\<exists>x. p = PTR x)"
  by (cases p) auto

lemma htons_htons [simp]: "htons (htons x) = x"
  by (rule bit_word_eqI) (auto simp: htons_def bit_simps)

lemma length_bytes16 [byte_simps]: "length (bytes16 w) = 2"
  by (simp add: bytes16_def)

lemma length_bytes32 [byte_simps]: "length (bytes32 w) = 4"
  by (simp add: bytes32_def)

lemma word16_bytes16 [byte_simps]: "word16 (bytes16 w) = w"
  by (rule bit_word_eqI) (auto simp: word16_def bytes16_def bit_simps)

lemma word32_bytes32 [byte_simps]: "word32 (bytes32 w) = w"
proof (rule bit_word_eqI)
  fix n assume n: "n < LENGTH(32)"
  consider "n < 8" | "8 \<le> n" "n < 16" | "16 \<le> n" "n < 24" | "24 \<le> n" "n < 32"
    using n by fastforce
  then show "bit (word32 (bytes32 w)) n = bit w n"
    by cases (auto simp: word32_def bytes32_def bit_simps)
qed

lemma inj_bytes16: "bytes16 v = bytes16 w \<longleftrightarrow> v = w"
  by (metis word16_bytes16)

lemma inj_bytes32: "bytes32 v = bytes32 w \<longleftrightarrow> v = w"
  by (metis word32_bytes32)

lemma take_Suc_update: "i < length xs \<Longrightarrow> take (Suc i) (xs[i := v]) = take i xs @ [v]"
  by (simp add: take_Suc_conv_app_nth)

lemma length_2E:
  assumes "length xs = 2" obtains x y where "xs = [x, y]"
  using assms by (auto simp: length_Suc_conv numeral_2_eq_2)

text \<open>Small 32-bit counters.\<close>

lemma unat32_eq_4: "(c :: u32) = 4 \<longleftrightarrow> unat c = 4"
  by (auto simp: word_unat_eq_iff)

lemma unat32_less_4: "(c :: u32) < 4 \<longleftrightarrow> unat c < 4"
  by (simp add: word_less_nat_alt)

lemma unat32_inc: "unat (c :: u32) < 4 \<Longrightarrow> unat (c + 1) = Suc (unat c)"
  by (simp add: unat_word_ariths)

lemma unat32_dec: "(c :: u32) \<noteq> 0 \<Longrightarrow> unat (c - 1) = unat c - 1"
  by (rule unat_minus_one)

lemmas count_simps = unat32_eq_4 unat32_less_4 unat32_inc unat32_dec

end
