(* ===== verification/Qp_Key.thy ===== *)
theory Qp_Key
  imports Ktcp_Prelude
begin

unbundle bit_operations_syntax

text \<open>
  The data of \<^verbatim>\<open>tcpsplit/tcp_split.h\<close> and the pure functions of \<^verbatim>\<open>tcpsplit/qp.c\<close>: the connection key,
  a union of twelve bytes with the four fields of a TCP connection and with the tenant id; the hash
  that sends both halves of a connection to one core; and the packing of two integers into the one
  pointer a thread is started with.
\<close>

section \<open>Constants and structs of tcp\_split.h\<close>

abbreviation (input) QP_TO :: nat where "QP_TO \<equiv> 90"
abbreviation (input) PRECONN_SERVER_PORT :: u16 where "PRECONN_SERVER_PORT \<equiv> 5565"
abbreviation (input) CBN_CORE_ROUTE_MARK :: u32 where "CBN_CORE_ROUTE_MARK \<equiv> 0x80000000"
abbreviation (input) CBP_PROBE_PORT :: u16 where "CBP_PROBE_PORT \<equiv> 4"
abbreviation (input) RB_KEY_LENGTH :: nat where "RB_KEY_LENGTH \<equiv> 12"
abbreviation (input) TX_QP :: u8 where "TX_QP \<equiv> 0"
abbreviation (input) RX_QP :: u8 where "RX_QP \<equiv> 1"
abbreviation (input) UINT_SHIFT :: nat where "UINT_SHIFT \<equiv> 32"

text \<open>
  \<open>struct cbn_qp\<close>. The anonymous union of \<open>key\<close>, the four connection fields and \<open>tid\<close> is kept as
  the bytes \<open>key\<close>; the fields are read and written through the functions below, so that writing one
  member changes the others exactly as in C. The union of \<open>tx\<close>, \<open>rx\<close> and \<open>qp_dir[2]\<close> is the two
  fields and the index function \<open>qp_dir\<close>. The tree node and list head are not fields: the trees and
  lists of the model hold the address of the object. The spin lock guards code that the model
  executes atomically.
\<close>

record cbn_qp =
  key :: "u8 list"
  ref_cnt :: s32
  listner :: "addr option"
  tx :: "sock kptr"
  rx :: "sock kptr"

definition port_s :: "cbn_qp \<Rightarrow> u16" where "port_s q = word16 (take 2 (key q))"
definition port_d :: "cbn_qp \<Rightarrow> u16" where "port_d q = word16 (take 2 (drop 2 (key q)))"
definition addr_s :: "cbn_qp \<Rightarrow> u32" where "addr_s q = word32 (take 4 (drop 4 (key q)))"
definition addr_d :: "cbn_qp \<Rightarrow> u32" where "addr_d q = word32 (take 4 (drop 8 (key q)))"
definition tid :: "cbn_qp \<Rightarrow> s32" where "tid q = word32 (take 4 (key q))"

definition put_bytes :: "nat \<Rightarrow> u8 list \<Rightarrow> cbn_qp \<Rightarrow> cbn_qp" where
  "put_bytes off bs q = q\<lparr>key := take off (key q) @ bs @ drop (off + length bs) (key q)\<rparr>"

definition set_port_s :: "u16 \<Rightarrow> cbn_qp \<Rightarrow> cbn_qp" where "set_port_s w = put_bytes 0 (bytes16 w)"
definition set_port_d :: "u16 \<Rightarrow> cbn_qp \<Rightarrow> cbn_qp" where "set_port_d w = put_bytes 2 (bytes16 w)"
definition set_addr_s :: "u32 \<Rightarrow> cbn_qp \<Rightarrow> cbn_qp" where "set_addr_s w = put_bytes 4 (bytes32 w)"
definition set_addr_d :: "u32 \<Rightarrow> cbn_qp \<Rightarrow> cbn_qp" where "set_addr_d w = put_bytes 8 (bytes32 w)"
definition set_tid :: "s32 \<Rightarrow> cbn_qp \<Rightarrow> cbn_qp" where "set_tid w = put_bytes 0 (bytes32 w)"

definition qp_dir :: "cbn_qp \<Rightarrow> u8 \<Rightarrow> sock kptr" where
  "qp_dir q d = (if d = TX_QP then tx q else rx q)"

definition set_qp_dir :: "u8 \<Rightarrow> sock kptr \<Rightarrow> cbn_qp \<Rightarrow> cbn_qp" where
  "set_qp_dir d p q = (if d = TX_QP then q\<lparr>tx := p\<rparr> else q\<lparr>rx := p\<rparr>)"

record sockaddr_in =
  sin_family :: u16
  sin_port :: u16
  sin_addr :: u32

text \<open>\<open>struct addresses\<close>; \<open>hop_addr\<close> is its member \<open>sin_addr\<close>, the next hop.\<close>

record addresses =
  dest :: sockaddr_in
  src :: sockaddr_in
  hop_addr :: u32
  mark :: s32

section \<open>Functions of qp.c\<close>

definition uint2void :: "u32 \<Rightarrow> u32 \<Rightarrow> u64" where
  "uint2void a b = (push_bit UINT_SHIFT (ucast a) OR ucast b)"

definition void2uint :: "u64 \<Rightarrow> u32 \<times> u32" where
  "void2uint ptr =
     (let concat = ptr;
          b = ucast (drop_bit UINT_SHIFT (push_bit UINT_SHIFT concat));
          a = ucast (drop_bit UINT_SHIFT concat)
      in (a, b))"

text \<open>
  \<open>key\<close> is an array of \<open>char\<close>, which is signed: the operand of \<open>^=\<close> is sign-extended to 32 bits.
\<close>

fun xor_key :: "u32 \<Rightarrow> u8 list \<Rightarrow> u32" where
  "xor_key core [] = core"
| "xor_key core (c # cs) = xor_key (core XOR scast c) cs"

text \<open>\<open>num_online_cpus\<close> is a function of the kernel: its value is an argument.\<close>

definition qp2cpu :: "u32 \<Rightarrow> cbn_qp \<Rightarrow> u32" where
  "qp2cpu num_online_cpus q =
     (let core = xor_key 0 (take RB_KEY_LENGTH (key q));
          i = num_online_cpus;
          i = (core div i) * i
      in core - i)"

text \<open>The four assignments with which every caller fills in the connection of a QP.\<close>

definition set_conn :: "u32 \<Rightarrow> u16 \<Rightarrow> u16 \<Rightarrow> u32 \<Rightarrow> cbn_qp \<Rightarrow> cbn_qp" where
  "set_conn ad ps pd as q = set_addr_s as (set_port_d pd (set_port_s ps (set_addr_d ad q)))"

text \<open>\<open>addresses2cpu\<close> fills in a QP on its stack: \<open>g\<close> is what the stack held before.\<close>

definition addresses2cpu :: "u32 \<Rightarrow> cbn_qp \<Rightarrow> addresses \<Rightarrow> u32" where
  "addresses2cpu num_online_cpus g a =
     qp2cpu num_online_cpus
       (set_conn (sin_addr (dest a)) (sin_port (src a)) (sin_port (dest a)) (sin_addr (src a)) g)"

section \<open>Lemmas on the key\<close>

text \<open>The bytes of a connection, in the order of the struct.\<close>

definition conn_key :: "u16 \<Rightarrow> u16 \<Rightarrow> u32 \<Rightarrow> u32 \<Rightarrow> u8 list" where
  "conn_key ps pd as ad = bytes16 ps @ bytes16 pd @ bytes32 as @ bytes32 ad"

abbreviation qp_wf :: "cbn_qp \<Rightarrow> bool" where "qp_wf q \<equiv> length (key q) = RB_KEY_LENGTH"

lemma length_conn_key [simp]: "length (conn_key ps pd as ad) = RB_KEY_LENGTH"
  by (simp add: conn_key_def byte_simps)

lemma conn_key_inject: "conn_key ps pd as ad = conn_key ps' pd' as' ad' \<longleftrightarrow>
    ps = ps' \<and> pd = pd' \<and> as = as' \<and> ad = ad'"
  by (auto simp: conn_key_def byte_simps inj_bytes16 inj_bytes32)

lemma put_bytes_fields [simp]:
  "ref_cnt (put_bytes off bs q) = ref_cnt q" "listner (put_bytes off bs q) = listner q"
  "tx (put_bytes off bs q) = tx q" "rx (put_bytes off bs q) = rx q"
  by (simp_all add: put_bytes_def)

lemma set_conn_fields [simp]:
  "ref_cnt (set_conn ad ps pd as q) = ref_cnt q" "listner (set_conn ad ps pd as q) = listner q"
  "tx (set_conn ad ps pd as q) = tx q" "rx (set_conn ad ps pd as q) = rx q"
  by (simp_all add: set_conn_def set_addr_s_def set_addr_d_def set_port_s_def set_port_d_def)

lemma key_set_conn [simp]:
  "qp_wf q \<Longrightarrow> key (set_conn ad ps pd as q) = conn_key ps pd as ad"
  by (simp add: set_conn_def set_addr_s_def set_addr_d_def set_port_s_def set_port_d_def
      put_bytes_def conn_key_def byte_simps)

lemma set_conn_eq: "qp_wf q \<Longrightarrow> set_conn ad ps pd as q = q\<lparr>key := conn_key ps pd as ad\<rparr>"
  by (rule cbn_qp.equality) simp_all

lemma conn_key_fields:
  assumes "key q = conn_key ps pd as ad"
  shows "port_s q = ps" "port_d q = pd" "addr_s q = as" "addr_d q = ad"
  using assms
  by (simp_all add: port_s_def port_d_def addr_s_def addr_d_def conn_key_def byte_simps)

lemma xor_key_div_mod: "qp2cpu n q = xor_key 0 (take RB_KEY_LENGTH (key q)) mod n"
  by (simp add: qp2cpu_def Let_def minus_div_mult_eq_mod)

lemma set_qp_dir_same [simp]: "qp_dir (set_qp_dir d p q) d = p"
  by (simp add: qp_dir_def set_qp_dir_def)

lemma set_qp_dir_fields [simp]:
  "key (set_qp_dir d p q) = key q" "ref_cnt (set_qp_dir d p q) = ref_cnt q"
  "listner (set_qp_dir d p q) = listner q"
  by (simp_all add: set_qp_dir_def)

text \<open>A QP with a given key and nothing else, for closed examples.\<close>

definition bare_qp :: "u8 list \<Rightarrow> cbn_qp" where
  "bare_qp k = \<lparr>key = k, ref_cnt = 0, listner = None, tx = NULL, rx = NULL\<rparr>"

lemma bare_qp_sel [simp]: "key (bare_qp k) = k" "ref_cnt (bare_qp k) = 0" "listner (bare_qp k) = None"
  "tx (bare_qp k) = NULL" "rx (bare_qp k) = NULL"
  by (simp_all add: bare_qp_def)

lemma void2uint_uint2void: "void2uint (uint2void a b) = (a, b)"
proof -
  have "(fst (void2uint (uint2void a b))) = a"
    by (rule bit_word_eqI) (auto simp: void2uint_def uint2void_def bit_simps dest: bit_imp_le_length)
  moreover have "snd (void2uint (uint2void a b)) = b"
    by (rule bit_word_eqI) (auto simp: void2uint_def uint2void_def bit_simps)
  ultimately show ?thesis by (simp add: prod_eq_iff)
qed

lemma uint2void_void2uint: "case void2uint p of (x, y) \<Rightarrow> uint2void x y = p"
  by (auto simp: void2uint_def uint2void_def Let_def intro!: bit_word_eqI)
     (auto simp: bit_simps)

section \<open>Properties\<close>

text \<open>C12. \<open>void2uint\<close> undoes \<open>uint2void\<close>, and every pointer is the packing of the two integers
  unpacked from it: the tenant and the port handed to a server thread arrive unchanged.\<close>

theorem uint2void_roundtrip:
  "void2uint (uint2void a b) = (a, b) \<and> (case void2uint p of (x, y) \<Rightarrow> uint2void x y = p)"
  using void2uint_uint2void uint2void_void2uint by (intro conjI)

text \<open>The core \<open>qp2cpu\<close> picks is an online one, and it is the XOR of the twelve
  sign-extended key bytes modulo the number of cores.\<close>

theorem qp2cpu_bound:
  assumes "0 < num_online_cpus"
  shows "qp2cpu num_online_cpus q < num_online_cpus \<and>
    qp2cpu num_online_cpus q = xor_key 0 (take RB_KEY_LENGTH (key q)) mod num_online_cpus"
  using assms by (simp add: xor_key_div_mod word_mod_less_divisor)

theorem qp2cpu_bound_witness:
  "qp2cpu 3 (bare_qp (replicate 12 7)) < 3"
  by (rule qp2cpu_bound [THEN conjunct1]) simp

text \<open>C13. The core that \<open>addresses2cpu\<close> computes from a captured SYN, on a QP of uninitialised stack
  memory \<open>g\<close>, is the core that \<open>qp2cpu\<close> computes from the QP \<open>q\<close> of the accepted half with the same
  connection in it, whatever that QP held before (its tenant id overlaps the ports): both halves of a
  connection run on one core, so they share that core's tree.\<close>

theorem halves_share_core:
  assumes "qp_wf g" and "qp_wf q" and "key q' = key (set_conn ad ps pd as (set_tid t q))"
    and "sin_addr (dest a) = ad" and "sin_port (src a) = ps" and "sin_port (dest a) = pd" and "sin_addr (src a) = as"
  shows "addresses2cpu n g a = qp2cpu n q' \<and>
    port_s q' = ps \<and> port_d q' = pd \<and> addr_s q' = as \<and> addr_d q' = ad"
proof -
  have "qp_wf (set_tid t q)" using assms(2) by (simp add: set_tid_def put_bytes_def byte_simps)
  then have k: "key q' = conn_key ps pd as ad" using assms(3) by simp
  then show ?thesis
    using assms(1,4-7) by (simp add: addresses2cpu_def xor_key_div_mod conn_key_fields [OF k])
qed

theorem halves_share_core_witness:
  "let q' = set_conn 0x0100000a 0x1234 0x5000 0x0200000a (set_tid 7 (bare_qp (replicate 12 1)));
       a = \<lparr>dest = \<lparr>sin_family = 2, sin_port = 0x5000, sin_addr = 0x0100000a\<rparr>,
            src = \<lparr>sin_family = 2, sin_port = 0x1234, sin_addr = 0x0200000a\<rparr>, hop_addr = 0, mark = 7\<rparr>
   in addresses2cpu 4 (bare_qp (replicate 12 9)) a = qp2cpu 4 q' \<and> port_s q' = 0x1234"
  using halves_share_core [of "bare_qp (replicate 12 9)" "bare_qp (replicate 12 1)"
      "set_conn 0x0100000a 0x1234 0x5000 0x0200000a (set_tid 7 (bare_qp (replicate 12 1)))"
      "0x0100000a" "0x1234" "0x5000" "0x0200000a" 7
      "\<lparr>dest = \<lparr>sin_family = 2, sin_port = 0x5000, sin_addr = 0x0100000a\<rparr>,
        src = \<lparr>sin_family = 2, sin_port = 0x1234, sin_addr = 0x0200000a\<rparr>, hop_addr = 0, mark = 7\<rparr>" 4]
  by (simp add: Let_def)

end
