(* ===== verification/Rb_Tree.thy ===== *)
theory Rb_Tree
  imports Qp_Key "HOL-Library.Tree"
begin

text \<open>
  The search trees of \<^verbatim>\<open>tcpsplit/rb_data_tree.h\<close>: pending connections ordered by \<open>strncmp\<close> on their
  keys, listeners ordered by the difference of their tenant ids. A tree holds the addresses of the
  objects whose nodes are linked into it, and the keys are read from the heap during the descent.

  Rebalancing (\<open>rb_insert_color\<close>) and unlinking (\<open>rb_erase\<close>) are functions of the kernel. They are
  arguments of the model, bundled in a record, and \<open>rbtree_lib_ok\<close> states what their documentation
  promises: the in-order sequence of nodes is kept, respectively loses exactly the erased node.

  The contract of the descents is the locale \<open>cmp_order\<close>: a three-way comparison that is a total
  preorder on the valid keys. It is interpreted for \<open>strncmp\<close> on arrays of the key length and for
  the 32-bit difference on every window of half the 32-bit range.
\<close>

section \<open>Definitions\<close>

record rbtree_lib =
  rb_insert_color :: "addr \<Rightarrow> addr tree \<Rightarrow> addr tree"
  rb_erase :: "addr \<Rightarrow> addr tree \<Rightarrow> addr tree"

definition rbtree_lib_ok :: "rbtree_lib \<Rightarrow> bool" where
  "rbtree_lib_ok L \<longleftrightarrow>
     (\<forall>x t. inorder (rb_insert_color L x t) = inorder t) \<and>
     (\<forall>x t. x \<in> set_tree t \<longrightarrow> inorder (rb_erase L x t) = remove1 x (inorder t))"

text \<open>\<open>strncmp\<close> of C: bytes are compared as unsigned, and an equal \<open>NUL\<close> byte ends the comparison.\<close>

fun strncmp :: "nat \<Rightarrow> u8 list \<Rightarrow> u8 list \<Rightarrow> int" where
  "strncmp (Suc n) (c1 # s1) (c2 # s2) =
     (if c1 \<noteq> c2 then if c1 < c2 then -1 else 1
      else if c1 = 0 then 0 else strncmp n s1 s2)"
| "strncmp _ _ _ = 0"

text \<open>\<open>int32_t result = key - this->key\<close>: the difference wraps and is read as signed.\<close>

definition key_diff :: "s32 \<Rightarrow> s32 \<Rightarrow> int" where
  "key_diff k this = sint (k - this)"

text \<open>
  The descent shared by the search functions: \<open>res\<close> is the comparison with the key stored in a node
  (\<open>None\<close> when the node is dangling).
\<close>

fun rb_search :: "('a \<Rightarrow> int option) \<Rightarrow> 'a tree \<Rightarrow> 'a option option" where
  "rb_search res Leaf = Some None"
| "rb_search res (Node l this r) = do {
     result \<leftarrow> res this;
     if result < 0 then rb_search res l
     else if result > 0 then rb_search res r
     else Some (Some this) }"

text \<open>
  The descent shared by the insertions: \<open>Inl\<close> is the duplicate found on the way, \<open>Inr\<close> the tree
  with the new node linked at the leaf that was reached (\<open>rb_link_node\<close>).
\<close>

fun rb_walk :: "('a \<Rightarrow> int option) \<Rightarrow> 'a \<Rightarrow> 'a tree \<Rightarrow> ('a + 'a tree) option" where
  "rb_walk res data Leaf = Some (Inr (Node Leaf data Leaf))"
| "rb_walk res data (Node l this r) = do {
     result \<leftarrow> res this;
     if result < 0 then
       map_option (map_sum id (\<lambda>l'. (Node l' this r))) (rb_walk res data l)
     else if result > 0 then
       map_option (map_sum id (\<lambda>r'. (Node l this r'))) (rb_walk res data r)
     else Some (Inl this) }"

text \<open>The result of an insertion: the duplicate (or \<open>NULL\<close>) and the root afterwards.\<close>

definition rb_insert_result :: "rbtree_lib \<Rightarrow> addr \<Rightarrow> addr tree \<Rightarrow> addr + addr tree \<Rightarrow>
    addr option \<times> addr tree" where
  "rb_insert_result L data root r =
     (case r of Inl this \<Rightarrow> (Some this, root) | Inr root' \<Rightarrow> (None, rb_insert_color L data root'))"

subsection \<open>Pending connections\<close>

definition de_tree_qp :: "rbtree_lib \<Rightarrow> addr \<Rightarrow> addr tree \<Rightarrow> addr tree option" where
  \<comment> \<open>erasing a node that is not linked corrupts the tree\<close>
  "de_tree_qp L node root = (if node \<in> set_tree root then Some (rb_erase L node root) else None)"

definition add_rb_data :: "rbtree_lib \<Rightarrow> (addr \<rightharpoonup> cbn_qp) \<Rightarrow> addr tree \<Rightarrow> addr \<Rightarrow>
    (addr option \<times> addr tree) option" where
  "add_rb_data L qps root data = do {
     d \<leftarrow> qps data;
     r \<leftarrow> rb_walk (\<lambda>this. map_option (\<lambda>q. strncmp RB_KEY_LENGTH (key d) (key q)) (qps this)) data root;
     Some (rb_insert_result L data root r) }"

subsection \<open>Listeners\<close>

text \<open>
  \<open>struct cbn_listner\<close>; its member \<open>key\<close> is \<open>lkey\<close> here. \<open>connections_root\<close> is per core.
\<close>

record cbn_listner =
  connections_root :: "cpu \<Rightarrow> addr tree"
  lkey :: s32
  port :: u16
  status :: u16
  lsock :: "sock option"
  raw :: "sock option"

definition search_rb_listner :: "(addr \<rightharpoonup> cbn_listner) \<Rightarrow> addr tree \<Rightarrow> s32 \<Rightarrow> addr option option" where
  "search_rb_listner ls root k =
     rb_search (\<lambda>this. map_option (\<lambda>l. key_diff k (lkey l)) (ls this)) root"

definition add_rb_listner :: "rbtree_lib \<Rightarrow> (addr \<rightharpoonup> cbn_listner) \<Rightarrow> addr tree \<Rightarrow> addr \<Rightarrow>
    (addr option \<times> addr tree) option" where
  "add_rb_listner L ls root data = do {
     d \<leftarrow> ls data;
     r \<leftarrow> rb_walk (\<lambda>this. map_option (\<lambda>l. key_diff (lkey d) (lkey l)) (ls this)) data root;
     Some (rb_insert_result L data root r) }"

section \<open>The contract of the descents\<close>

text \<open>A tree is searchable when its nodes are live, have valid keys and are strictly ordered.\<close>

definition rb_ordered :: "('k \<Rightarrow> 'k \<Rightarrow> int) \<Rightarrow> ('k \<Rightarrow> bool) \<Rightarrow> ('a \<rightharpoonup> 'k) \<Rightarrow> 'a list \<Rightarrow> bool" where
  "rb_ordered cmp valid keys xs \<longleftrightarrow>
     (\<forall>x \<in> set xs. \<exists>k. keys x = Some k \<and> valid k) \<and>
     sorted_wrt (\<lambda>x y. cmp (the (keys x)) (the (keys y)) < 0) xs"

text \<open>The finite map a tree stands for: from the classes of keys that compare equal to nodes.\<close>

definition rb_map :: "('k \<Rightarrow> 'c) \<Rightarrow> ('a \<rightharpoonup> 'k) \<Rightarrow> 'a tree \<Rightarrow> 'c \<rightharpoonup> 'a" where
  "rb_map norm keys t c = find (\<lambda>x. map_option norm (keys x) = Some c) (inorder t)"

text \<open>Both depend only on the keys of the nodes in the tree.\<close>

lemma rb_map_cong:
  assumes "\<And>x. x \<in> set_tree t \<Longrightarrow> keys x = keys' x"
  shows "rb_map norm keys t = rb_map norm keys' t"
  unfolding rb_map_def fun_eq_iff using assms by (intro allI find_cong) auto

lemma rb_ordered_cong:
  assumes "\<And>x. x \<in> set xs \<Longrightarrow> keys x = keys' x"
  shows "rb_ordered cmp valid keys xs \<longleftrightarrow> rb_ordered cmp valid keys' xs"
proof -
  have "sorted_wrt (\<lambda>x y. cmp (the (keys x)) (the (keys y)) < 0) xs \<longleftrightarrow>
      sorted_wrt (\<lambda>x y. cmp (the (keys' x)) (the (keys' y)) < 0) xs"
    using assms by (intro iffI; elim sorted_wrt_mono_rel [rotated]) auto
  then show ?thesis using assms by (simp add: rb_ordered_def)
qed

locale cmp_order =
  fixes cmp :: "'k \<Rightarrow> 'k \<Rightarrow> int"
    and valid :: "'k \<Rightarrow> bool"
  assumes cmp_flip: "valid a \<Longrightarrow> valid b \<Longrightarrow> cmp b a < 0 \<longleftrightarrow> 0 < cmp a b"
    and cmp_trans: "valid a \<Longrightarrow> valid b \<Longrightarrow> valid c \<Longrightarrow> cmp a b \<le> 0 \<Longrightarrow> cmp b c < 0 \<Longrightarrow> cmp a c < 0"
    and cmp_refl: "valid a \<Longrightarrow> cmp a a = 0"
begin

lemma cmp_trans': "valid a \<Longrightarrow> valid b \<Longrightarrow> valid c \<Longrightarrow> cmp a b < 0 \<Longrightarrow> cmp b c \<le> 0 \<Longrightarrow> cmp a c < 0"
  by (metis cmp_flip cmp_trans linorder_not_less)

lemma ordered_append: "rb_ordered cmp valid keys (xs @ y # ys) \<longleftrightarrow>
    rb_ordered cmp valid keys xs \<and> rb_ordered cmp valid keys ys \<and> (\<exists>k. keys y = Some k \<and> valid k \<and>
      (\<forall>x \<in> set xs. cmp (the (keys x)) k < 0) \<and> (\<forall>z \<in> set ys. cmp k (the (keys z)) < 0))"
  (is "?lhs \<longleftrightarrow> ?rhs")
proof
  assume ?lhs then show ?rhs by (auto simp: rb_ordered_def sorted_wrt_append)
next
  assume rhs: ?rhs
  have "cmp (the (keys x)) (the (keys z)) < 0" if "x \<in> set xs" "z \<in> set ys" for x z
    using rhs that by (force simp: rb_ordered_def intro: cmp_trans' order.strict_implies_order)
  with rhs show ?lhs by (auto simp: rb_ordered_def sorted_wrt_append)
qed

lemma search_Some:
  assumes "rb_ordered cmp valid keys (inorder t)" and "valid k"
  shows "\<exists>r. rb_search (\<lambda>x. map_option (cmp k) (keys x)) t = Some r \<and>
    (case r of None \<Rightarrow> \<forall>x \<in> set_tree t. cmp k (the (keys x)) \<noteq> 0
     | Some x \<Rightarrow> x \<in> set_tree t \<and> cmp k (the (keys x)) = 0)"
  using assms
proof (induction t)
  case Leaf then show ?case by simp
next
  case (Node l x r)
  then obtain kx where kx: "keys x = Some kx" "valid kx"
    and l: "\<forall>y \<in> set_tree l. cmp (the (keys y)) kx < 0"
    and r: "\<forall>y \<in> set_tree r. cmp kx (the (keys y)) < 0"
    and o: "rb_ordered cmp valid keys (inorder l)" "rb_ordered cmp valid keys (inorder r)"
    by (auto simp: ordered_append)
  have vl: "valid (the (keys y))" if "y \<in> set_tree l" for y
    using o(1) that by (force simp: rb_ordered_def)
  have vr: "valid (the (keys y))" if "y \<in> set_tree r" for y
    using o(2) that by (force simp: rb_ordered_def)
  consider "cmp k kx < 0" | "cmp k kx > 0" | "cmp k kx = 0" by linarith
  then show ?case
  proof cases
    case 1
    then have "\<forall>y \<in> set_tree r. cmp k (the (keys y)) \<noteq> 0"
      using r vr kx Node.prems by (metis cmp_trans less_irrefl order.strict_implies_order)
    with 1 kx Node.IH(1) o Node.prems show ?thesis by (fastforce split: option.splits)
  next
    case 2
    have "cmp k (the (keys y)) \<noteq> 0" if y: "y \<in> set_tree l" for y
    proof
      assume "cmp k (the (keys y)) = 0"
      then have "cmp k kx < 0"
        using l y vl kx Node.prems(2) cmp_trans [of k "the (keys y)" kx] by auto
      with 2 show False by simp
    qed
    with 2 kx Node.IH(2) o Node.prems show ?thesis by (fastforce split: option.splits)
  next
    case 3 with kx show ?thesis by simp
  qed
qed

lemma walk_Some:
  assumes "rb_ordered cmp valid keys (inorder t)" and "keys d = Some k" and "valid k"
  shows "\<exists>r. rb_walk (\<lambda>x. map_option (cmp k) (keys x)) d t = Some r \<and>
    (case r of Inl x \<Rightarrow> x \<in> set_tree t \<and> cmp k (the (keys x)) = 0
     | Inr t' \<Rightarrow> (\<forall>x \<in> set_tree t. cmp k (the (keys x)) \<noteq> 0) \<and>
         set_tree t' = insert d (set_tree t) \<and> rb_ordered cmp valid keys (inorder t'))"
  using assms
proof (induction t)
  case Leaf then show ?case by (simp add: rb_ordered_def)
next
  case (Node l x r)
  then obtain kx where kx: "keys x = Some kx" "valid kx"
    and l: "\<forall>y \<in> set_tree l. cmp (the (keys y)) kx < 0"
    and r: "\<forall>y \<in> set_tree r. cmp kx (the (keys y)) < 0"
    and o: "rb_ordered cmp valid keys (inorder l)" "rb_ordered cmp valid keys (inorder r)"
    by (auto simp: ordered_append)
  have vl: "valid (the (keys y))" if "y \<in> set_tree l" for y
    using o(1) that by (force simp: rb_ordered_def)
  have vr: "valid (the (keys y))" if "y \<in> set_tree r" for y
    using o(2) that by (force simp: rb_ordered_def)
  consider "cmp k kx < 0" | "cmp k kx > 0" | "cmp k kx = 0" by linarith
  then show ?case
  proof cases
    case 1
    then have "\<forall>y \<in> set_tree r. cmp k (the (keys y)) \<noteq> 0"
      using r vr kx Node.prems by (metis cmp_trans less_irrefl order.strict_implies_order)
    with 1 kx Node.IH(1) o l r Node.prems show ?thesis
      by (fastforce simp: ordered_append split: sum.splits)
  next
    case 2
    then have xk: "cmp kx k < 0" using cmp_flip kx(2) Node.prems(3) by blast
    have "cmp k (the (keys y)) \<noteq> 0" if y: "y \<in> set_tree l" for y
    proof
      assume "cmp k (the (keys y)) = 0"
      then have "cmp k kx < 0"
        using l y vl kx Node.prems(3) cmp_trans [of k "the (keys y)" kx] by auto
      with 2 show False by simp
    qed
    with 2 xk kx Node.IH(2) o l r Node.prems show ?thesis
      by (fastforce simp: ordered_append split: sum.splits)
  next
    case 3 with kx show ?thesis by simp
  qed
qed

lemma ordered_remove1: "rb_ordered cmp valid keys xs \<Longrightarrow> rb_ordered cmp valid keys (remove1 x xs)"
  by (auto simp: rb_ordered_def sorted_wrt_remove1 dest: set_remove1_subset [THEN subsetD])

lemma ordered_distinct: "rb_ordered cmp valid keys xs \<Longrightarrow> distinct xs"
proof (induction xs)
  case (Cons x xs)
  then show ?case using cmp_refl by (fastforce simp: rb_ordered_def)
qed simp

end

text \<open>
  A comparison whose zeroes are the equality of a class of each key: the descents then implement
  a finite map on the classes.
\<close>

locale index_order = cmp_order cmp valid
  for cmp :: "'k \<Rightarrow> 'k \<Rightarrow> int" and valid :: "'k \<Rightarrow> bool" +
  fixes norm :: "'k \<Rightarrow> 'c"
  assumes cmp_norm: "valid a \<Longrightarrow> valid b \<Longrightarrow> cmp a b = 0 \<longleftrightarrow> norm a = norm b"
begin

lemma ordered_unique:
  assumes "rb_ordered cmp valid keys xs" "x \<in> set xs" "y \<in> set xs"
    and "map_option norm (keys x) = map_option norm (keys y)"
  shows "x = y"
  using assms
proof (induction xs)
  case (Cons z zs)
  then show ?case by (force simp: rb_ordered_def cmp_norm [symmetric] dest: cmp_flip [THEN iffD1])
qed simp

lemma map_eq_Some:
  assumes "rb_ordered cmp valid keys (inorder t)"
  shows "rb_map norm keys t c = Some x \<longleftrightarrow> x \<in> set_tree t \<and> map_option norm (keys x) = Some c"
  unfolding rb_map_def
  by (subst find_unique) (auto intro: ordered_unique [OF assms])

lemma map_eq_None: "rb_map norm keys t c = None \<longleftrightarrow>
    (\<forall>x \<in> set_tree t. map_option norm (keys x) \<noteq> Some c)"
  by (auto simp: rb_map_def find_None_iff)

lemma map_eqI:
  assumes "rb_ordered cmp valid keys (inorder t)" "rb_ordered cmp valid keys (inorder t')"
    and "\<And>x. map_option norm (keys x) = Some c \<Longrightarrow> x \<in> set_tree t \<longleftrightarrow> x \<in> set_tree t'"
  shows "rb_map norm keys t c = rb_map norm keys t' c"
proof -
  have "rb_map norm keys t c = Some x \<longleftrightarrow> rb_map norm keys t' c = Some x" for x
    using assms by (auto simp: map_eq_Some)
  then show ?thesis by (metis option.exhaust)
qed

lemma search_map:
  assumes o: "rb_ordered cmp valid keys (inorder t)" and k: "valid k"
  shows "rb_search (\<lambda>x. map_option (cmp k) (keys x)) t = Some (rb_map norm keys t (norm k))"
proof -
  have v: "\<exists>k'. keys x = Some k' \<and> valid k'" if "x \<in> set_tree t" for x
    using o that by (auto simp: rb_ordered_def)
  obtain r where r: "rb_search (\<lambda>x. map_option (cmp k) (keys x)) t = Some r"
    and res: "case r of None \<Rightarrow> \<forall>x \<in> set_tree t. cmp k (the (keys x)) \<noteq> 0
      | Some x \<Rightarrow> x \<in> set_tree t \<and> cmp k (the (keys x)) = 0"
    using search_Some [OF o k] by blast
  have "r = rb_map norm keys t (norm k)"
  proof (cases r)
    case None
    with res v k have "rb_map norm keys t (norm k) = None"
      by (fastforce simp: map_eq_None cmp_norm)
    with None show ?thesis by simp
  next
    case (Some x)
    with res v [of x] k have "rb_map norm keys t (norm k) = Some x"
      by (auto simp: map_eq_Some [OF o] cmp_norm)
    with Some show ?thesis by simp
  qed
  with r show ?thesis by simp
qed

lemma insert_map:
  assumes L: "rbtree_lib_ok L" and o: "rb_ordered cmp valid keys (inorder t)"
    and d: "keys d = Some k" "valid k"
  shows "\<exists>dup t'. map_option (rb_insert_result L d t) (rb_walk (\<lambda>x. map_option (cmp k) (keys x)) d t)
      = Some (dup, t') \<and> rb_ordered cmp valid keys (inorder t') \<and> dup = rb_map norm keys t (norm k) \<and>
      (if dup = None
       then set_tree t' = insert d (set_tree t) \<and> rb_map norm keys t' = (rb_map norm keys t)(norm k \<mapsto> d)
       else t' = t)"
proof -
  have v: "\<exists>k'. keys x = Some k' \<and> valid k'" if "x \<in> set_tree t" for x
    using o that by (auto simp: rb_ordered_def)
  obtain r where r: "rb_walk (\<lambda>x. map_option (cmp k) (keys x)) d t = Some r"
    and res: "case r of Inl x \<Rightarrow> x \<in> set_tree t \<and> cmp k (the (keys x)) = 0
     | Inr t' \<Rightarrow> (\<forall>x \<in> set_tree t. cmp k (the (keys x)) \<noteq> 0) \<and>
         set_tree t' = insert d (set_tree t) \<and> rb_ordered cmp valid keys (inorder t')"
    using walk_Some [OF o d] by blast
  show ?thesis
  proof (cases r)
    case (Inl x)
    with res v [of x] d have "rb_map norm keys t (norm k) = Some x"
      by (auto simp: map_eq_Some [OF o] cmp_norm)
    with Inl r o show ?thesis by (simp add: rb_insert_result_def)
  next
    case (Inr u)
    let ?t' = "rb_insert_color L d u"
    have in_eq: "inorder ?t' = inorder u" using L by (simp add: rbtree_lib_ok_def)
    then have "set_tree ?t' = set_tree u" by (metis set_inorder)
    with in_eq Inr res have st: "set_tree ?t' = insert d (set_tree t)"
      and o': "rb_ordered cmp valid keys (inorder ?t')" by simp_all
    have none: "rb_map norm keys t (norm k) = None"
      using Inr res v d by (fastforce simp: map_eq_None cmp_norm)
    have "rb_map norm keys ?t' c = ((rb_map norm keys t)(norm k \<mapsto> d)) c" for c
    proof (cases "c = norm k")
      case True
      then show ?thesis using d st by (auto simp: map_eq_Some [OF o'])
    next
      case False
      then show ?thesis using st d by (auto intro!: map_eqI [OF o' o])
    qed
    with Inr r none st o' show ?thesis by (auto simp: rb_insert_result_def)
  qed
qed

lemma erase_map:
  assumes L: "rbtree_lib_ok L" and o: "rb_ordered cmp valid keys (inorder t)"
    and x: "x \<in> set_tree t" "keys x = Some k"
  shows "rb_ordered cmp valid keys (inorder (rb_erase L x t)) \<and>
    set_tree (rb_erase L x t) = set_tree t - {x} \<and>
    rb_map norm keys (rb_erase L x t) = (rb_map norm keys t)(norm k := None)"
proof -
  let ?t' = "rb_erase L x t"
  have in_eq: "inorder ?t' = remove1 x (inorder t)" using L x by (simp add: rbtree_lib_ok_def)
  then have o': "rb_ordered cmp valid keys (inorder ?t')" using o ordered_remove1 by simp
  have "set (inorder ?t') = set (inorder t) - {x}"
    using in_eq ordered_distinct [OF o] by (simp add: set_remove1_eq)
  then have st: "set_tree ?t' = set_tree t - {x}" by simp
  have "rb_map norm keys ?t' c = ((rb_map norm keys t)(norm k := None)) c" for c
  proof (cases "c = norm k")
    case True
    have "map_option norm (keys y) \<noteq> Some c" if "y \<in> set_tree ?t'" for y
      using that st x True ordered_unique [OF o, of y x] by auto
    then show ?thesis using True by (simp only: map_eq_None fun_upd_same) blast
  next
    case False
    have "rb_map norm keys ?t' c = rb_map norm keys t c"
    proof (rule map_eqI [OF o' o])
      fix y assume "map_option norm (keys y) = Some c"
      then have "y \<noteq> x" using x False by auto
      then show "y \<in> set_tree ?t' \<longleftrightarrow> y \<in> set_tree t" by (simp add: st)
    qed
    then show ?thesis using False by simp
  qed
  then have "rb_map norm keys ?t' = (rb_map norm keys t)(norm k := None)" by (rule ext)
  with o' st show ?thesis by simp
qed

end

subsection \<open>The comparison of connection keys\<close>

lemma strncmp_flip: "length a = n \<Longrightarrow> length b = n \<Longrightarrow> strncmp n b a = - strncmp n a b"
  by (induction n a b rule: strncmp.induct) auto

lemma strncmp_refl: "strncmp n a a = 0"
proof (induction n arbitrary: a)
  case (Suc n)
  then show ?case by (cases a) auto
qed simp

lemma strncmp_trans:
  "length a = n \<Longrightarrow> length b = n \<Longrightarrow> length c = n \<Longrightarrow>
   strncmp n a b \<le> 0 \<Longrightarrow> strncmp n b c < 0 \<Longrightarrow> strncmp n a c < 0"
proof (induction n arbitrary: a b c)
  case (Suc n)
  then obtain x a' y b' z c' where "a = x # a'" "b = y # b'" "c = z # c'"
    by (metis length_Suc_conv)
  with Suc show ?case by (auto split: if_splits)
qed simp

text \<open>What \<open>strncmp\<close> sees of an array: the bytes before the first \<open>NUL\<close>.\<close>

abbreviation c_string :: "u8 list \<Rightarrow> u8 list" where "c_string \<equiv> takeWhile (\<lambda>c. c \<noteq> 0)"

lemma strncmp_eq_0: "length a = n \<Longrightarrow> length b = n \<Longrightarrow>
    strncmp n a b = 0 \<longleftrightarrow> c_string a = c_string b"
  by (induction n a b rule: strncmp.induct) auto

lemma c_string_no_NUL: "0 \<notin> set a \<Longrightarrow> c_string a = a"
  by (induction a) auto

interpretation conn_order: index_order "strncmp RB_KEY_LENGTH" "\<lambda>k. length k = RB_KEY_LENGTH" c_string
proof
  fix a b :: "u8 list" assume "length a = RB_KEY_LENGTH" "length b = RB_KEY_LENGTH"
  then show "strncmp RB_KEY_LENGTH b a < 0 \<longleftrightarrow> 0 < strncmp RB_KEY_LENGTH a b"
    using strncmp_flip [of a RB_KEY_LENGTH b] by linarith
qed (simp_all add: strncmp_trans [of _ RB_KEY_LENGTH] strncmp_refl strncmp_eq_0)

subsection \<open>The comparison of tenant ids\<close>

text \<open>The keys at most half the 32-bit range above \<open>b\<close>.\<close>

definition window :: "s32 \<Rightarrow> s32 \<Rightarrow> bool" where
  "window b k \<longleftrightarrow> uint (k - b) < 2 ^ 31"

lemma key_diff_window:
  assumes "window b x" and "window b y"
  shows "key_diff x y = uint (x - b) - uint (y - b)"
proof -
  have sint: "sint (word_of_int k :: s32) = signed_take_bit 31 k" for k
    by (simp add: signed_of_int)
  have "x - y = word_of_int (uint (x - b) - uint (y - b))" by simp
  then have "key_diff x y = signed_take_bit 31 (uint (x - b) - uint (y - b))"
    unfolding key_diff_def using sint by metis
  also have "\<dots> = uint (x - b) - uint (y - b)"
    using assms unfolding window_def
    by (intro signed_take_bit_int_eq_self)
       (use uint_ge_0 [of "x - b"] uint_ge_0 [of "y - b"] in linarith)+
  finally show ?thesis .
qed

lemma key_diff_eq_0: "key_diff x y = 0 \<longleftrightarrow> x = y"
  by (simp add: key_diff_def signed_eq_0_iff)

interpretation tid_order: index_order key_diff "window b" id for b
  by unfold_locales (auto simp: key_diff_window [of b] key_diff_eq_0 [symmetric])

section \<open>The indexes as finite maps\<close>

definition listner_tree :: "s32 \<Rightarrow> (addr \<rightharpoonup> cbn_listner) \<Rightarrow> addr tree \<Rightarrow> bool" where
  "listner_tree b ls root \<longleftrightarrow>
     rb_ordered key_diff (window b) (\<lambda>x. map_option lkey (ls x)) (inorder root)"

definition listner_map :: "(addr \<rightharpoonup> cbn_listner) \<Rightarrow> addr tree \<Rightarrow> s32 \<rightharpoonup> addr" where
  "listner_map ls = rb_map id (\<lambda>x. map_option lkey (ls x))"

definition qp_tree :: "(addr \<rightharpoonup> cbn_qp) \<Rightarrow> addr tree \<Rightarrow> bool" where
  "qp_tree qps root \<longleftrightarrow> rb_ordered (strncmp RB_KEY_LENGTH) (\<lambda>k. length k = RB_KEY_LENGTH)
     (\<lambda>x. map_option key (qps x)) (inorder root)"

definition qp_map :: "(addr \<rightharpoonup> cbn_qp) \<Rightarrow> addr tree \<Rightarrow> u8 list \<rightharpoonup> addr" where
  "qp_map qps = rb_map c_string (\<lambda>x. map_option key (qps x))"

lemma map_option_comp2: "map_option (\<lambda>x. f (g x)) v = map_option f (map_option g v)"
  by (simp add: option.map_comp comp_def)

lemma bind_Some_map: "(do { x \<leftarrow> m; Some (f x) }) = map_option f m"
  by (cases m) auto

lemma add_rb_data_walk: "qps d = Some q \<Longrightarrow> add_rb_data L qps root d =
    map_option (rb_insert_result L d root)
      (rb_walk (\<lambda>x. map_option (strncmp RB_KEY_LENGTH (key q)) (map_option key (qps x))) d root)"
  by (simp add: add_rb_data_def bind_Some_map map_option_comp2 [of "strncmp _ _" key])

lemma add_rb_listner_walk: "ls d = Some l \<Longrightarrow> add_rb_listner L ls root d =
    map_option (rb_insert_result L d root)
      (rb_walk (\<lambda>x. map_option (key_diff (lkey l)) (map_option lkey (ls x))) d root)"
  by (simp add: add_rb_listner_def bind_Some_map map_option_comp2 [of "key_diff _" lkey])

text \<open>Instances of the kernel functions: no rebalancing, and a rebuild after unlinking.\<close>

definition spine :: "'a list \<Rightarrow> 'a tree" where
  "spine xs = foldr (\<lambda>x t. (Node Leaf x t)) xs Leaf"

definition plain_lib :: rbtree_lib where
  "plain_lib = \<lparr>rb_insert_color = (\<lambda>_ t. t), rb_erase = (\<lambda>x t. spine (remove1 x (inorder t)))\<rparr>"

lemma inorder_spine: "inorder (spine xs) = xs"
  by (induction xs) (auto simp: spine_def)

lemma plain_lib_ok: "rbtree_lib_ok plain_lib"
  by (simp add: rbtree_lib_ok_def plain_lib_def inorder_spine)

text \<open>A listener with a given id and nothing else, for closed examples.\<close>

definition bare_listner :: "s32 \<Rightarrow> cbn_listner" where
  "bare_listner k = \<lparr>connections_root = (\<lambda>_. Leaf), lkey = k, port = 0, status = 0,
     lsock = None, raw = None\<rparr>"

text \<open>The listener tree as a map, operation by operation.\<close>

lemma search_listner_map:
  assumes "listner_tree b ls root" and "window b k"
  shows "search_rb_listner ls root k = Some (listner_map ls root k)"
  using tid_order.search_map [OF assms(1) [unfolded listner_tree_def] assms(2)]
  by (simp add: search_rb_listner_def listner_map_def map_option_comp2 [of "key_diff _" lkey])

lemma add_listner_map:
  assumes "rbtree_lib_ok L" and "listner_tree b ls root" and "ls d = Some l" and "window b (lkey l)"
  shows "\<exists>dup root'. add_rb_listner L ls root d = Some (dup, root') \<and> listner_tree b ls root' \<and>
       dup = listner_map ls root (lkey l) \<and>
       (if dup = None
        then set_tree root' = insert d (set_tree root) \<and>
             listner_map ls root' = (listner_map ls root)(lkey l \<mapsto> d)
        else root' = root)"
  using tid_order.insert_map [OF assms(1) assms(2) [unfolded listner_tree_def], of d "lkey l"] assms(3,4)
  unfolding listner_tree_def listner_map_def add_rb_listner_walk [of ls d l, OF assms(3)] id_apply
  by simp

lemma erase_listner_map:
  assumes "rbtree_lib_ok L" and "listner_tree b ls root" and "x \<in> set_tree root" and "ls x = Some l"
  shows "listner_tree b ls (rb_erase L x root) \<and> set_tree (rb_erase L x root) = set_tree root - {x} \<and>
    listner_map ls (rb_erase L x root) = (listner_map ls root)(lkey l := None)"
  using tid_order.erase_map [OF assms(1) assms(2) [unfolded listner_tree_def] assms(3), of "lkey l"] assms(4)
  by (simp add: listner_tree_def listner_map_def)

lemma listner_tree_cong:
  assumes "\<And>x. x \<in> set_tree root \<Longrightarrow> map_option lkey (ls x) = map_option lkey (ls' x)"
  shows "listner_tree b ls root \<longleftrightarrow> listner_tree b ls' root" "listner_map ls root = listner_map ls' root"
  unfolding listner_tree_def listner_map_def
  by (rule rb_ordered_cong rb_map_cong; use assms in simp)+

lemma listner_map_Some:
  assumes "listner_tree b ls root"
  shows "listner_map ls root k = Some x \<longleftrightarrow> x \<in> set_tree root \<and> map_option lkey (ls x) = Some k"
  using tid_order.map_eq_Some [OF assms [unfolded listner_tree_def]] by (simp add: listner_map_def)

section \<open>Properties\<close>

text \<open>C14. The listener tree implements a finite map from tenant ids to listeners, as long as the
  ids in it lie in one window of half the 32-bit range: \<open>search_rb_listner\<close> is the lookup,
  \<open>add_rb_listner\<close> adds the new listener or hands back the one already there and leaves the
  tree alone.\<close>

theorem listner_index:
  assumes "rbtree_lib_ok L" and "listner_tree b ls root"
    and "ls d = Some l" and "window b (lkey l)" and "window b k"
  shows "search_rb_listner ls root k = Some (listner_map ls root k) \<and>
    (\<exists>dup root'. add_rb_listner L ls root d = Some (dup, root') \<and> listner_tree b ls root' \<and>
       dup = listner_map ls root (lkey l) \<and>
       (if dup = None
        then set_tree root' = insert d (set_tree root) \<and>
             listner_map ls root' = (listner_map ls root)(lkey l \<mapsto> d)
        else root' = root))"
  using search_listner_map [OF assms(2,5)] add_listner_map [OF assms(1-4)] by (intro conjI)

theorem listner_index_witness:
  "search_rb_listner [1 \<mapsto> bare_listner 7] Leaf 9 = Some None \<and>
   fst (the (add_rb_listner plain_lib [1 \<mapsto> bare_listner 7] Leaf 1)) = None"
  using listner_index [OF plain_lib_ok, of 0 "[1 \<mapsto> bare_listner 7]" Leaf 1 _ 9]
  by (auto simp: listner_tree_def rb_ordered_def window_def listner_map_def rb_map_def bare_listner_def)

text \<open>C15. The tree of pending connections implements a finite map from the \<^emph>\<open>C strings\<close> of the
  connection keys to QPs: \<open>add_rb_data\<close> finds a QP exactly when the two keys agree up to the first
  \<open>NUL\<close> byte and links the new QP otherwise, and \<open>de_tree_qp\<close> removes exactly the QP it is given.\<close>

theorem qp_index:
  assumes L: "rbtree_lib_ok L" and t: "qp_tree qps root"
    and d: "qps d = Some q" "qp_wf q" and x: "x \<in> set_tree root" "qps x = Some qx"
  shows "(\<exists>dup root'. add_rb_data L qps root d = Some (dup, root') \<and> qp_tree qps root' \<and>
       dup = qp_map qps root (c_string (key q)) \<and>
       (if dup = None
        then set_tree root' = insert d (set_tree root) \<and>
             qp_map qps root' = (qp_map qps root)(c_string (key q) \<mapsto> d)
        else root' = root)) \<and>
    (\<exists>root'. de_tree_qp L x root = Some root' \<and> qp_tree qps root' \<and>
       qp_map qps root' = (qp_map qps root)(c_string (key qx) := None))"
proof (intro conjI)
  note o = t [unfolded qp_tree_def]
  show "\<exists>dup root'. add_rb_data L qps root d = Some (dup, root') \<and> qp_tree qps root' \<and>
       dup = qp_map qps root (c_string (key q)) \<and>
       (if dup = None
        then set_tree root' = insert d (set_tree root) \<and>
             qp_map qps root' = (qp_map qps root)(c_string (key q) \<mapsto> d)
        else root' = root)"
    using conn_order.insert_map [OF L o, of d "key q"] d
    unfolding qp_tree_def qp_map_def add_rb_data_walk [of qps d q, OF d(1)]
    by simp
  show "\<exists>root'. de_tree_qp L x root = Some root' \<and> qp_tree qps root' \<and>
       qp_map qps root' = (qp_map qps root)(c_string (key qx) := None)"
    using conn_order.erase_map [OF L o x(1), of "key qx"] x
    by (simp add: de_tree_qp_def qp_tree_def qp_map_def)
qed

theorem qp_index_witness:
  "\<exists>dup root'. add_rb_data plain_lib [1 \<mapsto> bare_qp (replicate 12 1), 2 \<mapsto> bare_qp (replicate 12 2)]
     (Node Leaf 1 Leaf) 2 = Some (dup, root')"
proof -
  let ?qps = "[1 \<mapsto> bare_qp (replicate 12 1), 2 \<mapsto> bare_qp (replicate 12 2)]"
  have "qp_tree ?qps (Node Leaf 1 Leaf)" by (simp add: qp_tree_def rb_ordered_def)
  then show ?thesis
    using qp_index [OF plain_lib_ok, of ?qps "(Node Leaf 1 Leaf)" 2 "bare_qp (replicate 12 2)" 1
        "bare_qp (replicate 12 1)"] by auto
qed

text \<open>On keys without a \<open>NUL\<close> byte the comparison of connections is exact: two of them compare
  equal only if ports and addresses are the same.\<close>

theorem strncmp_exact:
  assumes "0 \<notin> set (conn_key ps pd as ad)" and "0 \<notin> set (conn_key ps' pd' as' ad')"
  shows "strncmp RB_KEY_LENGTH (conn_key ps pd as ad) (conn_key ps' pd' as' ad') = 0 \<longleftrightarrow>
    ps = ps' \<and> pd = pd' \<and> as = as' \<and> ad = ad'"
  using assms by (simp add: strncmp_eq_0 c_string_no_NUL conn_key_inject)

theorem strncmp_exact_witness:
  "strncmp RB_KEY_LENGTH (conn_key 0x0101 0x0202 0x01010101 0x02020202)
     (conn_key 0x0101 0x0202 0x01010101 0x03030303) \<noteq> 0"
proof -
  have "0 \<notin> set (conn_key 0x0101 0x0202 0x01010101 0x02020202)"
    "0 \<notin> set (conn_key 0x0101 0x0202 0x01010101 0x03030303)"
    by (simp_all add: conn_key_def bytes16_def bytes32_def drop_bit_eq_div)
  from strncmp_exact [OF this] show ?thesis by simp
qed

text \<open>A \<open>NUL\<close> byte in an address hides the rest of the key: connections of the clients 10.0.0.1
  and 10.0.0.2 that agree in the two ports compare equal whatever their destinations are, so the
  second one is taken for the first.\<close>

theorem strncmp_conflates:
  "strncmp RB_KEY_LENGTH (conn_key ps pd 0x0100000A ad) (conn_key ps pd 0x0200000A ad') = 0"
proof -
  have "c_string (xs @ 10 # 0 # ys) = c_string (xs @ 10 # 0 # zs)" for xs ys zs :: "u8 list"
    by (induction xs) auto
  note eq = this [of "bytes16 ps @ bytes16 pd"]
  have "bytes32 0x0100000A = [10, 0, 0, 1]" "bytes32 0x0200000A = [10, 0, 0, 2]"
    by (simp_all add: bytes32_def drop_bit_eq_div)
  with eq show ?thesis
    by (subst strncmp_eq_0) (simp_all add: conn_key_def byte_simps)
qed

text \<open>A rebalancing within the contract that makes every tree a left spine.\<close>

definition left_spine :: "'a list \<Rightarrow> 'a tree" where
  "left_spine xs = foldl (\<lambda>t x. (Node t x Leaf)) Leaf xs"

definition spine_lib :: rbtree_lib where
  "spine_lib = \<lparr>rb_insert_color = (\<lambda>_ t. left_spine (inorder t)),
                rb_erase = (\<lambda>x t. left_spine (remove1 x (inorder t)))\<rparr>"

lemma inorder_left_spine: "inorder (left_spine xs) = xs"
  by (induction xs rule: rev_induct) (auto simp: left_spine_def)

lemma spine_lib_ok: "rbtree_lib_ok spine_lib"
  by (simp add: rbtree_lib_ok_def spine_lib_def inorder_left_spine)

text \<open>The 32-bit difference does not order all ids: outside one window it is cyclic, and a
  rebalancing that keeps the in-order sequence can then hide a listener that is in the tree. Here
  the listeners of the ids \<open>0x00000000\<close>, \<open>0x50000000\<close> and \<open>0xA0000000\<close> are added in turn, all three
  are in the tree, and the first one is no longer found.\<close>

theorem key_diff_hides_listner:
  "\<exists>L ls t1 t2 t3. rbtree_lib_ok L \<and>
     ls = [1 \<mapsto> bare_listner 0, 2 \<mapsto> bare_listner 0x50000000, 3 \<mapsto> bare_listner 0xA0000000] \<and>
     add_rb_listner L ls Leaf 1 = Some (None, t1) \<and> add_rb_listner L ls t1 2 = Some (None, t2) \<and>
     add_rb_listner L ls t2 3 = Some (None, t3) \<and> 1 \<in> set_tree t3 \<and>
     search_rb_listner ls t3 0 = Some None"
proof (intro exI conjI)
  let ?ls = "[1 \<mapsto> bare_listner 0, 2 \<mapsto> bare_listner 0x50000000, 3 \<mapsto> bare_listner 0xA0000000] :: addr \<rightharpoonup> cbn_listner"
  show "rbtree_lib_ok spine_lib" by (rule spine_lib_ok)
  show "?ls = ?ls" ..
  show "add_rb_listner spine_lib ?ls Leaf 1 = Some (None, (left_spine [1]))"
    by (simp add: add_rb_listner_def rb_insert_result_def spine_lib_def left_spine_def bare_listner_def)
  show "add_rb_listner spine_lib ?ls (left_spine [1]) 2 = Some (None, left_spine [1, 2])"
    by (simp add: add_rb_listner_def rb_insert_result_def spine_lib_def left_spine_def bare_listner_def
        key_diff_def)
  show "add_rb_listner spine_lib ?ls (left_spine [1, 2]) 3 =
      Some (None, left_spine [1, 2, 3])"
    by (simp add: add_rb_listner_def rb_insert_result_def spine_lib_def left_spine_def bare_listner_def
        key_diff_def)
  show "search_rb_listner ?ls (left_spine [1, 2, 3]) 0 = Some None"
    by (simp add: search_rb_listner_def bare_listner_def key_diff_def left_spine_def)
qed (simp add: left_spine_def)

end
