(* ===== verification/Qp_State.thy ===== *)
theory Qp_State
  imports Rb_Tree
begin

unbundle bit_operations_syntax

text \<open>
  The state the connection threads share, and the operations on it that both halves of a connection
  use: the reference count of \<^verbatim>\<open>tcpsplit/qp.c\<close> (\<open>get_qp\<close>, \<open>put_qp\<close>, \<open>fin_connected_qp\<close>) and the
  rendezvous of \<^verbatim>\<open>tcpsplit/split.c\<close> (\<open>qp_exists\<close>, \<open>wait_qp_ready\<close>).

  The slab caches are partial maps from addresses to objects: a freed object is absent, and touching
  it is an oops, with one exception that every connection meets at its end (see \<open>put_qp\<close>). Calls into the kernel that change something outside the module are appended to the
  log \<open>calls\<close>; what such a call returns is an argument of the operation that makes it. Spin locks are
  not modelled: the code between two calls that may sleep runs on one core and is one atomic step.
  The address of a wait queue is the address of its QP.
\<close>

section \<open>Calls into the kernel\<close>

text \<open>\<open>struct iphdr\<close> and \<open>struct tcphdr\<close>: the fields the module reads or writes, and the rest of the bytes,
  which it only copies.\<close>

record iphdr =
  protocol :: u8
  saddr :: u32
  daddr :: u32
  ip_rest :: "u8 list"

record tcphdr =
  source :: u16
  tdest :: u16
  syn :: bool
  ack :: bool
  tcp_window :: u16
  tcp_rest :: "u8 list"

datatype sockopt = SO_MARK | TCP_NODELAY | IP_TRANSPARENT | IP_HDRINCL | SO_KEEPALIVE

text \<open>The functions handed to the thread pool, with their argument.\<close>

datatype pool_fn =
    Start_new_connection_syn addr
  | Start_new_pre_connection_syn addr
  | Start_probe_syn addr
  | Start_new_connection addr
  | Split_server u64
  | Prealloc_connection_pool u64
  | Prealloc_connection u64
  | Start_new_pending_connection addr
  | Start_half_duplex addr
  | Other_task nat

text \<open>\<open>sock_create_kern\<close> creates a stream socket, \<open>sock_create_raw\<close> is the same call for a raw one. The three
  forms of \<open>kernel_sendmsg\<close> and \<open>kernel_recvmsg\<close> that carry control data are named after what they carry;
  the relay loop has its own record of the stream. \<open>unlock_freed q\<close> is no call: it marks that the code writes
  the lock of the QP \<open>q\<close> right after freeing it.\<close>

datatype kcall =
    sock_create_kern
  | sock_create_raw
  | kernel_setsockopt sock sockopt s32
  | kernel_bind sock sockaddr_in
  | kernel_connect sock sockaddr_in
  | kernel_listen sock nat
  | kernel_accept sock
  | kernel_getsockopt sock
  | kernel_getpeername sock
  | kernel_sock_shutdown sock
  | sock_release sock
  | sched_setaffinity "cpu option"
  | wake_up addr
  | run_in_pool pool_fn "cpu option"
  | sendmsg_headers sock sockaddr_in iphdr tcphdr
  | sendmsg_addresses sock addresses
  | recvmsg_addresses sock
  | unlock_freed addr

text \<open>\<open>struct sockets\<close>, what a relay loop works on.\<close>

record sockets =
  sock_rx :: "sock kptr"
  sock_tx :: "sock kptr"
  sock_dir :: int

section \<open>State\<close>

text \<open>\<open>struct probe\<close>: the headers of a captured SYN and the listener it belongs to.\<close>

record probe =
  probe_iph :: iphdr
  probe_tcph :: tcphdr
  probe_listner :: addr

record kstate =
  qps :: "addr \<rightharpoonup> cbn_qp"
  listners :: "addr \<rightharpoonup> cbn_listner"
  listner_root :: "addr tree"
  syns :: "addr \<rightharpoonup> addresses"
  probes :: "addr \<rightharpoonup> probe"
  ip_transparent :: u32
  pair_frames :: "addr \<rightharpoonup> sockets \<times> addr"
  calls :: "kcall list"

text \<open>
  The state when the module is loaded. \<open>pair_frames\<close> is the part of the stacks of other threads that is passed
  to the pool: the array \<open>ptr_pair\<close> of \<^verbatim>\<open>conn_pool.c\<close> with what its two pointers refer to. A frame is there
  as long as the function it belongs to has not returned.
\<close>

definition kstate0 :: kstate where
  "kstate0 = \<lparr>qps = Map.empty, listners = Map.empty, listner_root = Leaf, syns = Map.empty,
     probes = Map.empty, ip_transparent = 1, pair_frames = Map.empty, calls = []\<rparr>"

definition log_call :: "kcall \<Rightarrow> kstate \<Rightarrow> kstate" where
  "log_call k s = s\<lparr>calls := calls s @ [k]\<rparr>"

lemma log_call_sel [simp]:
  "calls (log_call k s) = calls s @ [k]" "qps (log_call k s) = qps s" "listners (log_call k s) = listners s"
  "listner_root (log_call k s) = listner_root s" "syns (log_call k s) = syns s"
  "probes (log_call k s) = probes s" "ip_transparent (log_call k s) = ip_transparent s"
  "pair_frames (log_call k s) = pair_frames s"
  by (simp_all add: log_call_def)

text \<open>A socket that has been released. A \<open>sock\<close> is the name of a socket rather than its address: a new socket has
  a name that was not used before.\<close>

definition released :: "sock \<Rightarrow> kstate \<Rightarrow> bool" where
  "released k s \<longleftrightarrow> sock_release k \<in> set (calls s)"

lemma released_log [simp]: "released k (log_call c s) \<longleftrightarrow> c = sock_release k \<or> released k s"
  by (auto simp: released_def)

text \<open>Writing a field of a QP, and the root of the tree of one listener on one core.\<close>

definition upd_qp :: "addr \<Rightarrow> (cbn_qp \<Rightarrow> cbn_qp) \<Rightarrow> kstate \<Rightarrow> kstate option" where
  "upd_qp q f s = map_option (\<lambda>x. s\<lparr>qps := (qps s)(q \<mapsto> f x)\<rparr>) (qps s q)"

definition set_qp_root :: "addr \<Rightarrow> cpu \<Rightarrow> addr tree \<Rightarrow> kstate \<Rightarrow> kstate option" where
  "set_qp_root l c t s = map_option (\<lambda>li. s\<lparr>listners := (listners s)
     (l \<mapsto> li\<lparr>connections_root := (connections_root li)(c := t)\<rparr>)\<rparr>) (listners s l)"

definition sock_call :: "(sock \<Rightarrow> kcall) \<Rightarrow> sock kptr \<Rightarrow> kstate \<Rightarrow> kstate" where
  "sock_call k p s = (case p of PTR x \<Rightarrow> log_call (k x) s | _ \<Rightarrow> s)"

section \<open>Reference counting\<close>

definition fin_connected_qp :: "rbtree_lib \<Rightarrow> cpu \<Rightarrow> addr \<Rightarrow> kstate \<Rightarrow> kstate option" where
  "fin_connected_qp L c q s = do {
     x \<leftarrow> qps s q;
     (case listner x of
        None \<Rightarrow> Some s
      | Some l \<Rightarrow> do {
          li \<leftarrow> listners s l;
          t \<leftarrow> de_tree_qp L q (connections_root li c);
          set_qp_root l c t s }) }"

definition get_qp :: "rbtree_lib \<Rightarrow> cpu \<Rightarrow> addr \<Rightarrow> kstate \<Rightarrow> kstate option" where
  "get_qp L c q s = do {
     x \<leftarrow> qps s q;
     let rc = ref_cnt x + 1;
     s \<leftarrow> upd_qp q (\<lambda>x. x\<lparr>ref_cnt := rc\<rparr>) s;
     if rc = 2 then fin_connected_qp L c q s else Some s }"

text \<open>\<open>sock_release\<close> and \<open>kernel_sock_shutdown\<close> are called only on pointers that are not
  \<open>IS_ERR_OR_NULL\<close>, which is what \<^const>\<open>sock_call\<close> checks. The lock inside the QP is held meanwhile and is
  unlocked at the end, also when the QP has been freed: this write to a freed object is logged.\<close>

definition put_qp :: "addr \<Rightarrow> kstate \<Rightarrow> (s32 \<times> kstate) option" where
  "put_qp q s = do {
     x \<leftarrow> qps s q;
     let rc = ref_cnt x - 1;
     s \<leftarrow> upd_qp q (\<lambda>x. x\<lparr>ref_cnt := rc\<rparr>) s;
     let s = (if rc = 0
              then (let s = sock_call sock_release (rx x) (sock_call sock_release (tx x) s)
                    in log_call (unlock_freed q) (s\<lparr>qps := (qps s)(q := None)\<rparr>))
              else sock_call kernel_sock_shutdown (rx x) (sock_call kernel_sock_shutdown (tx x) s));
     Some (rc, s) }"

section \<open>Rendezvous\<close>

text \<open>The result \<open>None\<close> inside is the \<open>NULL\<close> that reports a second SYN of the same half.\<close>

definition qp_exists :: "rbtree_lib \<Rightarrow> cpu \<Rightarrow> addr \<Rightarrow> u8 \<Rightarrow> kstate \<Rightarrow> (addr option \<times> kstate) option" where
  "qp_exists L c pqp dir s = do {
     x \<leftarrow> qps s pqp;
     l \<leftarrow> listner x;
     li \<leftarrow> listners s l;
     (dup, root) \<leftarrow> add_rb_data L (qps s) (connections_root li c) pqp;
     s \<leftarrow> set_qp_root l c root s;
     (case dup of
        Some qp \<Rightarrow> do {
          y \<leftarrow> qps s qp;
          if qp_dir y dir \<noteq> NULL then Some (None, s)
          else do {
            s \<leftarrow> upd_qp qp (set_qp_dir dir (qp_dir x dir)) s;
            let s = s\<lparr>qps := (qps s)(pqp := None)\<rparr>;
            Some (Some qp, s) } }
      | None \<Rightarrow> Some (Some pqp, s)) }"

text \<open>
  \<open>wait_qp_ready\<close> sleeps in \<open>wait_event_interruptible_timeout\<close>. \<open>wait_qp_enter\<close> is the part before,
  with result \<open>True\<close> when the thread goes to sleep; \<open>wait_qp_leave\<close> the part after, on the value \<open>rc\<close>
  that the wait returned.
\<close>

definition wait_qp_enter :: "rbtree_lib \<Rightarrow> cpu \<Rightarrow> addr \<Rightarrow> u8 \<Rightarrow> kstate \<Rightarrow> (bool \<times> kstate) option" where
  "wait_qp_enter L c q dir s = do {
     x \<leftarrow> qps s q;
     if IS_ERR_OR_NULL (qp_dir x (dir XOR 1)) then do {
       s \<leftarrow> get_qp L c q s;
       Some (True, s) }
     else do {
       s \<leftarrow> get_qp L c q s;
       Some (False, log_call (wake_up q) s) } }"

definition wait_qp_leave :: "rbtree_lib \<Rightarrow> cpu \<Rightarrow> addr \<Rightarrow> int \<Rightarrow> kstate \<Rightarrow> (int \<times> kstate) option" where
  "wait_qp_leave L c q rc s =
     (if rc = 0 then do {
        x \<leftarrow> qps s q;
        s \<leftarrow> (case listner x of
                None \<Rightarrow> Some s
              | Some l \<Rightarrow> do {
                  li \<leftarrow> listners s l;
                  t \<leftarrow> de_tree_qp L q (connections_root li c);
                  set_qp_root l c t s });
        (_, s) \<leftarrow> put_qp q s;
        Some (1, s) }
      else Some (0, s))"

text \<open>The whole function, with \<open>others\<close> for what happens during the sleep: the value the wait returns
  and the effect of the other threads.\<close>

definition wait_qp_ready :: "rbtree_lib \<Rightarrow> cpu \<Rightarrow> (kstate \<Rightarrow> int \<times> kstate) \<Rightarrow> addr \<Rightarrow> u8 \<Rightarrow> kstate \<Rightarrow>
    (int \<times> kstate) option" where
  "wait_qp_ready L c others q dir s = do {
     (asleep, s) \<leftarrow> wait_qp_enter L c q dir s;
     if asleep then (case others s of (rc, s) \<Rightarrow> wait_qp_leave L c q rc s) else Some (0, s) }"

end
