(* ===== verification/Half_Duplex.thy ===== *)
theory Half_Duplex
  imports Qp_State
begin

unbundle bit_operations_syntax

text \<open>
  \<open>half_duplex\<close> of \<^verbatim>\<open>tcpsplit/split.c\<close>, the loop that relays one direction of a connection: receive into
  sixteen pages, send what was received, until one side fails, then drop the reference to the QP.

  What the sockets do is a script with one entry per iteration: the result of \<open>kernel_recvmsg\<close> with
  the bytes it delivers, the result of \<open>kernel_sendmsg\<close>, and whether the thread is told to stop. A
  script that ends before the loop does stands for a thread that is still relaying: the result is
  \<open>None\<close> then. The two streams are kept as the ghost fields \<open>received\<close> and \<open>sent\<close>.
\<close>

section \<open>Definitions\<close>

abbreviation (input) VEC_SZ :: nat where "VEC_SZ \<equiv> 16"

record io =
  rcv :: int
  rdata :: "u8 list"
  snt :: int
  stop :: bool

record hd =
  vec :: "u8 list list"
  bytes :: u64
  hd_rc :: int
  received :: "u8 list"
  sent :: "u8 list"

datatype hd_end = Recv_end | Send_end | Stopped

text \<open>Scattering bytes over the buffers of an I/O vector, and gathering a prefix of them.\<close>

fun kvec_fill :: "u8 list \<Rightarrow> u8 list list \<Rightarrow> u8 list list" where
  "kvec_fill bs [] = []"
| "kvec_fill bs (p # ps) =
     (take (length p) bs @ drop (length bs) p) # kvec_fill (drop (length p) bs) ps"

definition kvec_gather :: "nat \<Rightarrow> u8 list list \<Rightarrow> u8 list" where
  "kvec_gather n ps = take n (concat ps)"

text \<open>The allocation loop: \<open>0\<close> among the pages is a failed allocation and ends it. The first argument
  is the array \<open>iov_base\<close> on the stack, not initialised.\<close>

fun kvec_alloc :: "u64 list \<Rightarrow> u64 list \<Rightarrow> u64 list \<times> bool" where
  "kvec_alloc (b # bases) (p # pages) =
     (if p = 0 then (0 # bases, False)
      else (case kvec_alloc bases pages of (bs, ok) \<Rightarrow> (p # bs, ok)))"
| "kvec_alloc bases _ = (bases, True)"

fun relay :: "io list \<Rightarrow> hd \<Rightarrow> (hd_end \<times> hd) option" where
  "relay [] h = None"
| "relay (i # is) h =
     (let rc = rcv i; h = h\<lparr>hd_rc := rc\<rparr>
      in if rc \<le> 0 then Some (Recv_end, h)
         else let h = h\<lparr>vec := kvec_fill (take (nat rc) (rdata i)) (vec h),
                       received := received h @ take (nat rc) (rdata i),
                       bytes := bytes h + of_int rc\<rparr>;
                  rc' = snt i;
                  h = h\<lparr>hd_rc := rc'\<rparr>
              in if rc' \<le> 0 then Some (Send_end, h)
                 else let h = h\<lparr>sent := sent h @ take (nat rc') (kvec_gather (nat rc) (vec h))\<rparr>
                      in if stop i then Some (Stopped, h) else relay is h)"

record hd_env =
  page_allocs :: "u64 list"
  junk :: "u64 list"
  page_data :: "u8 list list"
  script :: "io list"

record hd_result =
  res_rc :: int
  res_state :: hd
  freed_pages :: "u64 list"

definition half_duplex :: "hd_env \<Rightarrow> addr \<Rightarrow> kstate \<Rightarrow> (hd_result \<times> kstate) option" where
  "half_duplex e qp s = do {
     let s = log_call (sched_setaffinity None) s;
     let h = \<lparr>vec = page_data e, bytes = 0, hd_rc = - ENOMEM, received = [], sent = []\<rparr>;
     let (bases, ok) = kvec_alloc (take VEC_SZ (junk e)) (take VEC_SZ (page_allocs e));
     (h, s) \<leftarrow>
       (if \<not> ok then Some (h, s)
        else do {
          (end, h) \<leftarrow> relay (script e) h;
          (case end of
             Stopped \<Rightarrow> Some (h, s)
           | _ \<Rightarrow> do { (_, s) \<leftarrow> put_qp qp s; Some (h, s) }) });
     Some (\<lparr>res_rc = hd_rc h, res_state = h, freed_pages = filter (\<lambda>p. p \<noteq> 0) bases\<rparr>, s) }"

section \<open>Lemmas\<close>

lemma concat_kvec_fill:
  "length bs \<le> length (concat ps) \<Longrightarrow> concat (kvec_fill bs ps) = bs @ drop (length bs) (concat ps)"
proof (induction ps arbitrary: bs)
  case (Cons p ps)
  show ?case
  proof (cases "length bs \<le> length p")
    case True
    have "concat (kvec_fill [] ps) = concat ps" using Cons.IH [of "[]"] by simp
    then show ?thesis using True by simp
  next
    case False
    then show ?thesis using Cons.IH [of "drop (length p) bs"] Cons.prems by simp
  qed
qed simp

lemma length_kvec_fill [simp]: "map length (kvec_fill bs ps) = map length ps"
  by (induction bs ps rule: kvec_fill.induct) auto

lemma length_concat_fill [simp]: "length (concat (kvec_fill bs ps)) = length (concat ps)"
  by (simp add: length_concat)

text \<open>What \<open>kernel_recvmsg\<close> and \<open>kernel_sendmsg\<close> promise: a positive result counts the bytes delivered,
  at most the size of the vector; a send accepts at most what it was given.\<close>

definition io_ok :: "nat \<Rightarrow> io \<Rightarrow> bool" where
  "io_ok n i \<longleftrightarrow> (0 < rcv i \<longrightarrow>
     rcv i = int (length (rdata i)) \<and> length (rdata i) \<le> n \<and> snt i \<le> rcv i)"

text \<open>An iteration after which the loop goes on.\<close>

definition io_cont :: "io \<Rightarrow> bool" where
  "io_cont i \<longleftrightarrow> 0 < rcv i \<and> 0 < snt i \<and> \<not> stop i"

lemma relay_cont:
  assumes "\<forall>i \<in> set is. io_ok (length (concat (vec h))) i \<and> io_cont i"
  shows "\<exists>v rc. relay (is @ js) h = relay js (h\<lparr>vec := v, hd_rc := rc,
      bytes := bytes h + of_nat (length (concat (map rdata is))),
      received := received h @ concat (map rdata is),
      sent := sent h @ concat (map (\<lambda>i. take (nat (snt i)) (rdata i)) is)\<rparr>) \<and>
    length (concat v) = length (concat (vec h))"
  using assms
proof (induction "is" arbitrary: h)
  case Nil
  show ?case by (rule exI [of _ "vec h"], rule exI [of _ "hd_rc h"]) simp
next
  case (Cons i "is")
  let ?v = "kvec_fill (rdata i) (vec h)"
  let ?h = "h\<lparr>vec := ?v, hd_rc := snt i, bytes := bytes h + of_nat (length (rdata i)),
      received := received h @ rdata i, sent := sent h @ take (nat (snt i)) (rdata i)\<rparr>"
  have i: "rcv i = int (length (rdata i))" "length (rdata i) \<le> length (concat (vec h))"
    "0 < snt i" "snt i \<le> rcv i" "\<not> stop i" "0 < rcv i"
    using Cons.prems by (auto simp: io_ok_def io_cont_def)
  have step: "relay ((i # is) @ js) h = relay (is @ js) ?h"
    using i by (cases h) (simp add: Let_def kvec_gather_def concat_kvec_fill)
  have "\<forall>i \<in> set is. io_ok (length (concat (vec ?h))) i \<and> io_cont i"
    using Cons.prems by simp
  from Cons.IH [OF this] obtain v rc where IH:
    "relay (is @ js) ?h = relay js (?h\<lparr>vec := v, hd_rc := rc,
      bytes := bytes ?h + of_nat (length (concat (map rdata is))),
      received := received ?h @ concat (map rdata is),
      sent := sent ?h @ concat (map (\<lambda>i. take (nat (snt i)) (rdata i)) is)\<rparr>)"
    "length (concat v) = length (concat (vec ?h))" by blast
  show ?case
    by (rule exI [of _ v], rule exI [of _ rc]) (use IH step in \<open>simp add: add.assoc\<close>)
qed

lemma kvec_alloc_ok:
  assumes "length bases = length pages" and "0 \<notin> set pages"
  shows "kvec_alloc bases pages = (pages, True)"
  using assms by (induction bases pages rule: kvec_alloc.induct) auto

lemma kvec_alloc_fail:
  assumes "length bases = length pages + Suc n" and "0 \<notin> set pages"
  shows "kvec_alloc bases (pages @ 0 # ps) = (pages @ 0 # drop (Suc (length pages)) bases, False)"
  using assms
proof (induction pages arbitrary: bases)
  case Nil then show ?case by (cases bases) auto
next
  case (Cons p pages) then show ?case by (cases bases) auto
qed

text \<open>The pages could be allocated.\<close>

definition pages_ok :: "hd_env \<Rightarrow> bool" where
  "pages_ok e \<longleftrightarrow> length (page_allocs e) = VEC_SZ \<and> 0 \<notin> set (page_allocs e) \<and> length (junk e) = VEC_SZ \<and>
     length (concat (page_data e)) = VEC_SZ * PAGE_SIZE"

lemma half_duplex_pages:
  assumes "pages_ok e"
  shows "half_duplex e q s = do {
    (end, h) \<leftarrow> relay (script e) \<lparr>vec = page_data e, bytes = 0, hd_rc = - ENOMEM, received = [], sent = []\<rparr>;
    s \<leftarrow> (case end of Stopped \<Rightarrow> Some (log_call (sched_setaffinity None) s)
          | _ \<Rightarrow> map_option snd (put_qp q (log_call (sched_setaffinity None) s)));
    Some (\<lparr>res_rc = hd_rc h, res_state = h, freed_pages = page_allocs e\<rparr>, s) }"
proof -
  have "filter (\<lambda>p. p \<noteq> 0) (page_allocs e) = page_allocs e"
    using assms by (auto simp: pages_ok_def filter_id_conv)
  then show ?thesis
    using assms
    by (cases "put_qp q (log_call (sched_setaffinity None) s)")
       (auto simp: half_duplex_def pages_ok_def kvec_alloc_ok Let_def split: hd_end.splits
        intro!: bind_option_cong)
qed

lemma half_duplex_ends:
  assumes "pages_ok e" and "script e = is @ i # js"
    and "\<forall>i \<in> set is. io_ok (VEC_SZ * PAGE_SIZE) i \<and> io_cont i"
    and "io_ok (VEC_SZ * PAGE_SIZE) i" and "rcv i \<le> 0 \<or> snt i \<le> 0"
    and "put_qp qp (log_call (sched_setaffinity None) s) = Some (n, s')"
  shows "\<exists>r. half_duplex e qp s = Some (r, s') \<and>
    res_rc r = (if rcv i \<le> 0 then rcv i else snt i) \<and>
    received (res_state r) = concat (map rdata is) @ (if rcv i \<le> 0 then [] else rdata i) \<and>
    sent (res_state r) = concat (map (\<lambda>i. take (nat (snt i)) (rdata i)) is) \<and>
    bytes (res_state r) = of_nat (length (received (res_state r))) \<and>
    freed_pages r = page_allocs e"
proof -
  let ?h = "\<lparr>vec = page_data e, bytes = 0, hd_rc = - ENOMEM, received = [], sent = []\<rparr>"
  have n: "length (concat (vec ?h)) = VEC_SZ * PAGE_SIZE" using assms(1) by (simp add: pages_ok_def)
  obtain v rc where rl: "relay (is @ i # js) ?h = relay (i # js) (?h\<lparr>vec := v, hd_rc := rc,
      bytes := of_nat (length (concat (map rdata is))), received := concat (map rdata is),
      sent := concat (map (\<lambda>i. take (nat (snt i)) (rdata i)) is)\<rparr>)"
    using relay_cont [of "is" ?h "i # js"] assms(3) n by auto
  show ?thesis
  proof (cases "rcv i \<le> 0")
    case True
    then show ?thesis using assms(2,6) rl by (simp add: half_duplex_pages [OF assms(1)])
  next
    case False
    then have "snt i \<le> 0" "take (nat (rcv i)) (rdata i) = rdata i" "of_int (rcv i) = (of_nat (length (rdata i)) :: u64)"
      using assms(4,5) by (auto simp: io_ok_def)
    then show ?thesis using False assms(2,6) rl by (simp add: half_duplex_pages [OF assms(1)] Let_def)
  qed
qed

text \<open>An example: two blocks are relayed, the second in part, then the peer closes.\<close>

definition hd_env_ex :: hd_env where
  "hd_env_ex = \<lparr>page_allocs = replicate VEC_SZ 0x1000, junk = replicate VEC_SZ 0xdead,
     page_data = replicate VEC_SZ (replicate PAGE_SIZE 0),
     script = [\<lparr>rcv = 3, rdata = [1, 2, 3], snt = 3, stop = False\<rparr>,
               \<lparr>rcv = 2, rdata = [4, 5], snt = 1, stop = False\<rparr>,
               \<lparr>rcv = 0, rdata = [], snt = 0, stop = False\<rparr>]\<rparr>"

definition hd_state_ex :: kstate where
  "hd_state_ex = kstate0\<lparr>qps := [1 \<mapsto> (bare_qp (replicate 12 1))\<lparr>ref_cnt := 1, tx := PTR 5, rx := PTR 6\<rparr>]\<rparr>"

lemma pages_ok_ex: "pages_ok (hd_env_ex\<lparr>script := is\<rparr>)"
  by (simp add: pages_ok_def hd_env_ex_def length_concat map_replicate_const sum_list_replicate)

lemma put_qp_ex: "put_qp 1 (log_call (sched_setaffinity None) hd_state_ex) =
  Some (0, kstate0\<lparr>calls := [sched_setaffinity None, sock_release 5, sock_release 6, unlock_freed 1]\<rparr>)"
  by (simp add: put_qp_def hd_state_ex_def log_call_def upd_qp_def sock_call_def kstate0_def Let_def)

section \<open>Properties\<close>

text \<open>C11. The relay loop ends with the first iteration that does not complete, and then the QP has been
  put exactly once when receiving or sending failed. Up to that point the receiver got, for each
  received block, the prefix the socket accepted; the block of the failed send got lost. The byte
  counter is the number of bytes received, modulo \<open>2\<^sup>6\<^sup>4\<close>, and all sixteen pages are freed.\<close>

theorem half_duplex_result:
  assumes "pages_ok e" and "script e = is @ i # js"
    and "\<forall>i \<in> set is. io_ok (VEC_SZ * PAGE_SIZE) i \<and> io_cont i"
    and "io_ok (VEC_SZ * PAGE_SIZE) i" and "rcv i \<le> 0 \<or> snt i \<le> 0"
    and "put_qp qp (log_call (sched_setaffinity None) s) = Some (n, s')"
  shows "\<exists>r. half_duplex e qp s = Some (r, s') \<and>
    res_rc r = (if rcv i \<le> 0 then rcv i else snt i) \<and>
    received (res_state r) = concat (map rdata is) @ (if rcv i \<le> 0 then [] else rdata i) \<and>
    sent (res_state r) = concat (map (\<lambda>i. take (nat (snt i)) (rdata i)) is) \<and>
    bytes (res_state r) = of_nat (length (received (res_state r))) \<and>
    freed_pages r = page_allocs e"
  using assms by (rule half_duplex_ends)

theorem half_duplex_result_witness:
  "\<exists>r. half_duplex hd_env_ex 1 hd_state_ex =
      Some (r, kstate0\<lparr>calls := [sched_setaffinity None, sock_release 5, sock_release 6, unlock_freed 1]\<rparr>) \<and>
    received (res_state r) = [1, 2, 3, 4, 5] \<and> sent (res_state r) = [1, 2, 3, 4] \<and> bytes (res_state r) = 5"
  using half_duplex_result [OF _ _ _ _ _ put_qp_ex, of hd_env_ex
      "[\<lparr>rcv = 3, rdata = [1, 2, 3], snt = 3, stop = False\<rparr>, \<lparr>rcv = 2, rdata = [4, 5], snt = 1, stop = False\<rparr>]"
      "\<lparr>rcv = 0, rdata = [], snt = 0, stop = False\<rparr>" "[]"] pages_ok_ex [of "script hd_env_ex"]
  by (auto simp: io_ok_def io_cont_def hd_env_ex_def)

text \<open>C10. When every send accepts the whole block it is given, the relayed stream is exactly the stream
  received, byte for byte and in order, when the connection ends on the receiving side.\<close>

theorem half_duplex_stream:
  assumes "pages_ok e" and "script e = is @ i # js"
    and "\<forall>i \<in> set is. io_ok (VEC_SZ * PAGE_SIZE) i \<and> io_cont i \<and> snt i = rcv i"
    and "rcv i \<le> 0" and "put_qp qp (log_call (sched_setaffinity None) s) = Some (n, s')"
  shows "\<exists>r. half_duplex e qp s = Some (r, s') \<and> sent (res_state r) = received (res_state r) \<and>
    received (res_state r) = concat (map rdata is) \<and> res_rc r = rcv i"
proof -
  have eq: "map (\<lambda>i. take (nat (snt i)) (rdata i)) is = map rdata is"
    using assms(3) by (intro map_cong) (auto simp: io_ok_def io_cont_def)
  have cont: "\<forall>i \<in> set is. io_ok (VEC_SZ * PAGE_SIZE) i \<and> io_cont i" using assms(3) by blast
  have last: "io_ok (VEC_SZ * PAGE_SIZE) i" "rcv i \<le> 0 \<or> snt i \<le> 0" using assms(4) by (simp_all add: io_ok_def)
  show ?thesis
    using half_duplex_ends [OF assms(1,2) cont last assms(5)] assms(4) unfolding eq by fastforce
qed

theorem half_duplex_stream_witness:
  "\<exists>r. half_duplex (hd_env_ex\<lparr>script := [\<lparr>rcv = 3, rdata = [1, 2, 3], snt = 3, stop = False\<rparr>,
      \<lparr>rcv = 0, rdata = [], snt = 0, stop = False\<rparr>]\<rparr>) 1 hd_state_ex =
      Some (r, kstate0\<lparr>calls := [sched_setaffinity None, sock_release 5, sock_release 6, unlock_freed 1]\<rparr>) \<and>
    sent (res_state r) = [1, 2, 3] \<and> res_rc r = 0"
  using half_duplex_stream [OF pages_ok_ex _ _ _ put_qp_ex, of _ "[\<lparr>rcv = 3, rdata = [1, 2, 3], snt = 3, stop = False\<rparr>]"
      "\<lparr>rcv = 0, rdata = [], snt = 0, stop = False\<rparr>" "[]"]
  by (auto simp: io_ok_def io_cont_def)

text \<open>When the allocation of a page fails, the QP is not put, and the cleanup frees the stack garbage
  in the entries of the vector that were never filled in.\<close>

theorem half_duplex_nomem:
  assumes "page_allocs e = ps @ 0 # rest" and "length (page_allocs e) = VEC_SZ" and "0 \<notin> set ps"
    and "length (junk e) = VEC_SZ"
  shows "\<exists>r. half_duplex e qp s = Some (r, log_call (sched_setaffinity None) s) \<and> res_rc r = - ENOMEM \<and>
    freed_pages r = ps @ filter (\<lambda>p. p \<noteq> 0) (drop (Suc (length ps)) (junk e))"
proof -
  have "kvec_alloc (junk e) (ps @ 0 # rest) = (ps @ 0 # drop (Suc (length ps)) (junk e), False)"
    by (rule kvec_alloc_fail [of _ _ "length rest"]) (use assms in auto)
  moreover have "filter (\<lambda>p. p \<noteq> 0) ps = ps" using assms(3) by (auto simp: filter_id_conv)
  ultimately show ?thesis using assms by (simp add: half_duplex_def)
qed

theorem half_duplex_nomem_witness:
  "\<exists>r. half_duplex (hd_env_ex\<lparr>page_allocs := 0x1000 # 0 # replicate 14 0\<rparr>) 1 hd_state_ex =
      Some (r, log_call (sched_setaffinity None) hd_state_ex) \<and> res_rc r = - ENOMEM \<and>
    freed_pages r = 0x1000 # replicate 14 0xdead"
  using half_duplex_nomem [of "hd_env_ex\<lparr>page_allocs := 0x1000 # 0 # replicate 14 0\<rparr>" "[0x1000]"
      "replicate 14 0" 1 hd_state_ex]
  by (simp add: hd_env_ex_def)

end
