(* ===== verification/Connections.thy ===== *)
theory Connections
  imports Half_Duplex
begin

unbundle bit_operations_syntax

text \<open>
  The two threads of a split connection in \<^verbatim>\<open>tcpsplit/split.c\<close>: \<open>start_new_connection_syn\<close> opens the
  half towards the server (TX) from a captured SYN, \<open>start_new_connection\<close> serves the accepted half
  towards the client (RX).

  A thread is a program counter that stops where the code may sleep with something shared at stake:
  before the socket of the TX half is connected, in \<open>wait_qp_ready\<close>, and in the relay loop. The code
  between two such points is one step. The calls on the thread's own socket are made within a step:
  they touch nothing another thread sees. The step takes an environment with the results of the
  kernel's functions. The core a thread is bound to is part of its program counter.
\<close>

section \<open>Environment\<close>

text \<open>
  \<open>rc_of\<close> is the value each call returns; \<open>new_qp\<close> the object \<open>kmem_cache_alloc\<close> returns for \<open>qp_slab\<close>
  (\<open>None\<close> when it fails) and \<open>qp_mem\<close> what its memory held; \<open>new_sock\<close> the socket created; \<open>orig_dst\<close>
  and \<open>peer\<close> the addresses that \<open>SO_ORIGINAL_DST\<close> and \<open>kernel_getpeername\<close> fill in; \<open>wait_rc\<close> the
  value of \<open>wait_event_interruptible_timeout\<close>; \<open>hd_env_of\<close> what the relay loop sees.
\<close>

record env =
  rc_of :: "kcall \<Rightarrow> int"
  new_qp :: "addr option"
  qp_mem :: cbn_qp
  new_sock :: sock
  orig_dst :: sockaddr_in
  peer :: sockaddr_in
  num_online_cpus :: u32
  wait_rc :: int
  hd_env_of :: hd_env

definition do_call :: "env \<Rightarrow> kcall \<Rightarrow> kstate \<Rightarrow> int \<times> kstate" where
  "do_call e k s = (rc_of e k, log_call k s)"

section \<open>The half towards the server\<close>

text \<open>
  The socket calls of \<open>start_new_connection_syn\<close> up to and including \<open>kernel_connect\<close>: \<open>Inl rc\<close> is a
  jump to \<open>connect_fail\<close>, \<open>Inr\<close> success. The second component is the variable \<open>tx\<close>, the third the
  addresses as the code has changed them.
\<close>

definition syn_socket :: "env \<Rightarrow> addresses \<Rightarrow> kstate \<Rightarrow> (int + unit) \<times> sock kptr \<times> addresses \<times> kstate" where
  "syn_socket e a s =
     (let (rc, s) = do_call e sock_create_kern s in
      if rc \<noteq> 0 then (Inl rc, NULL, a, s) else
      let t = new_sock e; (rc, s) = do_call e (kernel_setsockopt t TCP_NODELAY 1) s in
      if rc < 0 then (Inl rc, PTR t, a, s) else
      let (rc, s) = do_call e (kernel_setsockopt t SO_MARK (mark a)) s in
      if rc < 0 then (Inl rc, PTR t, a, s) else
      let (r, a, s) =
        (if ip_transparent s \<noteq> 0 then
           let (rc, s) = do_call e (kernel_setsockopt t IP_TRANSPARENT 1) s in
           if rc \<noteq> 0 then (Inl rc, a, s) else
           let a = a\<lparr>src := (src a)\<lparr>sin_family := AF_INET, sin_port := 0\<rparr>\<rparr>;
               (rc, s) = do_call e (kernel_bind t (src a)) s in
           if rc \<noteq> 0 then (Inl rc, a, s) else (Inr (), a, s)
         else (Inr (), a, s)) in
      case r of Inl rc \<Rightarrow> (Inl rc, PTR t, a, s) | Inr _ \<Rightarrow>
      let a = a\<lparr>dest := (dest a)\<lparr>sin_family := AF_INET\<rparr>\<rparr>;
          (rc, s) = do_call e (kernel_connect t (dest a)) s in
      if rc \<noteq> 0 then (Inl rc, PTR t, a, s) else (Inr (), PTR t, a, s))"

datatype tx_pc =
    Tx_start cpu addr
  | Tx_connect cpu addr addr
  | Tx_wait cpu addr
  | Tx_relay addr sockets
  | Tx_done int

text \<open>From the return of \<open>wait_qp_ready\<close> to the relay loop. \<open>rc\<close> is \<open>0\<close> here, from \<open>kernel_connect\<close>.\<close>

definition syn_ready :: "addr \<Rightarrow> kstate \<Rightarrow> (tx_pc \<times> kstate) option" where
  "syn_ready q s = do {
     x \<leftarrow> qps s q;
     let socks = \<lparr>sock_rx = tx x, sock_tx = rx x, sock_dir = 1\<rparr>;
     if IS_ERR_OR_NULL (rx x) \<or> IS_ERR_OR_NULL (tx x) then do {
       (_, s) \<leftarrow> put_qp q s;
       Some (Tx_done 0, s) }
     else Some (Tx_relay q socks, s) }"

fun start_new_connection_syn :: "rbtree_lib \<Rightarrow> env \<Rightarrow> tx_pc \<Rightarrow> kstate \<Rightarrow> (tx_pc \<times> kstate) option" where
  "start_new_connection_syn L e (Tx_start c a) s = do {
     ad \<leftarrow> syns s a;
     p \<leftarrow> new_qp e;
     let x = (set_conn (sin_addr (dest ad)) (sin_port (src ad)) (sin_port (dest ad)) (sin_addr (src ad))
                (qp_mem e))\<lparr>ref_cnt := 0, rx := NULL, tx := ERR_PTR (- EINVAL)\<rparr>;
     li \<leftarrow> search_rb_listner (listners s) (listner_root s) (mark ad);
     let s = s\<lparr>qps := (qps s)(p \<mapsto> x\<lparr>listner := li\<rparr>)\<rparr>;
     (qp, s) \<leftarrow> qp_exists L c p TX_QP s;
     (case qp of
        None \<Rightarrow> Some (Tx_done 0, s\<lparr>syns := (syns s)(a := None)\<rparr>)
      | Some q \<Rightarrow> Some (Tx_connect c a q, s)) }"
| "start_new_connection_syn L e (Tx_connect c a q) s = do {
     ad \<leftarrow> syns s a;
     let (r, t, ad, s) = syn_socket e ad s;
     let s = s\<lparr>syns := (syns s)(a \<mapsto> ad)\<rparr>;
     (case r of
        Inl rc \<Rightarrow> Some (Tx_done rc, sock_call sock_release t s)
      | Inr _ \<Rightarrow> do {
          s \<leftarrow> upd_qp q (\<lambda>x. x\<lparr>tx := t\<rparr>) s;
          let s = s\<lparr>syns := (syns s)(a := None)\<rparr>;
          (asleep, s) \<leftarrow> wait_qp_enter L c q TX_QP s;
          if asleep then Some (Tx_wait c q, s) else syn_ready q s }) }"
| "start_new_connection_syn L e (Tx_wait c q) s = do {
     (err, s) \<leftarrow> wait_qp_leave L c q (wait_rc e) s;
     if err \<noteq> 0 then Some (Tx_done 0, s) else syn_ready q s }"
| "start_new_connection_syn L e (Tx_relay q socks) s = do {
     (r, s) \<leftarrow> half_duplex (hd_env_of e) q s;
     Some (Tx_done (res_rc r), s) }"
| "start_new_connection_syn L e (Tx_done rc) s = Some (Tx_done rc, s)"

section \<open>The half towards the client\<close>

text \<open>The calls of \<open>start_new_connection\<close> on the accepted socket: \<open>Inl rc\<close> is a jump to \<open>create_fail\<close>.\<close>

definition accepted_socket :: "env \<Rightarrow> sock \<Rightarrow> s32 \<Rightarrow> kstate \<Rightarrow> (int + unit) \<times> kstate" where
  "accepted_socket e r m s =
     (let (rc, s) = do_call e (kernel_setsockopt r SO_MARK m) s in
      if rc < 0 then (Inl rc, s) else
      let (rc, s) = do_call e (kernel_getsockopt r) s in
      if rc \<noteq> 0 then (Inl rc, s) else
      let (rc, s) = do_call e (kernel_setsockopt r TCP_NODELAY 1) s in
      if rc < 0 then (Inl rc, s) else
      let (rc, s) = do_call e (kernel_getpeername r) s in
      if rc \<noteq> 0 then (Inl rc, s) else (Inr (), s))"

datatype rx_pc =
    Rx_start addr
  | Rx_wait cpu addr
  | Rx_relay addr sockets
  | Rx_done int

text \<open>From the return of \<open>wait_qp_ready\<close> to the relay loop. \<open>IS_ERR_OR_NULL\<close> here ends the thread
  without a \<open>put_qp\<close>.\<close>

definition conn_ready :: "addr \<Rightarrow> kstate \<Rightarrow> (rx_pc \<times> kstate) option" where
  "conn_ready q s = do {
     x \<leftarrow> qps s q;
     let socks = \<lparr>sock_rx = rx x, sock_tx = tx x, sock_dir = 0\<rparr>;
     if IS_ERR_OR_NULL (rx x) \<or> IS_ERR_OR_NULL (tx x) then Some (Rx_done 0, s)
     else Some (Rx_relay q socks, s) }"

definition sock_of :: "sock kptr \<Rightarrow> sock option" where
  "sock_of p = (case p of PTR r \<Rightarrow> Some r | _ \<Rightarrow> None)"

fun start_new_connection :: "rbtree_lib \<Rightarrow> env \<Rightarrow> rx_pc \<Rightarrow> kstate \<Rightarrow> (rx_pc \<times> kstate) option" where
  "start_new_connection L e (Rx_start q) s = do {
     x \<leftarrow> qps s q;
     r \<leftarrow> sock_of (rx x);
     let (res, s) = accepted_socket e r (tid x) s;
     (case res of
        Inl rc \<Rightarrow> Some (Rx_done rc, log_call (sock_release r) s)
      | Inr _ \<Rightarrow> do {
          let x = set_conn (sin_addr (orig_dst e)) (sin_port (peer e)) (sin_port (orig_dst e)) (sin_addr (peer e)) x;
          s \<leftarrow> upd_qp q (\<lambda>_. x) s;
          let c = unat (qp2cpu (num_online_cpus e) x);
          let (rc, s) = do_call e (sched_setaffinity (Some c)) s;
          if rc \<noteq> 0 then Some (Rx_done rc, log_call (sock_release r) s)
          else do {
            s \<leftarrow> upd_qp q (\<lambda>x. x\<lparr>tx := NULL\<rparr>) s;
            (qp, s) \<leftarrow> qp_exists L c q RX_QP s;
            q \<leftarrow> qp;
            (asleep, s) \<leftarrow> wait_qp_enter L c q RX_QP s;
            if asleep then Some (Rx_wait c q, s) else conn_ready q s } }) }"
| "start_new_connection L e (Rx_wait c q) s = do {
     (err, s) \<leftarrow> wait_qp_leave L c q (wait_rc e) s;
     if err \<noteq> 0 then Some (Rx_done 0, s) else conn_ready q s }"
| "start_new_connection L e (Rx_relay q socks) s = do {
     (r, s) \<leftarrow> half_duplex (hd_env_of e) q s;
     Some (Rx_done 0, s) }"
| "start_new_connection L e (Rx_done rc) s = Some (Rx_done rc, s)"

end
