(* ===== verification/Rendezvous.thy ===== *)
theory Rendezvous
  imports Connections
begin

unbundle bit_operations_syntax

text \<open>
  Any number of connection threads interleaved. The machine holds the shared state and the program
  counter of every pool thread; a step starts a connection thread (a captured SYN, an accepted
  socket) or lets one thread run to the next point where it may sleep.

  The invariant describes each QP by the life cycle that the code intends: private to the thread that
  accepted it, pending in the tree of its core while one half is missing, paired once both sockets
  are there, leaked, or free. Which threads are at the QP, its reference count, its two sockets and
  the tree it is linked into are all determined by the phase.
\<close>

section \<open>Where a QP is linked\<close>

definition qp_home :: "kstate \<Rightarrow> addr \<Rightarrow> (addr \<times> cpu) set" where
  "qp_home s q = {(l, c). \<exists>li. listners s l = Some li \<and> q \<in> set_tree (connections_root li c)}"

definition trees_ok :: "kstate \<Rightarrow> bool" where
  "trees_ok s \<longleftrightarrow> (\<forall>l li c. listners s l = Some li \<longrightarrow> qp_tree (qps s) (connections_root li c))"

text \<open>The part of a state that linking and unlinking leaves alone.\<close>

definition same_listners :: "kstate \<Rightarrow> kstate \<Rightarrow> bool" where
  "same_listners s s' \<longleftrightarrow> (\<forall>l. map_option lkey (listners s' l) = map_option lkey (listners s l)) \<and>
     listner_root s' = listner_root s"

lemma qp_homeI: "listners s l = Some li \<Longrightarrow> q \<in> set_tree (connections_root li c) \<Longrightarrow> (l, c) \<in> qp_home s q"
  by (auto simp: qp_home_def)

lemma qp_homeE:
  assumes "(l, c) \<in> qp_home s q"
  obtains li where "listners s l = Some li" "q \<in> set_tree (connections_root li c)"
  using assms by (auto simp: qp_home_def)

lemma qp_home_cong: "listners s' = listners s \<Longrightarrow> qp_home s' = qp_home s"
  by (auto simp: qp_home_def fun_eq_iff)

lemma qp_home_upd [simp]: "qp_home (s\<lparr>qps := f\<rparr>) = qp_home s" "qp_home (s\<lparr>syns := g\<rparr>) = qp_home s"
    "qp_home (s\<lparr>calls := cs\<rparr>) = qp_home s"
  by (rule qp_home_cong, simp)+

lemma trees_ok_upd [simp]: "trees_ok (s\<lparr>syns := g\<rparr>) = trees_ok s" "trees_ok (s\<lparr>calls := cs\<rparr>) = trees_ok s"
  by (simp_all add: trees_ok_def)

lemma qp_tree_cong:
  assumes "qp_tree m t" and "\<And>x. x \<in> set_tree t \<Longrightarrow> map_option key (m' x) = map_option key (m x)"
  shows "qp_tree m' t"
  using assms rb_ordered_cong [of "inorder t" "\<lambda>x. map_option key (m' x)" "\<lambda>x. map_option key (m x)"]
  by (simp add: qp_tree_def)

lemma trees_ok_cong:
  assumes "trees_ok s" and "listners s' = listners s"
    and "\<And>q. qp_home s q \<noteq> {} \<Longrightarrow> map_option key (qps s' q) = map_option key (qps s q)"
  shows "trees_ok s'"
  unfolding trees_ok_def
proof (intro allI impI)
  fix l li c assume "listners s' l = Some li"
  then have li: "listners s l = Some li" using assms(2) by simp
  then have "qp_tree (qps s) (connections_root li c)" using assms(1) by (auto simp: trees_ok_def)
  then show "qp_tree (qps s') (connections_root li c)"
  proof (rule qp_tree_cong)
    fix x assume "x \<in> set_tree (connections_root li c)"
    then have "(l, c) \<in> qp_home s x" using li by (rule qp_homeI [rotated])
    then show "map_option key (qps s' x) = map_option key (qps s x)" using assms(3) by blast
  qed
qed

lemma home_live: "trees_ok s \<Longrightarrow> h \<in> qp_home s q \<Longrightarrow> \<exists>x. qps s q = Some x \<and> qp_wf x"
  by (cases h) (force simp: trees_ok_def qp_tree_def rb_ordered_def elim!: qp_homeE)

text \<open>Replacing the tree of one listener on one core.\<close>

lemma set_qp_root_ok:
  assumes "trees_ok s" and "listners s l = Some li" and "qp_tree (qps s) t"
  shows "\<exists>s'. set_qp_root l c t s = Some s' \<and> trees_ok s' \<and> same_listners s s' \<and>
    (\<exists>ls. s' = s\<lparr>listners := ls\<rparr>) \<and>
    (\<forall>q. qp_home s' q = (if q \<in> set_tree t then insert (l, c) (qp_home s q) else qp_home s q - {(l, c)}))"
proof (intro exI conjI)
  let ?s' = "s\<lparr>listners := (listners s)(l \<mapsto> li\<lparr>connections_root := (connections_root li)(c := t)\<rparr>)\<rparr>"
  show "set_qp_root l c t s = Some ?s'" using assms(2) by (simp add: set_qp_root_def)
  show "trees_ok ?s'" using assms by (auto simp: trees_ok_def)
  show "same_listners s ?s'" using assms(2) by (auto simp: same_listners_def)
  show "?s' = s\<lparr>listners := (listners s)(l \<mapsto> li\<lparr>connections_root := (connections_root li)(c := t)\<rparr>)\<rparr>" ..
  show "\<forall>q. qp_home ?s' q = (if q \<in> set_tree t then insert (l, c) (qp_home s q) else qp_home s q - {(l, c)})"
    using assms(2) by (auto simp: qp_home_def split: if_splits)
qed

lemma fin_connected_ok:
  assumes L: "rbtree_lib_ok L" and t: "trees_ok s" and h: "(l, c) \<in> qp_home s q"
    and x: "qps s q = Some x" "listner x = Some l"
  shows "\<exists>s'. fin_connected_qp L c q s = Some s' \<and> trees_ok s' \<and> same_listners s s' \<and>
    (\<exists>ls. s' = s\<lparr>listners := ls\<rparr>) \<and>
    (\<forall>q'. qp_home s' q' = (if q' = q then qp_home s q' - {(l, c)} else qp_home s q'))"
proof -
  obtain li where li: "listners s l = Some li" "q \<in> set_tree (connections_root li c)"
    using h by (rule qp_homeE)
  let ?t = "rb_erase L q (connections_root li c)"
  have o: "qp_tree (qps s) (connections_root li c)" using t li by (auto simp: trees_ok_def)
  from conn_order.erase_map [OF L o [unfolded qp_tree_def] li(2), of "key x"] x(1)
  have e: "qp_tree (qps s) ?t" "set_tree ?t = set_tree (connections_root li c) - {q}"
    by (auto simp: qp_tree_def)
  obtain s' where s': "set_qp_root l c ?t s = Some s'" "trees_ok s'" "same_listners s s'"
    "\<exists>ls. s' = s\<lparr>listners := ls\<rparr>"
    "\<forall>q. qp_home s' q = (if q \<in> set_tree ?t then insert (l, c) (qp_home s q) else qp_home s q - {(l, c)})"
    using set_qp_root_ok [OF t li(1) e(1)] by blast
  have "fin_connected_qp L c q s = Some s'"
    using x li s'(1) by (simp add: fin_connected_qp_def de_tree_qp_def)
  moreover have "qp_home s' q' = (if q' = q then qp_home s q' - {(l, c)} else qp_home s q')" for q'
    using s'(5) e(2) li(1) by (auto simp: qp_home_def)
  ultimately show ?thesis using s'(2-4) by blast
qed

lemma wait_qp_leave_timeout: "wait_qp_leave L c q 0 s =
  do { s \<leftarrow> fin_connected_qp L c q s; (_, s) \<leftarrow> put_qp q s; Some (1, s) }"
  by (simp add: wait_qp_leave_def fin_connected_qp_def cong: option.case_cong)

lemma wait_qp_leave_woken [simp]: "rc \<noteq> 0 \<Longrightarrow> wait_qp_leave L c q rc s = Some (0, s)"
  by (simp add: wait_qp_leave_def)

text \<open>The tree of a listener on a core as a map from C strings.\<close>

lemma add_rb_data_home:
  assumes L: "rbtree_lib_ok L" and t: "trees_ok s" and x: "qps s p = Some x" "qp_wf x" and li: "listners s l = Some li"
  obtains dup t' where "add_rb_data L (qps s) (connections_root li c) p = Some (dup, t')" "qp_tree (qps s) t'"
    "if dup = None then set_tree t' = insert p (set_tree (connections_root li c)) else t' = connections_root li c"
    "\<And>z. dup = Some z \<Longrightarrow> \<exists>y. (l, c) \<in> qp_home s z \<and> qps s z = Some y \<and> c_string (key y) = c_string (key x)"
    "\<And>z y. (l, c) \<in> qp_home s z \<Longrightarrow> qps s z = Some y \<Longrightarrow> c_string (key y) = c_string (key x) \<Longrightarrow> dup = Some z"
proof -
  let ?r = "connections_root li c"
  have o: "qp_tree (qps s) ?r" using t li by (auto simp: trees_ok_def)
  obtain dup t' where a: "add_rb_data L (qps s) ?r p = Some (dup, t')" "qp_tree (qps s) t'"
    "dup = qp_map (qps s) ?r (c_string (key x))"
    "if dup = None then set_tree t' = insert p (set_tree ?r) else t' = ?r"
    using conn_order.insert_map [OF L o [unfolded qp_tree_def], of p "key x"] x
    unfolding qp_tree_def qp_map_def add_rb_data_walk [of "qps s" p x, OF x(1)]
    by (auto split: if_splits)
  show thesis
  proof (rule that [OF a(1,2,4)])
    fix z assume "dup = Some z"
    then have "find (\<lambda>z. map_option c_string (map_option key (qps s z)) = Some (c_string (key x))) (inorder ?r) = Some z"
      using a(3) by (simp add: qp_map_def rb_map_def)
    from find_SomeD [OF this] show "\<exists>y. (l, c) \<in> qp_home s z \<and> qps s z = Some y \<and> c_string (key y) = c_string (key x)"
      using li by (auto intro: qp_homeI)
  next
    show "dup = Some z" if "(l, c) \<in> qp_home s z" "qps s z = Some y" "c_string (key y) = c_string (key x)" for z y
      using that li a(3) conn_order.map_eq_Some [OF o [unfolded qp_tree_def], of "c_string (key x)" z]
      by (auto simp: qp_map_def elim!: qp_homeE)
  qed
qed

text \<open>\<open>qp_exists\<close> either links the new QP, or finds a QP with the same C string on the same core.\<close>

lemma qp_exists_cases:
  assumes L: "rbtree_lib_ok L" and t: "trees_ok s"
    and x: "qps s p = Some x" "qp_wf x" "listner x = Some l" and li: "listners s l = Some li"
    and home: "qp_home s p = {}"
  obtains (linked) s' where "qp_exists L c p d s = Some (Some p, s')" "trees_ok s'" "same_listners s s'"
      "\<exists>ls. s' = s\<lparr>listners := ls\<rparr>" "\<forall>q. qp_home s' q = (if q = p then {(l, c)} else qp_home s q)"
      "\<forall>z y. (l, c) \<in> qp_home s z \<longrightarrow> qps s z = Some y \<longrightarrow> c_string (key y) \<noteq> c_string (key x)"
  | (found) q y where "(l, c) \<in> qp_home s q" "qps s q = Some y" "q \<noteq> p"
      "c_string (key y) = c_string (key x)"
      "qp_exists L c p d s = (if qp_dir y d \<noteq> NULL then Some (None, s)
         else Some (Some q, s\<lparr>qps := (qps s)(q \<mapsto> set_qp_dir d (qp_dir x d) y, p := None)\<rparr>))"
      "\<forall>z y'. (l, c) \<in> qp_home s z \<longrightarrow> qps s z = Some y' \<longrightarrow> c_string (key y') = c_string (key x) \<longrightarrow> z = q"
proof -
  obtain dup t' where a: "add_rb_data L (qps s) (connections_root li c) p = Some (dup, t')" "qp_tree (qps s) t'"
    "if dup = None then set_tree t' = insert p (set_tree (connections_root li c)) else t' = connections_root li c"
    and dup: "\<And>z. dup = Some z \<Longrightarrow> \<exists>y. (l, c) \<in> qp_home s z \<and> qps s z = Some y \<and> c_string (key y) = c_string (key x)"
    and uniq: "\<And>z y. (l, c) \<in> qp_home s z \<Longrightarrow> qps s z = Some y \<Longrightarrow> c_string (key y) = c_string (key x) \<Longrightarrow> dup = Some z"
    using add_rb_data_home [OF L t x(1,2) li, of c thesis] by blast
  show thesis
  proof (cases dup)
    case None
    obtain s' where s': "set_qp_root l c t' s = Some s'" "trees_ok s'" "same_listners s s'"
      "\<exists>ls. s' = s\<lparr>listners := ls\<rparr>"
      "\<forall>q. qp_home s' q = (if q \<in> set_tree t' then insert (l, c) (qp_home s q) else qp_home s q - {(l, c)})"
      using set_qp_root_ok [OF t li a(2)] by blast
    have "qp_home s' q = (if q = p then {(l, c)} else qp_home s q)" for q
      using s'(5) a(3) None li home by (auto simp: qp_home_def)
    moreover have "\<forall>z y. (l, c) \<in> qp_home s z \<longrightarrow> qps s z = Some y \<longrightarrow> c_string (key y) \<noteq> c_string (key x)"
      using uniq None by auto
    moreover have "qp_exists L c p d s = Some (Some p, s')" using s'(1) a(1) x li None by (simp add: qp_exists_def)
    ultimately show thesis using linked [of s'] s'(2-4) by blast
  next
    case (Some q)
    obtain y where y: "(l, c) \<in> qp_home s q" "qps s q = Some y" "c_string (key y) = c_string (key x)" using dup [OF Some] by blast
    have "set_qp_root l c t' s = Some s"
      using li a(3) Some by (simp add: set_qp_root_def fun_upd_idem)
    then have "qp_exists L c p d s = (if qp_dir y d \<noteq> NULL then Some (None, s)
         else Some (Some q, s\<lparr>qps := (qps s)(q \<mapsto> set_qp_dir d (qp_dir x d) y, p := None)\<rparr>))"
      using y(2) a(1) x li Some by (simp add: qp_exists_def upd_qp_def)
    moreover have "q \<noteq> p" using y(1) home by auto
    moreover have "\<forall>z y'. (l, c) \<in> qp_home s z \<longrightarrow> qps s z = Some y' \<longrightarrow> c_string (key y') = c_string (key x) \<longrightarrow> z = q"
      using uniq Some by auto
    ultimately show thesis using found [of q y] y by blast
  qed
qed

section \<open>The machine\<close>

datatype thread = Tx tx_pc | Rx rx_pc

record machine =
  kst :: kstate
  thr :: "nat \<Rightarrow> thread"

text \<open>The QP a thread is working on, for either half, and the captured SYN it still needs.\<close>

fun tx_at :: "thread \<Rightarrow> addr option" where
  "tx_at (Tx (Tx_connect c a q)) = Some q"
| "tx_at (Tx (Tx_wait c q)) = Some q"
| "tx_at (Tx (Tx_relay q socks)) = Some q"
| "tx_at _ = None"

fun rx_at :: "thread \<Rightarrow> addr option" where
  "rx_at (Rx (Rx_start q)) = Some q"
| "rx_at (Rx (Rx_wait c q)) = Some q"
| "rx_at (Rx (Rx_relay q socks)) = Some q"
| "rx_at _ = None"

fun syn_at :: "thread \<Rightarrow> addr option" where
  "syn_at (Tx (Tx_start c a)) = Some a"
| "syn_at (Tx (Tx_connect c a q)) = Some a"
| "syn_at _ = None"

fun thr_done :: "thread \<Rightarrow> bool" where
  "thr_done (Tx (Tx_done rc)) = True"
| "thr_done (Rx (Rx_done rc)) = True"
| "thr_done _ = False"

definition threads_at :: "(thread \<Rightarrow> addr option) \<Rightarrow> (nat \<Rightarrow> thread) \<Rightarrow> addr \<Rightarrow> (nat \<times> thread) set" where
  "threads_at f ts q = {(i, t). ts i = t \<and> f t = Some q}"

text \<open>
  What the kernel promises: a slab object that is allocated is not in use, pages are allocated, and
  nobody stops the threads of the pool.
\<close>

definition env_ok :: "env \<Rightarrow> kstate \<Rightarrow> bool" where
  "env_ok e s \<longleftrightarrow> (\<forall>p. new_qp e = Some p \<longrightarrow> qps s p = None) \<and> qp_wf (qp_mem e) \<and>
     pages_ok (hd_env_of e) \<and> (\<forall>i \<in> set (script (hd_env_of e)). \<not> stop i)"

text \<open>
  What \<open>wait_event_interruptible_timeout\<close> promises a thread that receives no signal: it returns \<open>0\<close>
  exactly when the time is up and the condition is still false.
\<close>

definition wait_ok :: "env \<Rightarrow> u8 \<Rightarrow> addr \<Rightarrow> kstate \<Rightarrow> bool" where
  "wait_ok e dir q s \<longleftrightarrow> 0 \<le> wait_rc e \<and>
     (\<forall>x. qps s q = Some x \<longrightarrow> (wait_rc e = 0 \<longleftrightarrow> IS_ERR_OR_NULL (qp_dir x (dir XOR 1))))"

fun tx_env_ok :: "env \<Rightarrow> machine \<Rightarrow> tx_pc \<Rightarrow> bool" where
  "tx_env_ok e m (Tx_wait c q) = (env_ok e (kst m) \<and> wait_ok e TX_QP q (kst m))"
| "tx_env_ok e m pc = env_ok e (kst m)"

fun rx_env_ok :: "env \<Rightarrow> machine \<Rightarrow> rx_pc \<Rightarrow> bool" where
  "rx_env_ok e m (Rx_wait c q) = (env_ok e (kst m) \<and> wait_ok e RX_QP q (kst m))"
| "rx_env_ok e m pc = env_ok e (kst m)"

definition has_listner :: "kstate \<Rightarrow> s32 \<Rightarrow> bool" where
  "has_listner s k \<longleftrightarrow> (\<exists>l li. search_rb_listner (listners s) (listner_root s) k = Some (Some l) \<and>
     listners s l = Some li)"

definition run_thread :: "machine \<Rightarrow> nat \<Rightarrow> thread \<Rightarrow> kstate \<Rightarrow> machine" where
  "run_thread m i t s = m\<lparr>kst := s, thr := (thr m)(i := t)\<rparr>"

inductive conn_step :: "rbtree_lib \<Rightarrow> machine \<Rightarrow> machine \<Rightarrow> bool" for L where
  syn: "thr_done (thr m i) \<Longrightarrow> syns (kst m) a = None \<Longrightarrow> has_listner (kst m) (mark ad) \<Longrightarrow>
    conn_step L m (run_thread m i (Tx (Tx_start c a)) ((kst m)\<lparr>syns := (syns (kst m))(a \<mapsto> ad)\<rparr>))"
| accept: "thr_done (thr m i) \<Longrightarrow> qps (kst m) q = None \<Longrightarrow> qp_wf x \<Longrightarrow> ref_cnt x = 0 \<Longrightarrow> rx x = PTR r \<Longrightarrow>
    listner x = Some l \<Longrightarrow> listners (kst m) l = Some li \<Longrightarrow>
    conn_step L m (run_thread m i (Rx (Rx_start q)) ((kst m)\<lparr>qps := (qps (kst m))(q \<mapsto> x)\<rparr>))"
| tx: "thr m i = Tx pc \<Longrightarrow> tx_env_ok e m pc \<Longrightarrow> start_new_connection_syn L e pc (kst m) = Some (pc', s') \<Longrightarrow>
    conn_step L m (run_thread m i (Tx pc') s')"
| rx: "thr m i = Rx pc \<Longrightarrow> rx_env_ok e m pc \<Longrightarrow> start_new_connection L e pc (kst m) = Some (pc', s') \<Longrightarrow>
    conn_step L m (run_thread m i (Rx pc') s')"

text \<open>
  A step in which an accepted half times out while the half towards the server is still in
  \<open>kernel_connect\<close>. The code does nothing against it: the wait gives up after \<open>QP_TO\<close>, 90 seconds, and a
  connection attempt may take longer. The life cycle below, and what rests on it, is that of the runs
  without such a step; what happens otherwise is a theorem of its own.
\<close>

definition gives_up_early :: "machine \<Rightarrow> machine \<Rightarrow> bool" where
  "gives_up_early m m' \<longleftrightarrow> (\<exists>i c q rc j c' a. thr m i = Rx (Rx_wait c q) \<and> thr m' i = Rx (Rx_done rc) \<and>
     thr m j = Tx (Tx_connect c' a q))"

definition patient_step :: "rbtree_lib \<Rightarrow> machine \<Rightarrow> machine \<Rightarrow> bool" where
  "patient_step L m m' \<longleftrightarrow> conn_step L m m' \<and> \<not> gives_up_early m m'"

lemma not_early [simp]: "(\<forall>rc. t \<noteq> Rx (Rx_done rc)) \<Longrightarrow> \<not> gives_up_early m (run_thread m i t s)"
  by (auto simp: gives_up_early_def run_thread_def split: if_splits)

lemma reach_patient:
  "reach conn_init (patient_step L) m \<Longrightarrow> conn_step L m m' \<Longrightarrow> \<not> gives_up_early m m' \<Longrightarrow> reach conn_init (patient_step L) m'"
  by (rule reach_step) (simp_all add: patient_step_def)

section \<open>The life cycle of a QP\<close>

text \<open>The half towards the server while the QP is in the tree: not there yet, failed, connecting, waiting.
  The last argument counts the reference it holds.\<close>

inductive tx_pending :: "addr \<Rightarrow> cpu \<Rightarrow> sock kptr \<Rightarrow> (nat \<times> thread) set \<Rightarrow> s32 \<Rightarrow> bool" for q c where
  tx_none: "tx_pending q c NULL {} 0"
| tx_failed: "tx_pending q c (ERR_PTR (- EINVAL)) {} 0"
| tx_connecting: "tx_pending q c (ERR_PTR (- EINVAL)) {(i, Tx (Tx_connect c a q))} 0"
| tx_waiting: "tx_pending q c (PTR t) {(i, Tx (Tx_wait c q))} 1"

inductive rx_pending :: "addr \<Rightarrow> cpu \<Rightarrow> sock kptr \<Rightarrow> (nat \<times> thread) set \<Rightarrow> s32 \<Rightarrow> bool" for q c where
  rx_none: "rx_pending q c NULL {} 0"
| rx_waiting: "rx_pending q c (PTR r) {(i, Rx (Rx_wait c q))} 1"

text \<open>The halves once both sockets are there: finished, about to be woken, relaying.\<close>

inductive tx_paired :: "addr \<Rightarrow> sock \<Rightarrow> sock \<Rightarrow> (nat \<times> thread) set \<Rightarrow> s32 \<Rightarrow> bool" for q t r where
  tx_gone: "tx_paired q t r {} 0"
| tx_woken: "tx_paired q t r {(i, Tx (Tx_wait c q))} 1"
| tx_relaying: "tx_paired q t r {(i, Tx (Tx_relay q \<lparr>sock_rx = PTR t, sock_tx = PTR r, sock_dir = 1\<rparr>))} 1"

inductive rx_paired :: "addr \<Rightarrow> sock \<Rightarrow> sock \<Rightarrow> (nat \<times> thread) set \<Rightarrow> s32 \<Rightarrow> bool" for q t r where
  rx_gone: "rx_paired q t r {} 0"
| rx_woken: "rx_paired q t r {(i, Rx (Rx_wait c q))} 1"
| rx_relaying: "rx_paired q t r {(i, Rx (Rx_relay q \<lparr>sock_rx = PTR r, sock_tx = PTR t, sock_dir = 0\<rparr>))} 1"

inductive qp_phase :: "addr \<Rightarrow> cbn_qp option \<Rightarrow> (nat \<times> thread) set \<Rightarrow> (nat \<times> thread) set \<Rightarrow>
    (addr \<times> cpu) set \<Rightarrow> bool" for q where
  free: "qp_phase q None {} {} {}"
| leaked: "qp_wf x \<Longrightarrow> qp_phase q (Some x) {} {} {}"
| unshared: "qp_wf x \<Longrightarrow> ref_cnt x = 0 \<Longrightarrow> rx x = PTR r \<Longrightarrow> listner x = Some l \<Longrightarrow>
    qp_phase q (Some x) {} {(i, Rx (Rx_start q))} {}"
| pending: "qp_wf x \<Longrightarrow> listner x = Some l \<Longrightarrow> tx_pending q c (tx x) T n \<Longrightarrow> rx_pending q c (rx x) R k \<Longrightarrow>
    ref_cnt x = n + k \<Longrightarrow> n + k \<noteq> 2 \<Longrightarrow> qp_phase q (Some x) T R {(l, c)}"
| paired: "qp_wf x \<Longrightarrow> tx x = PTR t \<Longrightarrow> rx x = PTR r \<Longrightarrow> tx_paired q t r T n \<Longrightarrow> rx_paired q t r R k \<Longrightarrow>
    ref_cnt x = n + k \<Longrightarrow> n + k \<noteq> 0 \<Longrightarrow> qp_phase q (Some x) T R {}"

lemmas phase_cases = tx_pending.simps rx_pending.simps tx_paired.simps rx_paired.simps

inductive_simps phase_None: "qp_phase q None T R D"

definition syns_ok :: "machine \<Rightarrow> bool" where
  "syns_ok m \<longleftrightarrow> (\<forall>i a. syn_at (thr m i) = Some a \<longrightarrow>
     (\<exists>ad. syns (kst m) a = Some ad \<and> has_listner (kst m) (mark ad)) \<and>
     (\<forall>j. syn_at (thr m j) = Some a \<longrightarrow> j = i))"

definition listners_ok :: "kstate \<Rightarrow> bool" where
  "listners_ok s \<longleftrightarrow> (\<forall>q x l. qps s q = Some x \<longrightarrow> listner x = Some l \<longrightarrow> listners s l \<noteq> None)"

definition conn_inv :: "machine \<Rightarrow> bool" where
  "conn_inv m \<longleftrightarrow> trees_ok (kst m) \<and> listners_ok (kst m) \<and> syns_ok m \<and>
     (\<forall>q. qp_phase q (qps (kst m) q) (threads_at tx_at (thr m) q) (threads_at rx_at (thr m) q) (qp_home (kst m) q))"

section \<open>Frame lemmas\<close>

lemma threads_at_upd: "threads_at f (ts(i := t)) q =
    {(j, u). (j, u) \<in> threads_at f ts q \<and> j \<noteq> i} \<union> (if f t = Some q then {(i, t)} else {})"
  by (auto simp: threads_at_def)

lemma threads_at_iff: "(i, t) \<in> threads_at f ts q \<longleftrightarrow> ts i = t \<and> f t = Some q"
  by (auto simp: threads_at_def)

lemma threads_at_other: "f (ts i) \<noteq> Some q \<Longrightarrow> f t \<noteq> Some q \<Longrightarrow> threads_at f (ts(i := t)) q = threads_at f ts q"
  by (auto simp: threads_at_def)

lemma threads_at_leave: "threads_at f ts q = {(i, ts i)} \<Longrightarrow> f t \<noteq> Some q \<Longrightarrow> threads_at f (ts(i := t)) q = {}"
  by (auto simp: threads_at_upd)

lemma threads_at_enter: "threads_at f ts q = {} \<Longrightarrow> f t = Some q \<Longrightarrow> threads_at f (ts(i := t)) q = {(i, t)}"
  by (auto simp: threads_at_upd)

lemma threads_at_move: "threads_at f ts q = {(i, ts i)} \<Longrightarrow> f t = Some q \<Longrightarrow>
    threads_at f (ts(i := t)) q = {(i, t)}"
  by (auto simp: threads_at_upd)

lemmas threads_at_simps = threads_at_other threads_at_leave threads_at_enter threads_at_move

lemma same_listners_refl [simp]: "listners s' = listners s \<Longrightarrow> listner_root s' = listner_root s \<Longrightarrow> same_listners s s'"
  by (simp add: same_listners_def)

lemma same_listners_dom: "same_listners s s' \<Longrightarrow> listners s' l = None \<longleftrightarrow> listners s l = None"
  unfolding same_listners_def by (metis map_option_is_None)

lemma search_same_listners:
  assumes "same_listners s s'"
  shows "search_rb_listner (listners s') (listner_root s') k = search_rb_listner (listners s) (listner_root s) k"
proof -
  have "map_option (\<lambda>l. key_diff k (lkey l)) (listners s' x) = map_option (\<lambda>l. key_diff k (lkey l)) (listners s x)" for x
    using assms by (simp add: same_listners_def map_option_comp2 [of "key_diff k" lkey])
  then show ?thesis using assms by (simp add: search_rb_listner_def same_listners_def)
qed

lemma has_listner_same: "same_listners s s' \<Longrightarrow> has_listner s' k = has_listner s k"
  unfolding has_listner_def using search_same_listners same_listners_dom by (metis not_None_eq)

text \<open>A step of thread \<open>i\<close> keeps the invariant if it keeps it for the QPs it touches.\<close>

lemma conn_inv_run:
  assumes inv: "conn_inv m" and trees: "trees_ok s'" and same: "same_listners (kst m) s'"
    and lis: "listners_ok s'"
    and syn: "\<And>a. syn_at t = Some a \<Longrightarrow> syn_at (thr m i) = Some a \<or> (\<forall>j. syn_at (thr m j) \<noteq> Some a) \<and>
        (\<exists>ad. syns s' a = Some ad \<and> has_listner s' (mark ad))"
    and syns: "\<And>a. syn_at (thr m i) \<noteq> Some a \<or> syn_at t = Some a \<Longrightarrow> syns (kst m) a \<noteq> None \<Longrightarrow> syns s' a = syns (kst m) a"
    and other: "\<And>q. tx_at (thr m i) \<noteq> Some q \<Longrightarrow> rx_at (thr m i) \<noteq> Some q \<Longrightarrow> tx_at t \<noteq> Some q \<Longrightarrow>
        rx_at t \<noteq> Some q \<Longrightarrow> q \<noteq> p \<Longrightarrow> qps s' q = qps (kst m) q \<and> qp_home s' q = qp_home (kst m) q"
    and touched: "\<And>q. tx_at (thr m i) = Some q \<or> rx_at (thr m i) = Some q \<or> tx_at t = Some q \<or> rx_at t = Some q \<or> q = p \<Longrightarrow>
        qp_phase q (qps s' q) (threads_at tx_at ((thr m)(i := t)) q) (threads_at rx_at ((thr m)(i := t)) q) (qp_home s' q)"
  shows "conn_inv (run_thread m i t s')"
proof -
  let ?m = "run_thread m i t s'"
  have "qp_phase q (qps s' q) (threads_at tx_at ((thr m)(i := t)) q) (threads_at rx_at ((thr m)(i := t)) q) (qp_home s' q)" for q
  proof (cases "tx_at (thr m i) = Some q \<or> rx_at (thr m i) = Some q \<or> tx_at t = Some q \<or> rx_at t = Some q \<or> q = p")
    case True then show ?thesis by (rule touched)
  next
    case False
    then show ?thesis using inv other [of q] by (simp add: conn_inv_def threads_at_other)
  qed
  moreover have "syns_ok ?m"
    using inv syn syns has_listner_same [OF same]
    unfolding syns_ok_def conn_inv_def run_thread_def
    by (simp add: fun_upd_apply) (metis option.distinct(1))
  ultimately show ?thesis using trees lis by (simp add: conn_inv_def run_thread_def)
qed

section \<open>What a program counter says about its QP\<close>

lemma conn_inv_phase: "conn_inv m \<Longrightarrow>
    qp_phase q (qps (kst m) q) (threads_at tx_at (thr m) q) (threads_at rx_at (thr m) q) (qp_home (kst m) q)"
  by (simp add: conn_inv_def)

lemma phase_live: "qp_phase q (qps s q) T R D \<Longrightarrow> u \<in> T \<or> u \<in> R \<Longrightarrow> \<exists>x. qps s q = Some x \<and> qp_wf x"
  by (auto elim: qp_phase.cases)

lemma at_connect:
  assumes "conn_inv m" and t: "thr m i = Tx (Tx_connect c a q)"
  obtains x l k where "qps (kst m) q = Some x" "qp_wf x" "listner x = Some l" "tx x = ERR_PTR (- EINVAL)"
    "qp_home (kst m) q = {(l, c)}" "threads_at tx_at (thr m) q = {(i, thr m i)}"
    "rx_pending q c (rx x) (threads_at rx_at (thr m) q) k" "ref_cnt x = k"
proof -
  have "(i, thr m i) \<in> threads_at tx_at (thr m) q" using t by (simp add: threads_at_iff)
  with conn_inv_phase [OF assms(1), of q] t that show thesis
    by cases (auto simp: tx_pending.simps tx_paired.simps)
qed

lemma at_tx_wait:
  assumes "conn_inv m" and t: "thr m i = Tx (Tx_wait c q)"
  obtains (pending) x l t where "qps (kst m) q = Some x" "qp_wf x" "listner x = Some l" "tx x = PTR t" "rx x = NULL"
      "qp_home (kst m) q = {(l, c)}" "threads_at tx_at (thr m) q = {(i, thr m i)}"
      "threads_at rx_at (thr m) q = {}" "ref_cnt x = 1"
  | (paired) x t r k where "qps (kst m) q = Some x" "qp_wf x" "tx x = PTR t" "rx x = PTR r"
      "qp_home (kst m) q = {}" "threads_at tx_at (thr m) q = {(i, thr m i)}"
      "rx_paired q t r (threads_at rx_at (thr m) q) k" "ref_cnt x = 1 + k"
proof -
  have "(i, thr m i) \<in> threads_at tx_at (thr m) q" using t by (simp add: threads_at_iff)
  with conn_inv_phase [OF assms(1), of q] t pending paired show thesis
    by cases (auto simp: tx_pending.simps tx_paired.simps rx_pending.simps)
qed

lemma at_rx_wait:
  assumes "conn_inv m" and t: "thr m i = Rx (Rx_wait c q)"
  obtains (pending) x l r where "qps (kst m) q = Some x" "qp_wf x" "listner x = Some l" "rx x = PTR r"
      "IS_ERR_OR_NULL (tx x)" "qp_home (kst m) q = {(l, c)}" "threads_at rx_at (thr m) q = {(i, thr m i)}"
      "tx_pending q c (tx x) (threads_at tx_at (thr m) q) 0" "ref_cnt x = 1"
  | (paired) x t r n where "qps (kst m) q = Some x" "qp_wf x" "tx x = PTR t" "rx x = PTR r"
      "qp_home (kst m) q = {}" "threads_at rx_at (thr m) q = {(i, thr m i)}"
      "tx_paired q t r (threads_at tx_at (thr m) q) n" "ref_cnt x = n + 1"
proof -
  have "(i, thr m i) \<in> threads_at rx_at (thr m) q" using t by (simp add: threads_at_iff)
  with conn_inv_phase [OF assms(1), of q] t pending paired show thesis
    by cases (auto simp: rx_pending.simps rx_paired.simps tx_pending.simps)
qed

lemma at_tx_relay:
  assumes "conn_inv m" and t: "thr m i = Tx (Tx_relay q socks)"
  obtains x t r k where "qps (kst m) q = Some x" "qp_wf x" "tx x = PTR t" "rx x = PTR r"
      "qp_home (kst m) q = {}" "threads_at tx_at (thr m) q = {(i, thr m i)}"
      "rx_paired q t r (threads_at rx_at (thr m) q) k" "ref_cnt x = 1 + k"
      "socks = \<lparr>sock_rx = PTR t, sock_tx = PTR r, sock_dir = 1\<rparr>"
proof -
  have "(i, thr m i) \<in> threads_at tx_at (thr m) q" using t by (simp add: threads_at_iff)
  with conn_inv_phase [OF assms(1), of q] t that show thesis
    by cases (auto simp: tx_pending.simps tx_paired.simps)
qed

lemma at_rx_relay:
  assumes "conn_inv m" and t: "thr m i = Rx (Rx_relay q socks)"
  obtains x t r n where "qps (kst m) q = Some x" "qp_wf x" "tx x = PTR t" "rx x = PTR r"
      "qp_home (kst m) q = {}" "threads_at rx_at (thr m) q = {(i, thr m i)}"
      "tx_paired q t r (threads_at tx_at (thr m) q) n" "ref_cnt x = n + 1"
      "socks = \<lparr>sock_rx = PTR r, sock_tx = PTR t, sock_dir = 0\<rparr>"
proof -
  have "(i, thr m i) \<in> threads_at rx_at (thr m) q" using t by (simp add: threads_at_iff)
  with conn_inv_phase [OF assms(1), of q] t that show thesis
    by cases (auto simp: rx_pending.simps rx_paired.simps)
qed

lemma at_rx_start:
  assumes "conn_inv m" and t: "thr m i = Rx (Rx_start q)"
  obtains x l li r where "qps (kst m) q = Some x" "qp_wf x" "ref_cnt x = 0" "rx x = PTR r" "listner x = Some l"
      "listners (kst m) l = Some li" "qp_home (kst m) q = {}"
      "threads_at rx_at (thr m) q = {(i, thr m i)}" "threads_at tx_at (thr m) q = {}"
proof -
  have "(i, thr m i) \<in> threads_at rx_at (thr m) q" using t by (simp add: threads_at_iff)
  with conn_inv_phase [OF assms(1), of q] t obtain x l r where x: "qps (kst m) q = Some x" "qp_wf x"
    "ref_cnt x = 0" "rx x = PTR r" "listner x = Some l" "qp_home (kst m) q = {}"
    "threads_at rx_at (thr m) q = {(i, thr m i)}" "threads_at tx_at (thr m) q = {}"
    by cases (auto simp: rx_pending.simps rx_paired.simps)
  moreover obtain li where "listners (kst m) l = Some li"
    using assms(1) x(1,5) unfolding conn_inv_def listners_ok_def by (metis not_None_eq)
  ultimately show thesis using that by blast
qed

text \<open>A QP that is linked on core \<open>c\<close>.\<close>

lemma at_home:
  assumes "conn_inv m" and "(l, c) \<in> qp_home (kst m) q"
  obtains x n k where "qps (kst m) q = Some x" "qp_wf x" "listner x = Some l" "qp_home (kst m) q = {(l, c)}"
    "tx_pending q c (tx x) (threads_at tx_at (thr m) q) n" "rx_pending q c (rx x) (threads_at rx_at (thr m) q) k"
    "ref_cnt x = n + k" "n + k \<noteq> 2"
  using conn_inv_phase [OF assms(1), of q] assms(2) that by cases auto

lemma at_free: "conn_inv m \<Longrightarrow> qps (kst m) q = None \<Longrightarrow>
    threads_at tx_at (thr m) q = {} \<and> threads_at rx_at (thr m) q = {} \<and> qp_home (kst m) q = {}"
  using conn_inv_phase [of m q] by (simp add: phase_None)

section \<open>Reference counting\<close>

lemma sock_call_eq: "\<exists>cs. sock_call k p s = s\<lparr>calls := cs\<rparr>"
  by (cases p; cases s) (auto simp: sock_call_def log_call_def)

lemma sock_call2_eq: "\<exists>cs. sock_call k p (sock_call k r s) = s\<lparr>calls := cs\<rparr>"
proof -
  obtain cs where "sock_call k r s = s\<lparr>calls := cs\<rparr>" using sock_call_eq by blast
  moreover obtain ds where "sock_call k p (s\<lparr>calls := cs\<rparr>) = s\<lparr>calls := cs\<rparr>\<lparr>calls := ds\<rparr>" using sock_call_eq by blast
  ultimately show ?thesis by auto
qed

lemma put_qp_Some:
  assumes "qps s q = Some x"
  shows "\<exists>cs. put_qp q s = Some (ref_cnt x - 1, s\<lparr>calls := cs,
    qps := (qps s)(q := if ref_cnt x = 1 then None else Some (x\<lparr>ref_cnt := ref_cnt x - 1\<rparr>))\<rparr>)"
proof -
  let ?s = "s\<lparr>qps := (qps s)(q \<mapsto> x\<lparr>ref_cnt := ref_cnt x - 1\<rparr>)\<rparr>"
  obtain cs where cs: "sock_call sock_release (rx x) (sock_call sock_release (tx x) ?s) = ?s\<lparr>calls := cs\<rparr>"
    using sock_call2_eq by blast
  obtain ds where ds: "sock_call kernel_sock_shutdown (rx x) (sock_call kernel_sock_shutdown (tx x) ?s) = ?s\<lparr>calls := ds\<rparr>"
    using sock_call2_eq by blast
  have "put_qp q s = Some (ref_cnt x - 1, if ref_cnt x = 1 then ?s\<lparr>calls := cs @ [unlock_freed q], qps := (qps s)(q := None)\<rparr> else ?s\<lparr>calls := ds\<rparr>)"
    using assms cs ds by (cases "ref_cnt x = 1") (simp_all add: put_qp_def upd_qp_def log_call_def Let_def)
  then show ?thesis by (cases s) auto
qed

lemma get_qp_first:
  "qps s q = Some x \<Longrightarrow> ref_cnt x = 0 \<Longrightarrow> get_qp L c q s = Some (s\<lparr>qps := (qps s)(q \<mapsto> x\<lparr>ref_cnt := 1\<rparr>)\<rparr>)"
  by (simp add: get_qp_def upd_qp_def)

lemma get_qp_second:
  "qps s q = Some x \<Longrightarrow> ref_cnt x = 1 \<Longrightarrow>
    get_qp L c q s = fin_connected_qp L c q (s\<lparr>qps := (qps s)(q \<mapsto> x\<lparr>ref_cnt := 2\<rparr>)\<rparr>)"
  by (simp add: get_qp_def upd_qp_def)

section \<open>Every step keeps the invariant\<close>

lemma listners_ok_upd: "listners_ok s \<Longrightarrow> same_listners s s' \<Longrightarrow>
    (\<And>q x. qps s' q = Some x \<Longrightarrow> (\<exists>y. qps s q = Some y \<and> listner x = listner y) \<or>
       (\<exists>l li. listner x = Some l \<and> listners s l = Some li)) \<Longrightarrow> listners_ok s'"
  unfolding listners_ok_def by (metis option.distinct(1) option.inject same_listners_dom)

lemma step_syn:
  assumes inv: "conn_inv m" and "thr_done (thr m i)" and "syns (kst m) a = None" and l: "has_listner (kst m) (mark ad)"
  shows "conn_inv (run_thread m i (Tx (Tx_start c a)) ((kst m)\<lparr>syns := (syns (kst m))(a \<mapsto> ad)\<rparr>))"
proof (rule conn_inv_run [OF inv, where p = undefined])
  let ?s = "(kst m)\<lparr>syns := (syns (kst m))(a \<mapsto> ad)\<rparr>"
  have none: "\<forall>j. syn_at (thr m j) \<noteq> Some a"
    using inv assms(3) unfolding conn_inv_def syns_ok_def by (metis option.distinct(1))
  have t: "tx_at (thr m i) = None" "rx_at (thr m i) = None" "syn_at (thr m i) = None"
    using assms(2) by (cases "thr m i" rule: thr_done.cases; simp)+
  show "trees_ok ?s" using inv by (simp add: conn_inv_def)
  show "same_listners (kst m) ?s" by simp
  show "listners_ok ?s" using inv by (auto simp: conn_inv_def listners_ok_def)
  show "syn_at (thr m i) = Some b \<or> (\<forall>j. syn_at (thr m j) \<noteq> Some b) \<and>
      (\<exists>ad. syns ?s b = Some ad \<and> has_listner ?s (mark ad))" if "syn_at (Tx (Tx_start c a)) = Some b" for b
    using that none l has_listner_same [of "kst m" ?s] by simp
  show "qp_phase q (qps ?s q) (threads_at tx_at ((thr m)(i := Tx (Tx_start c a))) q)
      (threads_at rx_at ((thr m)(i := Tx (Tx_start c a))) q) (qp_home ?s q)" for q
    using conn_inv_phase [OF inv, of q] t by (simp add: threads_at_other)
  show "syns ?s b = syns (kst m) b" if "syns (kst m) b \<noteq> None" for b
    using assms(3) that by auto
qed simp

lemma step_accept:
  assumes inv: "conn_inv m" and "thr_done (thr m i)" and free: "qps (kst m) q = None"
    and x: "qp_wf x" "ref_cnt x = 0" "rx x = PTR r" "listner x = Some l" "listners (kst m) l = Some li"
  shows "conn_inv (run_thread m i (Rx (Rx_start q)) ((kst m)\<lparr>qps := (qps (kst m))(q \<mapsto> x)\<rparr>))"
proof (rule conn_inv_run [OF inv, where p = q])
  let ?s = "(kst m)\<lparr>qps := (qps (kst m))(q \<mapsto> x)\<rparr>"
  have t: "tx_at (thr m i) = None" "rx_at (thr m i) = None" "syn_at (thr m i) = None"
    using assms(2) by (cases "thr m i" rule: thr_done.cases; simp)+
  note f = at_free [OF inv free]
  show "trees_ok ?s"
    by (rule trees_ok_cong [of "kst m"]) (use inv f in \<open>auto simp: conn_inv_def\<close>)
  show "listners_ok ?s"
    by (rule listners_ok_upd [of "kst m"]) (use inv x in \<open>auto simp: conn_inv_def split: if_splits\<close>)
  show "qp_phase p (qps ?s p) (threads_at tx_at ((thr m)(i := Rx (Rx_start q))) p)
      (threads_at rx_at ((thr m)(i := Rx (Rx_start q))) p) (qp_home ?s p)"
    if "tx_at (thr m i) = Some p \<or> rx_at (thr m i) = Some p \<or> tx_at (Rx (Rx_start q)) = Some p \<or>
      rx_at (Rx (Rx_start q)) = Some p \<or> p = q" for p
    using that t f x by (auto simp: threads_at_simps intro!: qp_phase.unshared)
qed (auto split: if_splits)

text \<open>The three outcomes of \<open>qp_exists\<close> for a thread that starts from a SYN: its QP \<open>x\<close>, at \<open>p\<close>, is linked; it
  takes over the QP of the accepted half; or it finds another SYN's half and gives up.\<close>

lemma step_tx_linked:
  assumes inv: "conn_inv m" and t: "thr m i = Tx (Tx_start c a)" and p: "qps (kst m) p = None"
    and x: "qp_wf x" "ref_cnt x = 0" "rx x = NULL" "tx x = ERR_PTR (- EINVAL)" "listner x = Some l"
    and s1: "s1 = (kst m)\<lparr>qps := (qps (kst m))(p \<mapsto> x)\<rparr>" "listners_ok s1"
    and s': "trees_ok s'" "same_listners s1 s'" "\<exists>ls. s' = s1\<lparr>listners := ls\<rparr>" "\<forall>q. qp_home s' q = (if q = p then {(l, c)} else qp_home s1 q)"
  shows "conn_inv (run_thread m i (Tx (Tx_connect c a p)) s')"
proof (rule conn_inv_run [OF inv, where p = p])
  obtain ls where ls: "s' = s1\<lparr>listners := ls\<rparr>" using s'(3) by blast
  note f = at_free [OF inv p]
  show "same_listners (kst m) s'" using s'(2) s1(1) by (simp add: same_listners_def)
  show "listners_ok s'" by (rule listners_ok_upd [OF s1(2) s'(2)]) (simp add: ls)
  show "qp_phase q (qps s' q) (threads_at tx_at ((thr m)(i := Tx (Tx_connect c a p))) q)
      (threads_at rx_at ((thr m)(i := Tx (Tx_connect c a p))) q) (qp_home s' q)"
    if "tx_at (thr m i) = Some q \<or> rx_at (thr m i) = Some q \<or> tx_at (Tx (Tx_connect c a p)) = Some q \<or>
      rx_at (Tx (Tx_connect c a p)) = Some q \<or> q = p" for q
    using that t f x s'(4)
    by (auto simp: threads_at_simps ls s1(1) phase_cases intro!: qp_phase.pending [where n = 0 and k = 0])
qed (use s' s1 t in \<open>auto split: if_splits\<close>)

lemma step_tx_taken:
  assumes inv: "conn_inv m" and t: "thr m i = Tx (Tx_start c a)" and p: "qps (kst m) p = None" and x: "qp_wf x"
    and s1: "s1 = (kst m)\<lparr>qps := (qps (kst m))(p \<mapsto> x)\<rparr>" "trees_ok s1" "listners_ok s1"
  shows "conn_inv (run_thread m i (Tx (Tx_done 0)) (s1\<lparr>syns := (syns (kst m))(a := None)\<rparr>))" (is "conn_inv (run_thread m i _ ?s')")
proof (rule conn_inv_run [OF inv, where p = p])
  show "listners_ok ?s'" using s1(3) by (simp add: listners_ok_def)
  show "qp_phase z (qps ?s' z) (threads_at tx_at ((thr m)(i := Tx (Tx_done 0))) z)
      (threads_at rx_at ((thr m)(i := Tx (Tx_done 0))) z) (qp_home ?s' z)"
    if "tx_at (thr m i) = Some z \<or> rx_at (thr m i) = Some z \<or> tx_at (Tx (Tx_done 0)) = Some z \<or>
      rx_at (Tx (Tx_done 0)) = Some z \<or> z = p" for z
    using that t at_free [OF inv p] x by (auto simp: threads_at_simps s1(1) intro: qp_phase.leaked)
qed (use s1 t in \<open>auto simp: same_listners_def\<close>)

lemma step_tx_found:
  assumes inv: "conn_inv m" and t: "thr m i = Tx (Tx_start c a)" and p: "qps (kst m) p = None"
    and q: "qps (kst m) q = Some y" "(l, c) \<in> qp_home (kst m) q" "q \<noteq> p" "tx y = NULL"
  shows "conn_inv (run_thread m i (Tx (Tx_connect c a q))
    ((kst m)\<lparr>qps := (qps (kst m))(q \<mapsto> y\<lparr>tx := ERR_PTR (- EINVAL)\<rparr>, p := None)\<rparr>))" (is "conn_inv (run_thread m i _ ?s')")
proof -
  let ?s = "kst m"
  note f = at_free [OF inv p]
  obtain n k where y: "qp_wf y" "listner y = Some l" "qp_home ?s q = {(l, c)}"
    "tx_pending q c (tx y) (threads_at tx_at (thr m) q) n" "rx_pending q c (rx y) (threads_at rx_at (thr m) q) k"
    "ref_cnt y = n + k" "n + k \<noteq> 2"
    using at_home [OF inv q(2)] q(1) by (metis option.inject)
  have T: "threads_at tx_at (thr m) q = {}" "n = 0" using y(4) q(4) by (auto simp: tx_pending.simps)
  show ?thesis
  proof (rule conn_inv_run [OF inv, where p = p])
    show "trees_ok ?s'" by (rule trees_ok_cong [of ?s]) (use inv f q in \<open>auto simp: conn_inv_def\<close>)
    show "listners_ok ?s'" by (rule listners_ok_upd [of ?s]) (use inv q in \<open>auto simp: conn_inv_def split: if_splits\<close>)
    show "qp_phase z (qps ?s' z) (threads_at tx_at ((thr m)(i := Tx (Tx_connect c a q))) z)
        (threads_at rx_at ((thr m)(i := Tx (Tx_connect c a q))) z) (qp_home ?s' z)"
      if "tx_at (thr m i) = Some z \<or> rx_at (thr m i) = Some z \<or> tx_at (Tx (Tx_connect c a q)) = Some z \<or>
        rx_at (Tx (Tx_connect c a q)) = Some z \<or> z = p" for z
      using that t f T y q(3)
      by (auto simp: threads_at_simps phase_None tx_pending.simps intro!: qp_phase.pending [where n = 0 and k = k])
  qed (use t in \<open>auto simp: same_listners_def\<close>)
qed

lemma step_tx_start:
  assumes L: "rbtree_lib_ok L" and inv: "conn_inv m" and t: "thr m i = Tx (Tx_start c a)"
    and e: "env_ok e (kst m)" "new_qp e = Some p"
  shows "\<exists>pc s'. start_new_connection_syn L e (Tx_start c a) (kst m) = Some (pc, s') \<and>
    conn_inv (run_thread m i (Tx pc) s')"
proof -
  let ?s = "kst m"
  have free: "qps ?s p = None" "qp_wf (qp_mem e)" using e by (auto simp: env_ok_def)
  note f = at_free [OF inv free(1)]
  have "syn_at (thr m i) = Some a" using t by simp
  then obtain ad l li where ad: "syns ?s a = Some ad" and
    l: "search_rb_listner (listners ?s) (listner_root ?s) (mark ad) = Some (Some l)" "listners ?s l = Some li"
    using inv unfolding conn_inv_def syns_ok_def has_listner_def by blast
  define x where "x = (set_conn (sin_addr (dest ad)) (sin_port (src ad)) (sin_port (dest ad)) (sin_addr (src ad))
      (qp_mem e))\<lparr>ref_cnt := 0, rx := NULL, tx := ERR_PTR (- EINVAL), listner := Some l\<rparr>"
  have x: "qp_wf x" "ref_cnt x = 0" "rx x = NULL" "tx x = ERR_PTR (- EINVAL)" "listner x = Some l"
    using free(2) by (auto simp: x_def)
  define s1 where "s1 = ?s\<lparr>qps := (qps ?s)(p \<mapsto> x)\<rparr>"
  have t1: "trees_ok s1" by (rule trees_ok_cong [of ?s]) (use inv f in \<open>auto simp: conn_inv_def s1_def\<close>)
  have l1: "listners_ok s1" by (rule listners_ok_upd [of ?s]) (use inv x l in \<open>auto simp: conn_inv_def s1_def split: if_splits\<close>)
  have step: "start_new_connection_syn L e (Tx_start c a) ?s = do {
     (qp, s) \<leftarrow> qp_exists L c p TX_QP s1;
     (case qp of None \<Rightarrow> Some (Tx_done 0, s\<lparr>syns := (syns s)(a := None)\<rparr>) | Some q \<Rightarrow> Some (Tx_connect c a q, s)) }"
    using ad l(1) e(2) by (simp add: x_def s1_def Let_def)
  have home: "qp_home s1 p = {}" and p1: "qps s1 p = Some x" and li1: "listners s1 l = Some li"
    using f l by (simp_all add: s1_def)
  show ?thesis
  proof (cases rule: qp_exists_cases [OF L t1 p1 x(1) x(5) li1 home, where c = c and d = TX_QP, case_names linked found])
    case (linked s')
    then show ?thesis using step step_tx_linked [OF inv t free(1) x s1_def l1 linked(2-5)] by simp
  next
    case (found q y)
    have q: "qps ?s q = Some y" "(l, c) \<in> qp_home ?s q" using found(1-3) by (simp_all add: s1_def)
    have "?s\<lparr>qps := (qps ?s)(q \<mapsto> y\<lparr>tx := ERR_PTR (- EINVAL)\<rparr>, p := None)\<rparr> =
        s1\<lparr>qps := (qps s1)(q \<mapsto> set_qp_dir TX_QP (qp_dir x TX_QP) y, p := None)\<rparr>"
      using x(4) found(3) by (simp add: s1_def set_qp_dir_def qp_dir_def fun_upd_twist)
    then show ?thesis
      using step found(5) step_tx_taken [OF inv t free(1) x(1) s1_def t1 l1] step_tx_found [OF inv t free(1) q found(3)]
      by (cases "tx y = NULL") (auto simp: qp_dir_def s1_def)
  qed
qed

lemma syn_socket_calls:
  obtains r p a' cs where "syn_socket e a s = (r, p, a', s\<lparr>calls := cs\<rparr>)" "r = Inr () \<Longrightarrow> p = PTR (new_sock e)"
proof -
  have "\<exists>r p a' cs. syn_socket e a s = (r, p, a', s\<lparr>calls := cs\<rparr>) \<and> (r = Inr () \<longrightarrow> p = PTR (new_sock e))"
    by (cases s) (auto simp: syn_socket_def do_call_def log_call_def Let_def)
  then show thesis using that by blast
qed

text \<open>Entering the wait: the first half to come sleeps, the second one unlinks the QP.\<close>

lemma wait_qp_enter_first:
  assumes "qps s q = Some x" and "ref_cnt x = 0" and "IS_ERR_OR_NULL (qp_dir x (d XOR 1))"
  shows "wait_qp_enter L c q d s = Some (True, s\<lparr>qps := (qps s)(q \<mapsto> x\<lparr>ref_cnt := 1\<rparr>)\<rparr>)"
  using assms by (simp add: wait_qp_enter_def get_qp_first)

lemma wait_qp_enter_meets:
  assumes L: "rbtree_lib_ok L" and t: "trees_ok s" and h: "qp_home s q = {(l, c)}"
    and x: "qps s q = Some x" "listner x = Some l" "ref_cnt x = 1" "\<not> IS_ERR_OR_NULL (qp_dir x (d XOR 1))"
  shows "\<exists>s' ls. wait_qp_enter L c q d s = Some (False, s') \<and> trees_ok s' \<and> same_listners s s' \<and>
    s' = s\<lparr>listners := ls, calls := calls s @ [wake_up q], qps := (qps s)(q \<mapsto> x\<lparr>ref_cnt := 2\<rparr>)\<rparr> \<and>
    (\<forall>q'. qp_home s' q' = (if q' = q then {} else qp_home s q'))"
proof -
  let ?s1 = "s\<lparr>qps := (qps s)(q \<mapsto> x\<lparr>ref_cnt := 2\<rparr>)\<rparr>"
  have "trees_ok ?s1" by (rule trees_ok_cong [OF t]) (use x in auto)
  then obtain s1 where s1: "fin_connected_qp L c q ?s1 = Some s1" "trees_ok s1" "same_listners ?s1 s1"
    "\<exists>ls. s1 = ?s1\<lparr>listners := ls\<rparr>"
    "\<forall>q'. qp_home s1 q' = (if q' = q then qp_home ?s1 q' - {(l, c)} else qp_home ?s1 q')"
    using fin_connected_ok [OF L, of ?s1 l c q "x\<lparr>ref_cnt := 2\<rparr>"] h x by auto
  then obtain ls where ls: "s1 = ?s1\<lparr>listners := ls\<rparr>" by blast
  have "wait_qp_enter L c q d s = Some (False, log_call (wake_up q) s1)"
    using x s1(1) by (simp add: wait_qp_enter_def get_qp_second)
  moreover have "log_call (wake_up q) s1 = s\<lparr>listners := ls, calls := calls s @ [wake_up q],
      qps := (qps s)(q \<mapsto> x\<lparr>ref_cnt := 2\<rparr>)\<rparr>"
    by (cases s) (simp add: log_call_def ls)
  moreover have "same_listners s (log_call (wake_up q) s1)" "trees_ok (log_call (wake_up q) s1)"
    "\<forall>q'. qp_home (log_call (wake_up q) s1) q' = (if q' = q then {} else qp_home s q')"
    using s1 h by (simp_all add: log_call_def same_listners_def)
  ultimately show ?thesis by metis
qed

lemma wait_qp_enter_second:
  assumes "rbtree_lib_ok L" and "trees_ok s" and "qp_home s q = {(l, c)}"
    and "qps s q = Some x" "listner x = Some l" "ref_cnt x = 1" "\<not> IS_ERR_OR_NULL (qp_dir x (d XOR 1))"
  shows "\<exists>s' ls cs. wait_qp_enter L c q d s = Some (False, s') \<and> trees_ok s' \<and> same_listners s s' \<and>
    s' = s\<lparr>listners := ls, calls := cs, qps := (qps s)(q \<mapsto> x\<lparr>ref_cnt := 2\<rparr>)\<rparr> \<and>
    (\<forall>q'. qp_home s' q' = (if q' = q then {} else qp_home s q'))"
  using wait_qp_enter_meets [OF assms] by blast

lemma step_tx_connect_fail:
  assumes inv: "conn_inv m" and t: "thr m i = Tx (Tx_connect c a q)"
  shows "conn_inv (run_thread m i (Tx (Tx_done rc)) ((kst m)\<lparr>calls := cs, syns := (syns (kst m))(a \<mapsto> ad)\<rparr>))"
proof -
  obtain x l k where x: "qps (kst m) q = Some x" "qp_wf x" "listner x = Some l" "tx x = ERR_PTR (- EINVAL)"
    "qp_home (kst m) q = {(l, c)}" "threads_at tx_at (thr m) q = {(i, thr m i)}"
    "rx_pending q c (rx x) (threads_at rx_at (thr m) q) k" "ref_cnt x = k"
    using at_connect [OF inv t] by blast
  let ?s' = "(kst m)\<lparr>calls := cs, syns := (syns (kst m))(a \<mapsto> ad)\<rparr>"
  show ?thesis
  proof (rule conn_inv_run [OF inv, where p = q])
    show "listners_ok ?s'" using inv by (simp add: conn_inv_def listners_ok_def)
    show "qp_phase z (qps ?s' z) (threads_at tx_at ((thr m)(i := Tx (Tx_done rc))) z)
        (threads_at rx_at ((thr m)(i := Tx (Tx_done rc))) z) (qp_home ?s' z)"
      if "tx_at (thr m i) = Some z \<or> rx_at (thr m i) = Some z \<or> tx_at (Tx (Tx_done rc)) = Some z \<or>
        rx_at (Tx (Tx_done rc)) = Some z \<or> z = q" for z
      using that t x
      by (auto simp: threads_at_simps tx_pending.simps rx_pending.simps intro!: qp_phase.pending [where n = 0 and k = k])
  qed (use inv t in \<open>auto simp: conn_inv_def\<close>)
qed

text \<open>The connected half comes first and sleeps, or second and relays.\<close>

lemma step_tx_connect_first:
  assumes inv: "conn_inv m" and t: "thr m i = Tx (Tx_connect c a q)" and x: "qps (kst m) q = Some x" "ref_cnt x = 0"
    "threads_at rx_at (thr m) q = {}" "rx x = NULL"
    and s_def: "s = (kst m)\<lparr>calls := cs, qps := (qps (kst m))(q \<mapsto> x\<lparr>tx := PTR p, ref_cnt := 1\<rparr>), syns := (syns (kst m))(a := None)\<rparr>"
  shows "conn_inv (run_thread m i (Tx (Tx_wait c q)) s)"
proof (rule conn_inv_run [OF inv, where p = q])
  obtain l where x': "qp_wf x" "listner x = Some l" "qp_home (kst m) q = {(l, c)}" "threads_at tx_at (thr m) q = {(i, thr m i)}"
    using at_connect [OF inv t] x(1) by (metis option.inject)
  show "trees_ok s" by (rule trees_ok_cong [of "kst m"]) (use inv x in \<open>auto simp: conn_inv_def s_def\<close>)
  show "listners_ok s" by (rule listners_ok_upd [of "kst m"]) (use inv x in \<open>auto simp: s_def conn_inv_def split: if_splits\<close>)
  show "qp_phase z (qps s z) (threads_at tx_at ((thr m)(i := Tx (Tx_wait c q))) z)
      (threads_at rx_at ((thr m)(i := Tx (Tx_wait c q))) z) (qp_home s z)"
    if "tx_at (thr m i) = Some z \<or> rx_at (thr m i) = Some z \<or> tx_at (Tx (Tx_wait c q)) = Some z \<or>
      rx_at (Tx (Tx_wait c q)) = Some z \<or> z = q" for z
    using that t x x' by (auto simp: s_def threads_at_simps phase_cases intro!: qp_phase.pending [where n = 1 and k = 0])
qed (use t in \<open>auto simp: s_def\<close>)

lemma step_tx_connect_second:
  assumes inv: "conn_inv m" and t: "thr m i = Tx (Tx_connect c a q)" and x: "qps (kst m) q = Some x" "ref_cnt x = 1"
    "threads_at rx_at (thr m) q = {(j, Rx (Rx_wait c q))}" "rx x = PTR r"
    and s': "trees_ok s'" "same_listners (kst m) s'" "\<forall>q'. qp_home s' q' = (if q' = q then {} else qp_home (kst m) q')"
    and s_def: "s' = (kst m)\<lparr>listners := ls, calls := cs, qps := (qps (kst m))(q \<mapsto> x\<lparr>tx := PTR p, ref_cnt := 2\<rparr>),
      syns := (syns (kst m))(a := None)\<rparr>"
  shows "conn_inv (run_thread m i (Tx (Tx_relay q \<lparr>sock_rx = PTR p, sock_tx = PTR r, sock_dir = 1\<rparr>)) s')"
    (is "conn_inv (run_thread m i ?t s')")
proof (rule conn_inv_run [OF inv s'(1,2), where p = q])
  obtain l where x': "qp_wf x" "listner x = Some l" "threads_at tx_at (thr m) q = {(i, thr m i)}"
    using at_connect [OF inv t] x(1) by (metis option.inject)
  show "listners_ok s'"
    by (rule listners_ok_upd [of "kst m"]) (use inv x s'(2) in \<open>auto simp: s_def conn_inv_def split: if_splits\<close>)
  show "qp_phase z (qps s' z) (threads_at tx_at ((thr m)(i := ?t)) z) (threads_at rx_at ((thr m)(i := ?t)) z) (qp_home s' z)"
    if "tx_at (thr m i) = Some z \<or> rx_at (thr m i) = Some z \<or> tx_at ?t = Some z \<or> rx_at ?t = Some z \<or> z = q" for z
    using that t x x' s'(3) by (auto simp: s_def threads_at_simps phase_cases intro!: qp_phase.paired [where n = 1 and k = 1])
qed (use t s'(3) in \<open>auto simp: s_def\<close>)

lemma step_tx_connect_ok:
  assumes L: "rbtree_lib_ok L" and inv: "conn_inv m" and t: "thr m i = Tx (Tx_connect c a q)"
    and x: "qps (kst m) q = Some x"
    and s_def: "s = (kst m)\<lparr>calls := cs, qps := (qps (kst m))(q \<mapsto> x\<lparr>tx := PTR p\<rparr>), syns := (syns (kst m))(a := None)\<rparr>"
  shows "\<exists>pc s'. (do { (asleep, s) \<leftarrow> wait_qp_enter L c q TX_QP s;
      if asleep then Some (Tx_wait c q, s) else syn_ready q s }) = Some (pc, s') \<and>
    conn_inv (run_thread m i (Tx pc) s')"
proof -
  obtain l k where x': "qp_wf x" "listner x = Some l" "qp_home (kst m) q = {(l, c)}"
    "rx_pending q c (rx x) (threads_at rx_at (thr m) q) k" "ref_cnt x = k"
    using at_connect [OF inv t] x by (metis option.inject)
  let ?x = "x\<lparr>tx := PTR p\<rparr>"
  have sq: "qps s q = Some ?x" "listner ?x = Some l" "qp_home s = qp_home (kst m)" by (simp_all add: s_def x')
  have ts: "trees_ok s"
    by (rule trees_ok_cong [of "kst m"]) (use inv x in \<open>auto simp: conn_inv_def s_def\<close>)
  from x'(4) show ?thesis
  proof cases
    case rx_none
    have "conn_inv (run_thread m i (Tx (Tx_wait c q)) (s\<lparr>qps := (qps s)(q \<mapsto> ?x\<lparr>ref_cnt := 1\<rparr>)\<rparr>))"
      by (rule step_tx_connect_first [OF inv t x, where cs = cs and p = p])
        (use rx_none x'(5) in \<open>simp_all add: kstate.equality s_def\<close>)
    then show ?thesis
      using wait_qp_enter_first [OF sq(1), of TX_QP L c] rx_none x'(5) by (simp add: qp_dir_def)
  next
    case (rx_waiting r j)
    obtain s' ls ds where s': "wait_qp_enter L c q TX_QP s = Some (False, s')" "trees_ok s'" "same_listners s s'"
      "s' = s\<lparr>listners := ls, calls := ds, qps := (qps s)(q \<mapsto> ?x\<lparr>ref_cnt := 2\<rparr>)\<rparr>"
      "\<forall>q'. qp_home s' q' = (if q' = q then {} else qp_home s q')"
      using wait_qp_enter_second [OF L ts _ sq(1,2), of c TX_QP] sq(3) x' rx_waiting
      by (auto simp: qp_dir_def)
    have "conn_inv (run_thread m i (Tx (Tx_relay q \<lparr>sock_rx = PTR p, sock_tx = PTR r, sock_dir = 1\<rparr>)) s')"
      by (rule step_tx_connect_second [OF inv t x, where ls = ls and cs = ds and p = p])
        (use rx_waiting x'(5) s'(2,3,5) sq(3) in \<open>simp_all add: s'(4) s_def same_listners_def kstate.equality\<close>)
    moreover have "syn_ready q s' = Some (Tx_relay q \<lparr>sock_rx = PTR p, sock_tx = PTR r, sock_dir = 1\<rparr>, s')"
      using rx_waiting by (simp add: syn_ready_def s'(4))
    ultimately show ?thesis using s'(1) by simp
  qed
qed

lemma step_tx_connect:
  assumes L: "rbtree_lib_ok L" and inv: "conn_inv m" and t: "thr m i = Tx (Tx_connect c a q)"
  shows "\<exists>pc s'. start_new_connection_syn L e (Tx_connect c a q) (kst m) = Some (pc, s') \<and>
    conn_inv (run_thread m i (Tx pc) s')"
proof -
  obtain x where x: "qps (kst m) q = Some x" using at_connect [OF inv t] by blast
  have "syn_at (thr m i) = Some a" using t by simp
  then obtain ad where ad: "syns (kst m) a = Some ad" using inv unfolding conn_inv_def syns_ok_def by blast
  obtain r p ad' cs where so: "syn_socket e ad (kst m) = (r, p, ad', (kst m)\<lparr>calls := cs\<rparr>)"
    "r = Inr () \<Longrightarrow> p = PTR (new_sock e)"
    using syn_socket_calls [of e ad "kst m"] by blast
  show ?thesis
  proof (cases r)
    case (Inl rc)
    obtain ds where "sock_call sock_release p ((kst m)\<lparr>calls := cs, syns := (syns (kst m))(a \<mapsto> ad')\<rparr>) =
        (kst m)\<lparr>calls := cs, syns := (syns (kst m))(a \<mapsto> ad')\<rparr>\<lparr>calls := ds\<rparr>" using sock_call_eq by blast
    moreover have "(kst m)\<lparr>calls := cs, syns := (syns (kst m))(a \<mapsto> ad')\<rparr>\<lparr>calls := ds\<rparr> =
        (kst m)\<lparr>calls := ds, syns := (syns (kst m))(a \<mapsto> ad')\<rparr>" by (cases "kst m") simp
    ultimately show ?thesis
      using Inl so(1) ad step_tx_connect_fail [OF inv t, of rc] by simp
  next
    case (Inr u)
    have "upd_qp q (tx_update (\<lambda>_. p)) ((kst m)\<lparr>calls := cs, syns := (syns (kst m))(a \<mapsto> ad')\<rparr>) =
        Some ((kst m)\<lparr>calls := cs, syns := (syns (kst m))(a \<mapsto> ad'), qps := (qps (kst m))(q \<mapsto> x\<lparr>tx := p\<rparr>)\<rparr>)"
      using x by (simp add: upd_qp_def)
    then show ?thesis
      using Inr so ad step_tx_connect_ok [OF L inv t x refl, where cs = cs and p = "new_sock e"] by simp
  qed
qed

text \<open>A timed-out wait unlinks and frees the QP.\<close>

lemma wait_qp_timeout:
  assumes L: "rbtree_lib_ok L" and t: "trees_ok s" and h: "qp_home s q = {(l, c)}"
    and x: "qps s q = Some x" "listner x = Some l" "ref_cnt x = 1"
  shows "\<exists>s' ls cs. wait_qp_leave L c q 0 s = Some (1, s') \<and> trees_ok s' \<and> same_listners s s' \<and>
    s' = s\<lparr>listners := ls, calls := cs, qps := (qps s)(q := None)\<rparr> \<and>
    (\<forall>q'. qp_home s' q' = (if q' = q then {} else qp_home s q'))"
proof -
  obtain s1 where s1: "fin_connected_qp L c q s = Some s1" "trees_ok s1" "same_listners s s1"
    "\<exists>ls. s1 = s\<lparr>listners := ls\<rparr>"
    "\<forall>q'. qp_home s1 q' = (if q' = q then qp_home s q' - {(l, c)} else qp_home s q')"
    using fin_connected_ok [OF L t _ x(1,2), of c] h by auto
  obtain ls where ls: "s1 = s\<lparr>listners := ls\<rparr>" using s1(4) by blast
  then have x1: "qps s1 q = Some x" using x(1) by simp
  obtain cs where put: "put_qp q s1 = Some (0, s1\<lparr>calls := cs, qps := (qps s1)(q := None)\<rparr>)"
    using put_qp_Some [OF x1] x(3) by auto
  let ?s' = "s1\<lparr>calls := cs, qps := (qps s1)(q := None)\<rparr>"
  have "trees_ok ?s'"
    by (rule trees_ok_cong [OF s1(2)]) (use s1(5) h in \<open>auto split: if_splits\<close>)
  moreover have "wait_qp_leave L c q 0 s = Some (1, ?s')"
    using s1(1) put by (simp add: wait_qp_leave_timeout)
  moreover have "same_listners s ?s'" using s1(3) by (simp add: same_listners_def)
  moreover have "?s' = s\<lparr>listners := ls, calls := cs, qps := (qps s)(q := None)\<rparr>" by (simp add: ls)
  moreover have "\<forall>q'. qp_home ?s' q' = (if q' = q then {} else qp_home s q')" using s1(5) h by simp
  ultimately show ?thesis by metis
qed

text \<open>The last thread at a QP leaves it freed.\<close>

lemma conn_inv_freed:
  assumes inv: "conn_inv m" and "trees_ok s'" and same: "same_listners (kst m) s'"
    and s': "s' = (kst m)\<lparr>listners := ls, calls := cs, qps := (qps (kst m))(q := None)\<rparr>"
    and home: "\<forall>q'. qp_home s' q' = (if q' = q then {} else qp_home (kst m) q')"
    and at: "threads_at tx_at (thr m) q \<union> threads_at rx_at (thr m) q = {(i, thr m i)}"
    and one: "\<forall>q'. q' \<noteq> q \<longrightarrow> tx_at (thr m i) \<noteq> Some q' \<and> rx_at (thr m i) \<noteq> Some q'" "syn_at (thr m i) = None"
    and gone: "tx_at t = None" "rx_at t = None" "syn_at t = None"
  shows "conn_inv (run_thread m i t s')"
proof (rule conn_inv_run [OF inv assms(2) same, where p = q])
  show "listners_ok s'"
    by (rule listners_ok_upd [of "kst m"]) (use inv same in \<open>auto simp: s' conn_inv_def split: if_splits\<close>)
  show "qp_phase z (qps s' z) (threads_at tx_at ((thr m)(i := t)) z) (threads_at rx_at ((thr m)(i := t)) z) (qp_home s' z)"
    if "tx_at (thr m i) = Some z \<or> rx_at (thr m i) = Some z \<or> tx_at t = Some z \<or> rx_at t = Some z \<or> z = q" for z
  proof -
    have z: "z = q" using that one(1) gone by auto
    have "threads_at tx_at ((thr m)(i := t)) q = {}" "threads_at rx_at ((thr m)(i := t)) q = {}"
      using at gone by (auto simp: threads_at_upd)
    then show ?thesis using z home by (simp add: s' phase_None)
  qed
qed (use home gone one in \<open>auto simp: s'\<close>)

lemma step_tx_wait:
  assumes L: "rbtree_lib_ok L" and inv: "conn_inv m" and t: "thr m i = Tx (Tx_wait c q)"
    and e: "wait_ok e TX_QP q (kst m)"
  shows "\<exists>pc s'. start_new_connection_syn L e (Tx_wait c q) (kst m) = Some (pc, s') \<and>
    conn_inv (run_thread m i (Tx pc) s')"
  using inv t
proof (cases rule: at_tx_wait)
  case (pending x l p)
  have tr: "trees_ok (kst m)" using inv by (simp add: conn_inv_def)
  obtain s' ls cs where s': "wait_qp_leave L c q 0 (kst m) = Some (1, s')" "trees_ok s'" "same_listners (kst m) s'"
    "s' = (kst m)\<lparr>listners := ls, calls := cs, qps := (qps (kst m))(q := None)\<rparr>"
    "\<forall>q'. qp_home s' q' = (if q' = q then {} else qp_home (kst m) q')"
    using wait_qp_timeout [OF L tr pending(6,1,3,9)] by blast
  have "wait_rc e = 0" using e pending(1,5) by (simp add: wait_ok_def qp_dir_def)
  moreover have "conn_inv (run_thread m i (Tx (Tx_done 0)) s')"
    by (rule conn_inv_freed [OF inv s'(2-5)]) (use pending t in auto)
  ultimately show ?thesis using s'(1) by simp
next
  case (paired x p r k)
  let ?t = "Tx (Tx_relay q \<lparr>sock_rx = PTR p, sock_tx = PTR r, sock_dir = 1\<rparr>)"
  have "wait_rc e \<noteq> 0" using e paired(1,4) by (simp add: wait_ok_def qp_dir_def)
  moreover have "conn_inv (run_thread m i ?t (kst m))"
  proof (rule conn_inv_run [OF inv, where p = q])
    show "qp_phase z (qps (kst m) z) (threads_at tx_at ((thr m)(i := ?t)) z) (threads_at rx_at ((thr m)(i := ?t)) z)
        (qp_home (kst m) z)"
      if "tx_at (thr m i) = Some z \<or> rx_at (thr m i) = Some z \<or> tx_at ?t = Some z \<or> rx_at ?t = Some z \<or> z = q" for z
      using that t paired
      by (auto simp: threads_at_simps tx_paired.simps rx_paired.simps intro!: qp_phase.paired [where n = 1 and k = k])
  qed (use inv t in \<open>auto simp: conn_inv_def\<close>)
  ultimately show ?thesis using paired by (simp add: syn_ready_def)
qed

lemma step_rx_wait:
  assumes L: "rbtree_lib_ok L" and inv: "conn_inv m" and t: "thr m i = Rx (Rx_wait c q)"
    and e: "wait_ok e RX_QP q (kst m)"
  shows "\<exists>pc s'. start_new_connection L e (Rx_wait c q) (kst m) = Some (pc, s') \<and>
    (\<not> gives_up_early m (run_thread m i (Rx pc) s') \<longrightarrow> conn_inv (run_thread m i (Rx pc) s'))"
  using inv t
proof (cases rule: at_rx_wait)
  case (pending x l r)
  have tr: "trees_ok (kst m)" using inv by (simp add: conn_inv_def)
  obtain s' ls cs where s': "wait_qp_leave L c q 0 (kst m) = Some (1, s')" "trees_ok s'" "same_listners (kst m) s'"
    "s' = (kst m)\<lparr>listners := ls, calls := cs, qps := (qps (kst m))(q := None)\<rparr>"
    "\<forall>q'. qp_home s' q' = (if q' = q then {} else qp_home (kst m) q')"
    using wait_qp_timeout [OF L tr pending(6,1,3,9)] by blast
  have rc: "wait_rc e = 0" using e pending(1,5) by (simp add: wait_ok_def qp_dir_def)
  have "conn_inv (run_thread m i (Rx (Rx_done 0)) s')" if "\<not> gives_up_early m (run_thread m i (Rx (Rx_done 0)) s')"
  proof -
    have "(j, Tx (Tx_connect d a q)) \<notin> threads_at tx_at (thr m) q" for j d a
      using that t unfolding gives_up_early_def run_thread_def threads_at_iff by (simp, metis)
    with pending(8) have "threads_at tx_at (thr m) q = {}"
      by cases auto
    then show ?thesis by (intro conn_inv_freed [OF inv s'(2-5)]) (use pending t in auto)
  qed
  then show ?thesis using s'(1) rc by simp
next
  case (paired x p r n)
  let ?t = "Rx (Rx_relay q \<lparr>sock_rx = PTR r, sock_tx = PTR p, sock_dir = 0\<rparr>)"
  have "wait_rc e \<noteq> 0" using e paired(1,3) by (simp add: wait_ok_def qp_dir_def)
  moreover have "conn_inv (run_thread m i ?t (kst m))"
  proof (rule conn_inv_run [OF inv, where p = q])
    show "qp_phase z (qps (kst m) z) (threads_at tx_at ((thr m)(i := ?t)) z) (threads_at rx_at ((thr m)(i := ?t)) z)
        (qp_home (kst m) z)"
      if "tx_at (thr m i) = Some z \<or> rx_at (thr m i) = Some z \<or> tx_at ?t = Some z \<or> rx_at ?t = Some z \<or> z = q" for z
      using that t paired
      by (auto simp: threads_at_simps tx_paired.simps rx_paired.simps intro!: qp_phase.paired [where n = n and k = 1])
  qed (use inv t in \<open>auto simp: conn_inv_def\<close>)
  ultimately show ?thesis using paired by (simp add: conn_ready_def)
qed

lemma relay_not_stopped: "relay is h = Some (end, h') \<Longrightarrow> \<forall>i \<in> set is. \<not> stop i \<Longrightarrow> end \<noteq> Stopped"
  by (induction "is" arbitrary: h) (auto simp: Let_def split: if_splits)

text \<open>The script of the environment lets the loop end.\<close>

definition relay_ends :: "env \<Rightarrow> bool" where
  "relay_ends e \<longleftrightarrow> relay (script (hd_env_of e))
     \<lparr>vec = page_data (hd_env_of e), bytes = 0, hd_rc = - ENOMEM, received = [], sent = []\<rparr> \<noteq> None"

lemma half_duplex_put:
  assumes "env_ok e s" and "relay_ends e" and x: "qps s q = Some x"
  shows "\<exists>r cs. half_duplex (hd_env_of e) q s = Some (r, s\<lparr>calls := cs,
    qps := (qps s)(q := if ref_cnt x = 1 then None else Some (x\<lparr>ref_cnt := ref_cnt x - 1\<rparr>))\<rparr>)"
proof -
  obtain fin h where r: "relay (script (hd_env_of e)) \<lparr>vec = page_data (hd_env_of e), bytes = 0, hd_rc = - ENOMEM,
      received = [], sent = []\<rparr> = Some (fin, h)" using assms(2) by (auto simp: relay_ends_def)
  then have "fin \<noteq> Stopped" by (rule relay_not_stopped) (use assms(1) in \<open>simp add: env_ok_def\<close>)
  moreover obtain cs where "put_qp q (log_call (sched_setaffinity None) s) = Some (ref_cnt x - 1, s\<lparr>calls := cs,
      qps := (qps s)(q := if ref_cnt x = 1 then None else Some (x\<lparr>ref_cnt := ref_cnt x - 1\<rparr>))\<rparr>)"
    using put_qp_Some [of "log_call (sched_setaffinity None) s" q x] x by (auto simp: log_call_def)
  ultimately show ?thesis
    using r assms(1) half_duplex_pages [of "hd_env_of e" q s]
    by (cases fin) (auto simp: env_ok_def)
qed

text \<open>One of the two relaying threads leaves; the other one keeps the QP.\<close>

lemma conn_inv_put:
  assumes inv: "conn_inv m" and x: "qps (kst m) q = Some x" and home: "qp_home (kst m) q = {}"
    and at: "threads_at tx_at (thr m) q \<union> threads_at rx_at (thr m) q = {(i, thr m i)} \<and> ref_cnt x = 1 \<or>
      ref_cnt x = 2 \<and> qp_phase q (Some (x\<lparr>ref_cnt := 1\<rparr>)) (threads_at tx_at ((thr m)(i := t)) q)
        (threads_at rx_at ((thr m)(i := t)) q) {}"
    and one: "\<forall>q'. q' \<noteq> q \<longrightarrow> tx_at (thr m i) \<noteq> Some q' \<and> rx_at (thr m i) \<noteq> Some q'" "syn_at (thr m i) = None"
    and gone: "tx_at t = None" "rx_at t = None" "syn_at t = None"
  shows "conn_inv (run_thread m i t ((kst m)\<lparr>calls := cs,
    qps := (qps (kst m))(q := if ref_cnt x = 1 then None else Some (x\<lparr>ref_cnt := ref_cnt x - 1\<rparr>))\<rparr>))"
    (is "conn_inv (run_thread m i t ?s')")
  using at
proof
  assume last: "threads_at tx_at (thr m) q \<union> threads_at rx_at (thr m) q = {(i, thr m i)} \<and> ref_cnt x = 1"
  have "trees_ok ?s'" by (rule trees_ok_cong [of "kst m"]) (use inv home in \<open>auto simp: conn_inv_def\<close>)
  then show ?thesis
    by (rule conn_inv_freed [OF inv, where ls = "listners (kst m)" and cs = cs and q = q])
       (use last home one gone in auto)
next
  assume two: "ref_cnt x = 2 \<and> qp_phase q (Some (x\<lparr>ref_cnt := 1\<rparr>)) (threads_at tx_at ((thr m)(i := t)) q)
        (threads_at rx_at ((thr m)(i := t)) q) {}"
  show ?thesis
  proof (rule conn_inv_run [OF inv, where p = q])
    show "trees_ok ?s'" by (rule trees_ok_cong [of "kst m"]) (use inv home in \<open>auto simp: conn_inv_def\<close>)
    show "listners_ok ?s'"
      by (rule listners_ok_upd [of "kst m"]) (use inv x in \<open>auto simp: conn_inv_def split: if_splits\<close>)
    show "qp_phase z (qps ?s' z) (threads_at tx_at ((thr m)(i := t)) z) (threads_at rx_at ((thr m)(i := t)) z) (qp_home ?s' z)"
      if "tx_at (thr m i) = Some z \<or> rx_at (thr m i) = Some z \<or> tx_at t = Some z \<or> rx_at t = Some z \<or> z = q" for z
    proof -
      have "z = q" using that one gone by auto
      then show ?thesis using two home by simp
    qed
  qed (use one gone in auto)
qed

lemma step_tx_relay:
  assumes inv: "conn_inv m" and t: "thr m i = Tx (Tx_relay q socks)" and e: "env_ok e (kst m)" "relay_ends e"
  shows "\<exists>pc s'. start_new_connection_syn L e (Tx_relay q socks) (kst m) = Some (pc, s') \<and>
    conn_inv (run_thread m i (Tx pc) s')"
  using inv t
proof (cases rule: at_tx_relay)
  case (1 x p r k)
  obtain res cs where hd: "half_duplex (hd_env_of e) q (kst m) = Some (res, (kst m)\<lparr>calls := cs,
      qps := (qps (kst m))(q := if ref_cnt x = 1 then None else Some (x\<lparr>ref_cnt := ref_cnt x - 1\<rparr>))\<rparr>)"
    using half_duplex_put [OF e 1(1)] by blast
  have k: "k = 0 \<and> threads_at rx_at (thr m) q = {} \<or> k = 1" using 1(7) by (auto simp: rx_paired.simps)
  then have "conn_inv (run_thread m i (Tx (Tx_done (res_rc res))) ((kst m)\<lparr>calls := cs,
      qps := (qps (kst m))(q := if ref_cnt x = 1 then None else Some (x\<lparr>ref_cnt := ref_cnt x - 1\<rparr>))\<rparr>))"
    by (intro conn_inv_put [OF inv 1(1,5)])
       (use t 1 in \<open>auto simp: threads_at_simps tx_paired.simps intro!: qp_phase.paired [where n = 0 and k = 1]\<close>)
  then show ?thesis using hd by simp
qed

lemma step_rx_relay:
  assumes inv: "conn_inv m" and t: "thr m i = Rx (Rx_relay q socks)" and e: "env_ok e (kst m)" "relay_ends e"
  shows "\<exists>pc s'. start_new_connection L e (Rx_relay q socks) (kst m) = Some (pc, s') \<and>
    conn_inv (run_thread m i (Rx pc) s')"
  using inv t
proof (cases rule: at_rx_relay)
  case (1 x p r n)
  obtain res cs where hd: "half_duplex (hd_env_of e) q (kst m) = Some (res, (kst m)\<lparr>calls := cs,
      qps := (qps (kst m))(q := if ref_cnt x = 1 then None else Some (x\<lparr>ref_cnt := ref_cnt x - 1\<rparr>))\<rparr>)"
    using half_duplex_put [OF e 1(1)] by blast
  have "n = 0 \<and> threads_at tx_at (thr m) q = {} \<or> n = 1" using 1(7) by (auto simp: tx_paired.simps)
  then have "conn_inv (run_thread m i (Rx (Rx_done 0)) ((kst m)\<lparr>calls := cs,
      qps := (qps (kst m))(q := if ref_cnt x = 1 then None else Some (x\<lparr>ref_cnt := ref_cnt x - 1\<rparr>))\<rparr>))"
    by (intro conn_inv_put [OF inv 1(1,5)])
       (use t 1 in \<open>auto simp: threads_at_simps rx_paired.simps intro!: qp_phase.paired [where n = 1 and k = 0]\<close>)
  then show ?thesis using hd by simp
qed

lemma accepted_socket_calls: "\<exists>res cs. accepted_socket e r k s = (res, s\<lparr>calls := cs\<rparr>) \<and>
    (\<forall>rc. res = Inl rc \<longrightarrow> rc \<noteq> 0 \<and> rc \<in> range (rc_of e))"
  by (cases s) (auto simp: accepted_socket_def do_call_def log_call_def Let_def)

text \<open>The state in which an accepted QP has its connection filled in.\<close>

definition accepted :: "machine \<Rightarrow> addr \<Rightarrow> cbn_qp \<Rightarrow> kcall list \<Rightarrow> kstate" where
  "accepted m q x cs = (kst m)\<lparr>calls := cs, qps := (qps (kst m))(q \<mapsto> x)\<rparr>"

lemma accepted_ok:
  assumes inv: "conn_inv m" and t: "thr m i = Rx (Rx_start q)" and x: "qps (kst m) q = Some x0" "listner x = listner x0"
  shows "trees_ok (accepted m q x cs)" "listners_ok (accepted m q x cs)" "same_listners (kst m) (accepted m q x cs)"
    "qp_home (accepted m q x cs) = qp_home (kst m)"
proof -
  have home: "qp_home (kst m) q = {}" using at_rx_start [OF inv t] by blast
  show "trees_ok (accepted m q x cs)"
    by (rule trees_ok_cong [of "kst m"]) (use inv home in \<open>auto simp: conn_inv_def accepted_def\<close>)
  show "listners_ok (accepted m q x cs)"
    by (rule listners_ok_upd [of "kst m"]) (use inv x in \<open>auto simp: conn_inv_def accepted_def split: if_splits\<close>)
qed (simp_all add: accepted_def)

lemma step_rx_fail:
  assumes inv: "conn_inv m" and t: "thr m i = Rx (Rx_start q)" and x: "qps (kst m) q = Some x0" "listner x = listner x0" "qp_wf x"
  shows "conn_inv (run_thread m i (Rx (Rx_done rc)) (accepted m q x cs))"
proof (rule conn_inv_run [OF inv accepted_ok(1,3,2) [OF inv t x(1,2)], where p = q])
  have "threads_at rx_at (thr m) q = {(i, thr m i)}" "threads_at tx_at (thr m) q = {}" "qp_home (kst m) q = {}"
    using at_rx_start [OF inv t] by blast+
  then show "qp_phase z (qps (accepted m q x cs) z) (threads_at tx_at ((thr m)(i := Rx (Rx_done rc))) z)
      (threads_at rx_at ((thr m)(i := Rx (Rx_done rc))) z) (qp_home (accepted m q x cs) z)"
    if "tx_at (thr m i) = Some z \<or> rx_at (thr m i) = Some z \<or> tx_at (Rx (Rx_done rc)) = Some z \<or>
      rx_at (Rx (Rx_done rc)) = Some z \<or> z = q" for z
    using that t x(3) by (auto simp: threads_at_simps accepted_def intro!: qp_phase.leaked)
qed (use t in \<open>auto simp: accepted_def\<close>)

lemma step_rx_linked:
  assumes inv: "conn_inv m" and t: "thr m i = Rx (Rx_start q)"
    and x0: "qps (kst m) q = Some x0" and x: "qp_wf x" "ref_cnt x = 0" "rx x = PTR r" "tx x = NULL" "listner x = Some l"
      "listner x0 = Some l"
    and s: "trees_ok s" "same_listners (accepted m q x cs) s" "s = (accepted m q x cs)\<lparr>listners := ls\<rparr>"
      "\<forall>z. qp_home s z = (if z = q then {(l, c)} else qp_home (kst m) z)"
  shows "conn_inv (run_thread m i (Rx (Rx_wait c q)) (s\<lparr>qps := (qps s)(q \<mapsto> x\<lparr>ref_cnt := 1\<rparr>)\<rparr>))"
    (is "conn_inv (run_thread m i ?t ?s')")
proof (rule conn_inv_run [OF inv, where p = q])
  have at: "threads_at rx_at (thr m) q = {(i, thr m i)}" "threads_at tx_at (thr m) q = {}"
    using at_rx_start [OF inv t] by blast+
  have sx: "qps s q = Some x" by (simp add: s(3) accepted_def)
  show "trees_ok ?s'" by (rule trees_ok_cong [OF s(1)]) (use sx in auto)
  show same: "same_listners (kst m) ?s'" using s(2) by (simp add: same_listners_def accepted_def)
  show "listners_ok ?s'"
    by (rule listners_ok_upd [of "kst m"])
       (use inv same x x0 in \<open>auto simp: s(3) accepted_def conn_inv_def split: if_splits\<close>)
  show "qp_phase z (qps ?s' z) (threads_at tx_at ((thr m)(i := ?t)) z) (threads_at rx_at ((thr m)(i := ?t)) z) (qp_home ?s' z)"
    if "tx_at (thr m i) = Some z \<or> rx_at (thr m i) = Some z \<or> tx_at ?t = Some z \<or> rx_at ?t = Some z \<or> z = q" for z
    using that t at x s(4)
    by (auto simp: threads_at_simps phase_cases intro!: qp_phase.pending [where n = 0 and k = 1])
  show "qps ?s' z = qps (kst m) z \<and> qp_home ?s' z = qp_home (kst m) z" if "z \<noteq> q" for z
  proof
    show "qps ?s' z = qps (kst m) z" using that by (simp add: s(3) accepted_def)
    show "qp_home ?s' z = qp_home (kst m) z" using that s(4) by simp
  qed
qed (use t in \<open>auto simp: s(3) accepted_def\<close>)

lemma step_rx_found_first:
  assumes inv: "conn_inv m" and t: "thr m i = Rx (Rx_start q)"
    and z: "(l, c) \<in> qp_home (kst m) z" "qps (kst m) z = Some y" "rx y = NULL" "IS_ERR_OR_NULL (tx y)" "z \<noteq> q"
    and s_def: "s = (kst m)\<lparr>calls := cs, qps := (qps (kst m))(q := None, z \<mapsto> y\<lparr>rx := PTR r\<rparr>)\<rparr>"
  shows "\<exists>s'. wait_qp_enter L c z RX_QP s = Some (True, s') \<and> conn_inv (run_thread m i (Rx (Rx_wait c z)) s')"
proof -
  define s' where s': "s' = (kst m)\<lparr>calls := cs, qps := (qps (kst m))(q := None, z \<mapsto> y\<lparr>rx := PTR r, ref_cnt := 1\<rparr>)\<rparr>"
  obtain k n where y: "qp_wf y" "listner y = Some l" "qp_home (kst m) z = {(l, c)}"
    "tx_pending z c (tx y) (threads_at tx_at (thr m) z) n" "rx_pending z c (rx y) (threads_at rx_at (thr m) z) k"
    "ref_cnt y = n + k"
    using at_home [OF inv z(1)] z(2) by (metis option.inject)
  have at: "threads_at rx_at (thr m) q = {(i, thr m i)}" "threads_at tx_at (thr m) q = {}" "qp_home (kst m) q = {}"
    using at_rx_start [OF inv t] by blast+
  have nk: "n = 0" "threads_at rx_at (thr m) z = {}" "ref_cnt y = 0" using y(4-6) z(3,4) by (auto simp: phase_cases)
  have "wait_qp_enter L c z RX_QP s = Some (True, s')"
    using wait_qp_enter_first [of s z "y\<lparr>rx := PTR r\<rparr>" RX_QP] nk z by (simp add: s_def s' qp_dir_def)
  moreover have "conn_inv (run_thread m i (Rx (Rx_wait c z)) s')"
  proof (rule conn_inv_run [OF inv, where p = q])
    show "trees_ok s'" by (rule trees_ok_cong [of "kst m"]) (use inv z at in \<open>auto simp: s' conn_inv_def\<close>)
    show "listners_ok s'"
      by (rule listners_ok_upd [of "kst m"]) (use inv z in \<open>auto simp: s' conn_inv_def split: if_splits\<close>)
    show "qp_phase w (qps s' w) (threads_at tx_at ((thr m)(i := Rx (Rx_wait c z))) w)
        (threads_at rx_at ((thr m)(i := Rx (Rx_wait c z))) w) (qp_home s' w)"
      if "tx_at (thr m i) = Some w \<or> rx_at (thr m i) = Some w \<or> tx_at (Rx (Rx_wait c z)) = Some w \<or>
        rx_at (Rx (Rx_wait c z)) = Some w \<or> w = q" for w
      using that t at y nk z(5)
      by (auto simp: s' threads_at_simps phase_None rx_pending.simps intro!: qp_phase.pending [where n = 0 and k = 1])
  qed (use t in \<open>auto simp: s'\<close>)
  ultimately show ?thesis by blast
qed

lemma step_rx_found_second:
  assumes L: "rbtree_lib_ok L" and inv: "conn_inv m" and t: "thr m i = Rx (Rx_start q)"
    and z: "(l, c) \<in> qp_home (kst m) z" "qps (kst m) z = Some y" "rx y = NULL" "tx y = PTR p" "z \<noteq> q"
    and s_def: "s = (kst m)\<lparr>calls := cs, qps := (qps (kst m))(q := None, z \<mapsto> y\<lparr>rx := PTR r\<rparr>)\<rparr>"
  shows "\<exists>s'. wait_qp_enter L c z RX_QP s = Some (False, s') \<and>
    conn_ready z s' = Some (Rx_relay z \<lparr>sock_rx = PTR r, sock_tx = PTR p, sock_dir = 0\<rparr>, s') \<and>
    conn_inv (run_thread m i (Rx (Rx_relay z \<lparr>sock_rx = PTR r, sock_tx = PTR p, sock_dir = 0\<rparr>)) s')"
proof -
  obtain k n where y: "qp_wf y" "listner y = Some l" "qp_home (kst m) z = {(l, c)}"
    "tx_pending z c (tx y) (threads_at tx_at (thr m) z) n" "rx_pending z c (rx y) (threads_at rx_at (thr m) z) k"
    "ref_cnt y = n + k"
    using at_home [OF inv z(1)] z(2) by (metis option.inject)
  have R: "threads_at rx_at (thr m) z = {}" "ref_cnt y = 1" using y(4-6) z(3,4) by (auto simp: phase_cases)
  obtain j where T: "threads_at tx_at (thr m) z = {(j, Tx (Tx_wait c z))}" using y(4) z(4) by (auto simp: phase_cases)
  have at: "threads_at rx_at (thr m) q = {(i, thr m i)}" "threads_at tx_at (thr m) q = {}" "qp_home (kst m) q = {}"
    using at_rx_start [OF inv t] by blast+
  let ?y = "y\<lparr>rx := PTR r\<rparr>"
  have ts: "trees_ok s" by (rule trees_ok_cong [of "kst m"]) (use inv z at in \<open>auto simp: s_def conn_inv_def\<close>)
  have home: "qp_home s = qp_home (kst m)" by (simp add: s_def)
  obtain s' ls ds where s': "wait_qp_enter L c z RX_QP s = Some (False, s')" "trees_ok s'" "same_listners s s'"
    "s' = s\<lparr>listners := ls, calls := ds, qps := (qps s)(z \<mapsto> ?y\<lparr>ref_cnt := 2\<rparr>)\<rparr>"
    "\<forall>w. qp_home s' w = (if w = z then {} else qp_home s w)"
    using wait_qp_enter_second [OF L ts, of z l c ?y RX_QP] y R z home by (auto simp: qp_dir_def s_def)
  let ?t = "Rx (Rx_relay z \<lparr>sock_rx = PTR r, sock_tx = PTR p, sock_dir = 0\<rparr>)"
  have qs: "qps s' = (qps (kst m))(q := None, z \<mapsto> ?y\<lparr>ref_cnt := 2\<rparr>)" by (simp add: s'(4) s_def)
  have same: "same_listners (kst m) s'" using s'(3) by (simp add: s_def same_listners_def)
  have "conn_inv (run_thread m i ?t s')"
  proof (rule conn_inv_run [OF inv s'(2) same, where p = q])
    show "listners_ok s'"
      by (rule listners_ok_upd [OF _ same]) (use inv z in \<open>auto simp: qs conn_inv_def split: if_splits\<close>)
    show "qp_phase w (qps s' w) (threads_at tx_at ((thr m)(i := ?t)) w) (threads_at rx_at ((thr m)(i := ?t)) w) (qp_home s' w)"
      if "tx_at (thr m i) = Some w \<or> rx_at (thr m i) = Some w \<or> tx_at ?t = Some w \<or> rx_at ?t = Some w \<or> w = q" for w
      using that t at y(1) T R z s'(5) home
      by (auto simp: qs threads_at_simps phase_None tx_paired.simps rx_paired.simps
          intro!: qp_phase.paired [where n = 1 and k = 1])
    show "syns s' a = syns (kst m) a" for a by (simp add: s'(4) s_def)
  qed (use t s'(5) home in \<open>auto simp: qs\<close>)
  moreover have "conn_ready z s' = Some (Rx_relay z \<lparr>sock_rx = PTR r, sock_tx = PTR p, sock_dir = 0\<rparr>, s')"
    using z(4) by (simp add: conn_ready_def qs)
  ultimately show ?thesis using s'(1) by blast
qed

text \<open>The accepted connection as \<open>start_new_connection\<close> fills it in, the core it moves to, and the case in
  which another accepted connection with the same C string is still waiting there.\<close>

definition filled_in :: "env \<Rightarrow> cbn_qp \<Rightarrow> cbn_qp" where
  "filled_in e x = set_conn (sin_addr (orig_dst e)) (sin_port (peer e)) (sin_port (orig_dst e)) (sin_addr (peer e)) x"

definition rx_core :: "env \<Rightarrow> cbn_qp \<Rightarrow> cpu" where
  "rx_core e x = unat (qp2cpu (num_online_cpus e) (filled_in e x))"

definition double_rx :: "env \<Rightarrow> kstate \<Rightarrow> addr \<Rightarrow> bool" where
  "double_rx e s q \<longleftrightarrow> (\<exists>x l z y. qps s q = Some x \<and> listner x = Some l \<and> z \<noteq> q \<and> qps s z = Some y \<and>
     (l, rx_core e x) \<in> qp_home s z \<and> rx y \<noteq> NULL \<and> c_string (key y) = c_string (key (filled_in e x)))"

lemma filled_in_sel [simp]: "ref_cnt (filled_in e x) = ref_cnt x" "listner (filled_in e x) = listner x"
    "rx (filled_in e x) = rx x" "tx (filled_in e x) = tx x"
  by (simp_all add: filled_in_def)

text \<open>The socket calls of the accepted half: a failure leaves the QP to itself, otherwise the two halves
  meet with the QP filled in.\<close>

lemma rx_start_split:
  assumes x: "qps (kst m) q = Some x" "rx x = PTR r" "qp_wf x"
  obtains (fail) rc cs x' where "start_new_connection L e (Rx_start q) (kst m) = Some (Rx_done rc, accepted m q x' cs)"
      "listner x' = listner x" "qp_wf x'" "rc \<noteq> 0" "rc \<in> range (rc_of e)"
  | (ok) cs where "start_new_connection L e (Rx_start q) (kst m) = do {
      (qp, s) \<leftarrow> qp_exists L (rx_core e x) q RX_QP (accepted m q ((filled_in e x)\<lparr>tx := NULL\<rparr>) cs);
      z \<leftarrow> qp;
      (asleep, s) \<leftarrow> wait_qp_enter L (rx_core e x) z RX_QP s;
      if asleep then Some (Rx_wait (rx_core e x) z, s) else conn_ready z s }"
proof -
  obtain res cs where so: "accepted_socket e r (tid x) (kst m) = (res, (kst m)\<lparr>calls := cs\<rparr>)"
    "\<forall>rc. res = Inl rc \<longrightarrow> rc \<noteq> 0 \<and> rc \<in> range (rc_of e)"
    using accepted_socket_calls by blast
  show thesis
  proof (cases res)
    case (Inl rc)
    show thesis
      by (rule fail [of rc x "cs @ [sock_release r]"])
         (use x so Inl in \<open>simp_all add: sock_of_def log_call_def accepted_def fun_upd_idem\<close>)
  next
    case (Inr u)
    let ?k = "sched_setaffinity (Some (rx_core e x))"
    have step: "start_new_connection L e (Rx_start q) (kst m) =
      (if rc_of e ?k \<noteq> 0 then Some (Rx_done (rc_of e ?k), accepted m q (filled_in e x) (cs @ [?k, sock_release r]))
       else do {
        (qp, s) \<leftarrow> qp_exists L (rx_core e x) q RX_QP (accepted m q ((filled_in e x)\<lparr>tx := NULL\<rparr>) (cs @ [?k]));
        z \<leftarrow> qp;
        (asleep, s) \<leftarrow> wait_qp_enter L (rx_core e x) z RX_QP s;
        if asleep then Some (Rx_wait (rx_core e x) z, s) else conn_ready z s })"
      using x(1,2) so Inr unfolding rx_core_def filled_in_def accepted_def
      by (cases "kst m") (simp add: sock_of_def upd_qp_def do_call_def log_call_def Let_def)
    show thesis
    proof (cases "rc_of e ?k = 0")
      case True then show thesis using step ok by simp
    next
      case False
      moreover have "qp_wf (filled_in e x)" using x(3) by (simp add: filled_in_def)
      ultimately show thesis using step fail by simp
    qed
  qed
qed

text \<open>The accepted half finds a QP: one that has an accepted half already, or one whose other half is there, or
  one whose other half has failed.\<close>

lemma step_rx_found:
  assumes L: "rbtree_lib_ok L" and inv: "conn_inv m" and t: "thr m i = Rx (Rx_start q)"
    and x: "rx x = PTR r" "x' = (filled_in e x)\<lparr>tx := NULL\<rparr>"
    and z: "(l, rx_core e x) \<in> qp_home (kst m) z" "qps (kst m) z = Some y" "z \<noteq> q"
    and ex: "qp_exists L (rx_core e x) q RX_QP (accepted m q x' cs) = (if qp_dir y RX_QP \<noteq> NULL then Some (None, accepted m q x' cs)
      else Some (Some z, (accepted m q x' cs)\<lparr>qps := (qps (accepted m q x' cs))(z \<mapsto> set_qp_dir RX_QP (qp_dir x' RX_QP) y, q := None)\<rparr>))"
    and step: "start_new_connection L e (Rx_start q) (kst m) = do {
      (qp, s) \<leftarrow> qp_exists L (rx_core e x) q RX_QP (accepted m q x' cs);
      z \<leftarrow> qp;
      (asleep, s) \<leftarrow> wait_qp_enter L (rx_core e x) z RX_QP s;
      if asleep then Some (Rx_wait (rx_core e x) z, s) else conn_ready z s }"
  shows "if rx y = NULL then \<exists>pc s'. start_new_connection L e (Rx_start q) (kst m) = Some (pc, s') \<and> conn_inv (run_thread m i (Rx pc) s')
    else start_new_connection L e (Rx_start q) (kst m) = None"
proof (cases "rx y = NULL")
  case False
  then show ?thesis using step ex by (simp add: qp_dir_def)
next
  case True
  let ?s1 = "(kst m)\<lparr>calls := cs, qps := (qps (kst m))(q := None, z \<mapsto> y\<lparr>rx := PTR r\<rparr>)\<rparr>"
  have e1: "qp_exists L (rx_core e x) q RX_QP (accepted m q x' cs) = Some (Some z, ?s1)"
    using z(3) ex True x by (simp add: qp_dir_def set_qp_dir_def accepted_def fun_upd_twist)
  show ?thesis
  proof (cases "IS_ERR_OR_NULL (tx y)")
    case False
    then obtain p where "tx y = PTR p" by (auto simp: not_IS_ERR_OR_NULL)
    then show ?thesis
      using step_rx_found_second [OF L inv t z(1,2) True _ z(3) refl, where p = p and cs = cs and r = r] step e1 True by auto
  next
    case err: True
    then show ?thesis
      using step_rx_found_first [OF inv t z(1,2) True err z(3) refl, where L = L and cs = cs and r = r] step e1 True by auto
  qed
qed

lemma step_rx_start:
  assumes L: "rbtree_lib_ok L" and inv: "conn_inv m" and t: "thr m i = Rx (Rx_start q)"
  shows "if start_new_connection L e (Rx_start q) (kst m) = None then double_rx e (kst m) q
    else \<exists>pc s'. start_new_connection L e (Rx_start q) (kst m) = Some (pc, s') \<and> conn_inv (run_thread m i (Rx pc) s')"
proof -
  obtain x l li r where x: "qps (kst m) q = Some x" "qp_wf x" "ref_cnt x = 0" "rx x = PTR r" "listner x = Some l"
      "listners (kst m) l = Some li" "qp_home (kst m) q = {}"
    using inv t by (rule at_rx_start)
  show ?thesis
    using x(1,4,2)
  proof (cases rule: rx_start_split [where L = L and e = e])
    case (fail rc cs x')
    then show ?thesis using step_rx_fail [OF inv t x(1)] by simp
  next
    case (ok cs)
    let ?x = "(filled_in e x)\<lparr>tx := NULL\<rparr>" and ?c = "rx_core e x"
    let ?s = "accepted m q ?x cs"
    have fx: "qp_wf ?x" "listner ?x = Some l" using x by (simp_all add: filled_in_def)
    have pre: "trees_ok ?s" "qps ?s q = Some ?x" "listners ?s l = Some li" "qp_home ?s q = {}"
      using accepted_ok [OF inv t x(1), of ?x cs] x by (simp_all add: accepted_def)
    show ?thesis
    proof (cases rule: qp_exists_cases [OF L pre(1,2) fx pre(3,4), where c = ?c and d = RX_QP, case_names linked found])
      case (linked s)
      obtain ls where s: "s = ?s\<lparr>listners := ls\<rparr>" using linked(4) by blast
      have "wait_qp_enter L ?c q RX_QP s = Some (True, s\<lparr>qps := (qps s)(q \<mapsto> ?x\<lparr>ref_cnt := 1\<rparr>)\<rparr>)"
        by (rule wait_qp_enter_first) (simp_all add: s accepted_def x qp_dir_def)
      moreover have "conn_inv (run_thread m i (Rx (Rx_wait ?c q)) (s\<lparr>qps := (qps s)(q \<mapsto> ?x\<lparr>ref_cnt := 1\<rparr>)\<rparr>))"
        by (rule step_rx_linked [OF inv t x(1) fx(1) _ _ _ fx(2) x(5) linked(2,3) s])
           (use x linked(5) in \<open>simp_all add: accepted_def\<close>)
      ultimately show ?thesis using ok linked(1) by simp
    next
      case (found z y)
      have z: "(l, ?c) \<in> qp_home (kst m) z" "qps (kst m) z = Some y"
        using found(1-3) accepted_ok(4) [OF inv t x(1), of ?x cs] x(5) by (simp_all add: accepted_def)
      have "double_rx e (kst m) q" if "rx y \<noteq> NULL"
        using that x z found(3,4) unfolding double_rx_def by auto
      then show ?thesis
        using step_rx_found [OF L inv t x(4) refl z found(3,5) ok] by (auto split: if_splits)
    qed
  qed
qed

section \<open>The invariant holds in every reachable state\<close>

definition conn_init :: "machine \<Rightarrow> bool" where
  "conn_init m \<longleftrightarrow> qps (kst m) = Map.empty \<and> (\<forall>i. thr_done (thr m i)) \<and>
     (\<forall>l li c. listners (kst m) l = Some li \<longrightarrow> connections_root li c = Leaf)"

lemma thr_done_at: "thr_done t \<Longrightarrow> tx_at t = None \<and> rx_at t = None \<and> syn_at t = None"
  by (cases t rule: thr_done.cases) auto

lemma thr_done_threads: "\<forall>i. thr_done (ts i) \<Longrightarrow> threads_at tx_at ts q = {} \<and> threads_at rx_at ts q = {}"
  using thr_done_at by (auto simp: threads_at_def)

lemma conn_init_inv:
  assumes "conn_init m" shows "conn_inv m"
proof -
  have home: "qp_home (kst m) q = {}" for q using assms by (auto simp: conn_init_def qp_home_def)
  have at: "threads_at tx_at (thr m) q = {}" "threads_at rx_at (thr m) q = {}" for q
    using assms thr_done_threads by (simp_all add: conn_init_def)
  have "trees_ok (kst m)" using assms by (auto simp: conn_init_def trees_ok_def qp_tree_def rb_ordered_def)
  moreover have "syns_ok m" using assms thr_done_at by (simp add: conn_init_def syns_ok_def)
  ultimately show ?thesis
    using assms home at by (simp add: conn_init_def conn_inv_def listners_ok_def phase_None)
qed

lemma run_thread_same: "thr m i = t \<Longrightarrow> run_thread m i t (kst m) = m"
  by (auto simp: run_thread_def)

lemma tx_step_inv:
  assumes L: "rbtree_lib_ok L" and inv: "conn_inv m" and t: "thr m i = Tx pc" and e: "tx_env_ok e m pc"
    and r: "start_new_connection_syn L e pc (kst m) = Some (pc', s')"
  shows "conn_inv (run_thread m i (Tx pc') s')"
proof (cases pc)
  case (Tx_start c a)
  with r obtain p where "new_qp e = Some p" by (auto simp: bind_eq_Some_conv)
  then show ?thesis using step_tx_start [OF L inv] t e r Tx_start by fastforce
next
  case (Tx_connect c a q)
  then show ?thesis using step_tx_connect [OF L inv, of i c a q e] t r by auto
next
  case (Tx_wait c q)
  then show ?thesis using step_tx_wait [OF L inv, of i c q e] t e r by auto
next
  case (Tx_relay q socks)
  obtain x where "qps (kst m) q = Some x" using at_tx_relay [OF inv] t Tx_relay by metis
  with Tx_relay r have "relay_ends e"
    using e half_duplex_pages [of "hd_env_of e" q "kst m"] by (auto simp: relay_ends_def env_ok_def bind_eq_Some_conv)
  then show ?thesis using step_tx_relay [OF inv, of i q socks e L] t e r Tx_relay by auto
next
  case (Tx_done rc)
  then show ?thesis using inv t r run_thread_same [of m i] by auto
qed

lemma rx_step_inv:
  assumes L: "rbtree_lib_ok L" and inv: "conn_inv m" and t: "thr m i = Rx pc" and e: "rx_env_ok e m pc"
    and r: "start_new_connection L e pc (kst m) = Some (pc', s')" and p: "\<not> gives_up_early m (run_thread m i (Rx pc') s')"
  shows "conn_inv (run_thread m i (Rx pc') s')"
proof (cases pc)
  case (Rx_start q)
  then show ?thesis using step_rx_start [OF L inv, of i q e] t r by auto
next
  case (Rx_wait c q)
  then show ?thesis using step_rx_wait [OF L inv, of i c q e] t e r p by auto
next
  case (Rx_relay q socks)
  with r have "relay_ends e"
    using e half_duplex_pages [of "hd_env_of e" q "kst m"] by (auto simp: relay_ends_def env_ok_def bind_eq_Some_conv)
  then show ?thesis using step_rx_relay [OF inv, of i q socks e L] t e r Rx_relay by auto
next
  case (Rx_done rc)
  then show ?thesis using inv t r run_thread_same [of m i] by auto
qed

lemma patient_step_inv:
  assumes "rbtree_lib_ok L" and "conn_inv m" and "patient_step L m m'"
  shows "conn_inv m'"
proof -
  have "conn_step L m m'" and p: "\<not> gives_up_early m m'" using assms(3) by (simp_all add: patient_step_def)
  then show ?thesis
    using assms(1,2) by cases (auto intro: step_syn step_accept tx_step_inv rx_step_inv)
qed

interpretation conn: invariant_system conn_init "\<lambda>m m'. rbtree_lib_ok L \<and> patient_step L m m'" conn_inv for L
  by unfold_locales (auto intro: conn_init_inv patient_step_inv)

lemma conn_reach: "rbtree_lib_ok L \<Longrightarrow> reach conn_init (patient_step L) m \<Longrightarrow> conn_inv m"
  using conn.reach_inv [of L m] by simp

section \<open>Counting references\<close>

fun holds :: "thread \<Rightarrow> addr option" where
  "holds (Tx (Tx_wait c q)) = Some q"
| "holds (Tx (Tx_relay q socks)) = Some q"
| "holds (Rx (Rx_wait c q)) = Some q"
| "holds (Rx (Rx_relay q socks)) = Some q"
| "holds _ = None"

lemma threads_at_holds: "threads_at holds ts q =
    {p \<in> threads_at tx_at ts q \<union> threads_at rx_at ts q. holds (snd p) = Some q}"
proof -
  have "tx_at t = Some q \<or> rx_at t = Some q" if "holds t = Some q" for t
    using that by (cases t rule: holds.cases) auto
  then show ?thesis by (auto simp: threads_at_def)
qed

lemma phase_counts:
  assumes "qp_phase q (Some x) T R D" and "T \<union> R \<noteq> {} \<or> D \<noteq> {}"
  shows "unat (ref_cnt x) = card {p \<in> T \<union> R. holds (snd p) = Some q} \<and> card T \<le> 1 \<and> card R \<le> 1"
proof -
  have sets: "{p. (p = a \<or> p = b) \<and> P p} = (if P a then {a} else {}) \<union> (if P b then {b} else {})"
    "{p. p = a \<and> P p} = (if P a then {a} else {})" for a b :: "nat \<times> thread" and P by auto
  show ?thesis using assms
    by cases (auto simp: phase_cases sets)
qed

end
