(* ===== verification/Rendezvous_Safety.thy ===== *)
theory Rendezvous_Safety
  imports Rendezvous
begin

unbundle bit_operations_syntax

text \<open>
  What the invariant of \<open>Rendezvous\<close> gives for every reachable state of the connection threads, and
  the two ways in which the code can leave it: a second accepted connection with the same C string,
  and an accepted half that gives up while the other half is still connecting.
\<close>

section \<open>A concrete run\<close>

text \<open>A listener of tenant 7, a client 10.0.0.1 accepted for the server 10.0.0.9, and the SYN of the
  same connection captured.\<close>

definition ex_kst :: kstate where
  "ex_kst = kstate0\<lparr>listners := [9 \<mapsto> bare_listner 7], listner_root := Node Leaf 9 Leaf\<rparr>"

definition ex_accepted :: "sock \<Rightarrow> cbn_qp" where
  "ex_accepted r = \<lparr>key = bytes32 7 @ replicate 8 0, ref_cnt = 0, listner = Some 9, tx = NULL, rx = PTR r\<rparr>"

definition ex_env :: "u32 \<Rightarrow> env" where
  "ex_env client = \<lparr>rc_of = (\<lambda>_. 0), new_qp = Some 2, qp_mem = bare_qp (replicate 12 0), new_sock = 50,
     orig_dst = \<lparr>sin_family = 2, sin_port = 0x5000, sin_addr = 0x0900000A\<rparr>,
     peer = \<lparr>sin_family = 2, sin_port = 0x3412, sin_addr = client\<rparr>,
     num_online_cpus = 1, wait_rc = 0, hd_env_of = hd_env_ex\<rparr>"

definition ex_addresses :: addresses where
  "ex_addresses = \<lparr>dest = \<lparr>sin_family = 2, sin_port = 0x5000, sin_addr = 0x0900000A\<rparr>,
     src = \<lparr>sin_family = 2, sin_port = 0x3412, sin_addr = 0x0100000A\<rparr>, hop_addr = 0, mark = 7\<rparr>"

definition ex0 :: machine where
  "ex0 = \<lparr>kst = ex_kst, thr = (\<lambda>_. Tx (Tx_done 0))\<rparr>"

definition ex1 :: machine where
  "ex1 = run_thread ex0 0 (Rx (Rx_start 1)) (ex_kst\<lparr>qps := [1 \<mapsto> ex_accepted 40]\<rparr>)"

definition ex_conn :: "u32 \<Rightarrow> sock \<Rightarrow> cbn_qp" where
  "ex_conn client r = \<lparr>key = conn_key 0x3412 0x5000 client 0x0900000A, ref_cnt = 0, listner = Some 9,
     tx = NULL, rx = PTR r\<rparr>"

text \<open>The accepted half is waiting on core 0.\<close>

definition ex2 :: machine where
  "ex2 = run_thread ex1 0 (Rx (Rx_wait 0 1)) (ex_kst\<lparr>qps := [1 \<mapsto> (ex_conn 0x0100000A 40)\<lparr>ref_cnt := 1\<rparr>],
     listners := [9 \<mapsto> (bare_listner 7)\<lparr>connections_root := (\<lambda>_. Leaf)(0 := Node Leaf 1 Leaf)\<rparr>],
     calls := [kernel_setsockopt 40 SO_MARK 7, kernel_getsockopt 40, kernel_setsockopt 40 TCP_NODELAY 1,
       kernel_getpeername 40, sched_setaffinity (Some 0)]\<rparr>)"

lemma ex_env_ok: "qps s 2 = None \<Longrightarrow> env_ok (ex_env c) s"
  using pages_ok_ex [of "script hd_env_ex"]
  by (simp add: env_ok_def ex_env_def hd_env_ex_def)

lemma qp2cpu_one [simp]: "qp2cpu 1 q = 0"
  by (simp add: xor_key_div_mod)

lemma ex_accepted_conn [simp]: "tid (ex_accepted r) = 7" "qp_wf (ex_accepted r)" "rx (ex_accepted r) = PTR r"
    "filled_in (ex_env c) (ex_accepted r) = ex_conn c r"
  by (simp_all add: ex_accepted_def tid_def byte_simps filled_in_def set_conn_eq ex_conn_def ex_env_def)

lemmas ex_defs = run_thread_def ex_kst_def kstate0_def bare_listner_def plain_lib_def

lemmas op_defs = sock_of_def accepted_socket_def do_call_def log_call_def upd_qp_def qp_exists_def add_rb_data_def
  rb_insert_result_def set_qp_root_def wait_qp_enter_def get_qp_def qp_dir_def set_qp_dir_def Let_def

lemma ex_step1: "start_new_connection plain_lib (ex_env 0x0100000A) (Rx_start 1) (kst ex1) =
    Some (Rx_wait 0 1, kst ex2)"
  using ex_accepted_conn(4) [of "0x0100000A" 40]
  by (simp add: ex1_def ex2_def ex_defs op_defs filled_in_def) (simp add: ex_env_def ex_conn_def op_defs)

text \<open>The SYN of the same connection arrives, and its thread finds the QP of the accepted half.\<close>

definition ex3 :: machine where
  "ex3 = run_thread ex2 1 (Tx (Tx_start 0 5)) ((kst ex2)\<lparr>syns := [5 \<mapsto> ex_addresses]\<rparr>)"

definition ex4 :: machine where
  "ex4 = run_thread ex3 1 (Tx (Tx_connect 0 5 1)) ((kst ex3)\<lparr>
     qps := [1 \<mapsto> (ex_conn 0x0100000A 40)\<lparr>ref_cnt := 1, tx := ERR_PTR (- EINVAL)\<rparr>]\<rparr>)"

lemma ex_step2: "start_new_connection_syn plain_lib (ex_env 0x0100000A) (Tx_start 0 5) (kst ex3) =
    Some (Tx_connect 0 5 1, kst ex4)"
  by (simp add: ex4_def ex3_def ex2_def ex_defs op_defs ex_addresses_def ex_env_def search_rb_listner_def key_diff_def
      set_conn_eq ex_conn_def strncmp_refl fun_eq_iff)

text \<open>Instead, a second client 10.0.0.2 with the same source port is accepted.\<close>

definition ex5 :: machine where
  "ex5 = run_thread ex2 1 (Rx (Rx_start 3)) ((kst ex2)\<lparr>qps := (qps (kst ex2))(3 \<mapsto> ex_accepted 41)\<rparr>)"

lemma ex_reach1: "reach conn_init (patient_step plain_lib) ex1"
proof (rule reach_patient)
  show "reach conn_init (patient_step plain_lib) ex0"
    by (rule reach_init) (simp add: conn_init_def ex0_def ex_kst_def kstate0_def bare_listner_def)
  show "conn_step plain_lib ex0 ex1"
    using conn_step.accept [of ex0 0 1 "ex_accepted 40" 40 9 "bare_listner 7" plain_lib]
    by (simp add: ex1_def ex0_def ex_kst_def kstate0_def ex_accepted_def byte_simps)
qed (simp add: ex1_def)

lemma ex_reach2: "reach conn_init (patient_step plain_lib) ex2"
proof (rule reach_patient [OF ex_reach1])
  have "thr ex1 0 = Rx (Rx_start 1)" by (simp add: ex1_def run_thread_def)
  moreover have "rx_env_ok (ex_env 0x0100000A) ex1 (Rx_start 1)"
    using ex_env_ok [of "kst ex1"] by (simp add: ex1_def run_thread_def)
  ultimately have "conn_step plain_lib ex1 (run_thread ex1 0 (Rx (Rx_wait 0 1)) (kst ex2))"
    using ex_step1 by (rule conn_step.rx)
  then show "conn_step plain_lib ex1 ex2" by (simp add: ex2_def run_thread_def)
qed (simp add: ex2_def)

lemma ex_reach4: "reach conn_init (patient_step plain_lib) ex4"
proof (rule reach_patient [OF reach_patient [OF ex_reach2]])
  have "has_listner (kst ex2) (mark ex_addresses)"
    by (simp add: has_listner_def ex2_def ex_defs ex_addresses_def search_rb_listner_def key_diff_def)
  then show "conn_step plain_lib ex2 ex3"
    using conn_step.syn [of ex2 1 5 ex_addresses plain_lib 0]
    by (simp add: ex3_def ex2_def ex1_def ex0_def ex_defs)
  have "thr ex3 1 = Tx (Tx_start 0 5)" by (simp add: ex3_def run_thread_def)
  moreover have "tx_env_ok (ex_env 0x0100000A) ex3 (Tx_start 0 5)"
    using ex_env_ok [of "kst ex3"] by (simp add: ex3_def ex2_def run_thread_def)
  ultimately have "conn_step plain_lib ex3 (run_thread ex3 1 (Tx (Tx_connect 0 5 1)) (kst ex4))"
    using ex_step2 by (rule conn_step.tx)
  then show "conn_step plain_lib ex3 ex4" by (simp add: ex4_def run_thread_def)
qed (simp_all add: ex3_def ex4_def)

lemma ex_reach5: "reach conn_init (patient_step plain_lib) ex5"
proof (rule reach_patient [OF ex_reach2])
  show "conn_step plain_lib ex2 ex5"
    using conn_step.accept [of ex2 1 3 "ex_accepted 41" 41 9 _ plain_lib]
    by (simp add: ex5_def ex2_def ex1_def ex0_def ex_defs ex_accepted_def byte_simps)
qed (simp add: ex5_def)

text \<open>The half towards the server connects, and both halves are there.\<close>

definition ex6 :: machine where
  "ex6 = (case the (start_new_connection_syn plain_lib (ex_env 0x0100000A) (Tx_connect 0 5 1) (kst ex4)) of
     (pc, s) \<Rightarrow> run_thread ex4 1 (Tx pc) s)"

lemma ex_step3: "\<exists>s. start_new_connection_syn plain_lib (ex_env 0x0100000A) (Tx_connect 0 5 1) (kst ex4) =
    Some (Tx_relay 1 \<lparr>sock_rx = PTR 50, sock_tx = PTR 40, sock_dir = 1\<rparr>, s)"
  by (simp add: ex4_def ex3_def ex2_def ex_defs op_defs ex_addresses_def ex_env_def ex_conn_def syn_socket_def
      fin_connected_qp_def de_tree_qp_def syn_ready_def)

lemma ex_reach6: "reach conn_init (patient_step plain_lib) ex6"
  and ex6_thr: "thr ex6 1 = Tx (Tx_relay 1 \<lparr>sock_rx = PTR 50, sock_tx = PTR 40, sock_dir = 1\<rparr>)"
proof -
  obtain s where s: "start_new_connection_syn plain_lib (ex_env 0x0100000A) (Tx_connect 0 5 1) (kst ex4) =
      Some (Tx_relay 1 \<lparr>sock_rx = PTR 50, sock_tx = PTR 40, sock_dir = 1\<rparr>, s)" using ex_step3 by blast
  then have ex6: "ex6 = run_thread ex4 1 (Tx (Tx_relay 1 \<lparr>sock_rx = PTR 50, sock_tx = PTR 40, sock_dir = 1\<rparr>)) s"
    by (simp add: ex6_def)
  have "thr ex4 1 = Tx (Tx_connect 0 5 1)" "tx_env_ok (ex_env 0x0100000A) ex4 (Tx_connect 0 5 1)"
    using ex_env_ok [of "kst ex4"] by (simp_all add: ex4_def ex3_def ex2_def run_thread_def)
  then show "reach conn_init (patient_step plain_lib) ex6"
    unfolding ex6 by (intro reach_patient [OF ex_reach4] conn_step.tx [OF _ _ s] not_early) simp_all
  show "thr ex6 1 = Tx (Tx_relay 1 \<lparr>sock_rx = PTR 50, sock_tx = PTR 40, sock_dir = 1\<rparr>)"
    by (simp add: ex6 run_thread_def)
qed

text \<open>A SYN alone, and a server that does not answer.\<close>

definition ex7 :: machine where
  "ex7 = run_thread ex0 0 (Tx (Tx_start 0 5)) (ex_kst\<lparr>syns := [5 \<mapsto> ex_addresses]\<rparr>)"

definition ex8 :: machine where
  "ex8 = run_thread ex7 0 (Tx (Tx_connect 0 5 2)) ((kst ex7)\<lparr>
     qps := [2 \<mapsto> (ex_conn 0x0100000A 0)\<lparr>tx := ERR_PTR (- EINVAL), rx := NULL\<rparr>],
     listners := [9 \<mapsto> (bare_listner 7)\<lparr>connections_root := (\<lambda>_. Leaf)(0 := Node Leaf 2 Leaf)\<rparr>]\<rparr>)"

definition ex_timeout_env :: env where
  "ex_timeout_env = (ex_env 0)\<lparr>new_qp := None, rc_of := (\<lambda>k. case k of kernel_connect _ _ \<Rightarrow> - 110 | _ \<Rightarrow> 0)\<rparr>"

definition ex9 :: machine where
  "ex9 = (case the (start_new_connection_syn plain_lib ex_timeout_env (Tx_connect 0 5 2) (kst ex8)) of
     (pc, s) \<Rightarrow> run_thread ex8 0 (Tx pc) s)"

lemma ex_step4: "start_new_connection_syn plain_lib (ex_env 0x0100000A) (Tx_start 0 5) (kst ex7) =
    Some (Tx_connect 0 5 2, kst ex8)"
  by (simp add: ex8_def ex7_def ex_defs op_defs ex_addresses_def ex_env_def search_rb_listner_def key_diff_def
      set_conn_eq ex_conn_def bare_qp_def)

lemma ex_step5: "\<exists>s. start_new_connection_syn plain_lib ex_timeout_env (Tx_connect 0 5 2) (kst ex8) =
    Some (Tx_done (- 110), s) \<and> listners s = listners (kst ex8)"
  by (simp add: ex8_def ex7_def ex_defs op_defs ex_addresses_def ex_env_def ex_timeout_env_def syn_socket_def sock_call_def)

lemma ex_reach9: "reach conn_init (patient_step plain_lib) ex9"
  and ex9_done: "\<forall>i. thr_done (thr ex9 i)" and ex9_home: "(9, 0) \<in> qp_home (kst ex9) 2"
proof -
  obtain s where s: "start_new_connection_syn plain_lib ex_timeout_env (Tx_connect 0 5 2) (kst ex8) =
      Some (Tx_done (- 110), s)" "listners s = listners (kst ex8)" using ex_step5 by blast
  then have ex9: "ex9 = run_thread ex8 0 (Tx (Tx_done (- 110))) s" by (simp add: ex9_def)
  have r0: "reach conn_init (patient_step plain_lib) ex0"
    by (rule reach_init) (simp add: conn_init_def ex0_def ex_kst_def kstate0_def bare_listner_def)
  have "has_listner (kst ex0) (mark ex_addresses)"
    by (simp add: has_listner_def ex0_def ex_defs ex_addresses_def search_rb_listner_def key_diff_def)
  then have s7: "conn_step plain_lib ex0 ex7"
    using conn_step.syn [of ex0 0 5 ex_addresses plain_lib 0] by (simp add: ex7_def ex0_def ex_kst_def kstate0_def)
  have "conn_step plain_lib ex7 (run_thread ex7 0 (Tx (Tx_connect 0 5 2)) (kst ex8))"
    by (rule conn_step.tx [OF _ _ ex_step4])
       (use ex_env_ok [of "kst ex7"] in \<open>simp_all add: ex7_def ex_kst_def kstate0_def run_thread_def\<close>)
  then have s8: "conn_step plain_lib ex7 ex8" by (simp add: ex8_def run_thread_def)
  have "env_ok ex_timeout_env (kst ex8)"
    using pages_ok_ex [of "script hd_env_ex"] by (simp add: env_ok_def ex_timeout_env_def ex_env_def hd_env_ex_def)
  then have "conn_step plain_lib ex8 ex9"
    unfolding ex9 by (intro conn_step.tx [OF _ _ s(1)]) (simp_all add: ex8_def run_thread_def)
  moreover have "\<not> gives_up_early ex0 ex7" "\<not> gives_up_early ex7 ex8" "\<not> gives_up_early ex8 ex9"
    by (simp_all add: ex7_def ex8_def ex9)
  ultimately show "reach conn_init (patient_step plain_lib) ex9" using r0 s7 s8 by (blast intro: reach_patient)
  show "\<forall>i. thr_done (thr ex9 i)" by (simp add: ex9 ex8_def ex7_def ex0_def run_thread_def)
  show "(9, 0) \<in> qp_home (kst ex9) 2" using s(2) by (simp add: ex9 qp_home_def ex8_def run_thread_def)
qed

section \<open>Properties\<close>

text \<open>C7. In every state that is reached without an accepted half timing out while the half towards the server is
  still in \<open>kernel_connect\<close>, the reference count of a QP that is linked or that some thread works on is
  the number of threads that hold it, at most one thread serves each half, and every QP a thread works
  on is alive.\<close>

theorem refcount_exact:
  assumes "rbtree_lib_ok L" and "reach conn_init (patient_step L) m"
    and "qp_home (kst m) q \<noteq> {} \<or> threads_at tx_at (thr m) q \<union> threads_at rx_at (thr m) q \<noteq> {}"
  shows "\<exists>x. qps (kst m) q = Some x \<and> unat (ref_cnt x) = card (threads_at holds (thr m) q) \<and>
    card (threads_at tx_at (thr m) q) \<le> 1 \<and> card (threads_at rx_at (thr m) q) \<le> 1"
proof -
  note ph = conn_inv_phase [OF conn_reach [OF assms(1,2)], of q]
  from ph assms(3) obtain x where x: "qps (kst m) q = Some x" by cases auto
  with ph have "qp_phase q (Some x) (threads_at tx_at (thr m) q) (threads_at rx_at (thr m) q) (qp_home (kst m) q)"
    by simp
  from phase_counts [OF this] x assms(3) show ?thesis by (auto simp: threads_at_holds)
qed

theorem refcount_exact_witness:
  "\<exists>x. qps (kst ex4) 1 = Some x \<and> unat (ref_cnt x) = card (threads_at holds (thr ex4) 1) \<and>
    card (threads_at tx_at (thr ex4) 1) \<le> 1 \<and> card (threads_at rx_at (thr ex4) 1) \<le> 1"
  by (rule refcount_exact [OF plain_lib_ok ex_reach4])
     (auto simp: qp_home_def ex4_def ex3_def ex2_def run_thread_def)

text \<open>C8. In every state that is reached without an accepted half timing out while the half towards the server is
  still in \<open>kernel_connect\<close>, a thread that relays has a live, unlinked QP with both sockets in place, and the two threads of a
  QP relay in opposite directions between the same two sockets.\<close>

theorem relays_mirror:
  assumes "rbtree_lib_ok L" and "reach conn_init (patient_step L) m"
    and "thr m i = Tx (Tx_relay q so) \<or> thr m i = Rx (Rx_relay q so)"
  shows "\<exists>x t r. qps (kst m) q = Some x \<and> tx x = PTR t \<and> rx x = PTR r \<and> qp_home (kst m) q = {} \<and>
    so = (case thr m i of Tx _ \<Rightarrow> \<lparr>sock_rx = PTR t, sock_tx = PTR r, sock_dir = 1\<rparr>
                        | Rx _ \<Rightarrow> \<lparr>sock_rx = PTR r, sock_tx = PTR t, sock_dir = 0\<rparr>)"
  using assms(3) at_tx_relay [OF conn_reach [OF assms(1,2)], of i q so]
    at_rx_relay [OF conn_reach [OF assms(1,2)], of i q so]
  by (metis thread.simps(5,6))

theorem relays_mirror_witness:
  "\<exists>x t r. qps (kst ex6) 1 = Some x \<and> tx x = PTR t \<and> rx x = PTR r \<and> qp_home (kst ex6) 1 = {} \<and>
    \<lparr>sock_rx = PTR 50, sock_tx = PTR 40, sock_dir = 1\<rparr> = \<lparr>sock_rx = PTR t, sock_tx = PTR r, sock_dir = 1\<rparr>"
  using relays_mirror [OF plain_lib_ok ex_reach6, of 1 1] ex6_thr by simp

text \<open>C1. Take any interleaving of any number of connection threads on tenants that are and stay registered, in
  which no accepted half has timed out while the half towards the server was still in \<open>kernel_connect\<close>, no
  thread gets a signal or is stopped, and the relay loops get their pages and end. Then a step of a
  thread oopses in two cases only: \<open>start_new_connection_syn\<close> gets no memory for its QP, or an accepted
  connection has a key that agrees up to its first \<open>NUL\<close> byte with the key of one that is still waiting on
  the same core. Otherwise neither a freed QP nor a corrupt tree is ever touched, except that \<open>put_qp\<close>
  unlocks the lock of the QP it has just freed. The step itself may be one that times out early.\<close>

theorem threads_never_oops:
  assumes "rbtree_lib_ok L" and "reach conn_init (patient_step L) m" and "relay_ends e"
  shows "(thr m i = Tx pc \<longrightarrow> tx_env_ok e m pc \<longrightarrow> start_new_connection_syn L e pc (kst m) = None \<longrightarrow>
       (\<exists>c a. pc = Tx_start c a) \<and> new_qp e = None) \<and>
    (thr m i = Rx pc' \<longrightarrow> rx_env_ok e m pc' \<longrightarrow> start_new_connection L e pc' (kst m) = None \<longrightarrow>
       (\<exists>q. pc' = Rx_start q \<and> double_rx e (kst m) q))"
proof -
  note inv = conn_reach [OF assms(1,2)]
  have tx: "(\<exists>c a. pc = Tx_start c a) \<and> new_qp e = None"
    if "thr m i = Tx pc" "tx_env_ok e m pc" "start_new_connection_syn L e pc (kst m) = None"
  proof (cases pc)
    case (Tx_start c a)
    then show ?thesis using step_tx_start [OF assms(1) inv, of i c a e] that by (cases "new_qp e") auto
  next
    case (Tx_connect c a q)
    then show ?thesis using step_tx_connect [OF assms(1) inv, of i c a q e] that by auto
  next
    case (Tx_wait c q)
    then show ?thesis using step_tx_wait [OF assms(1) inv, of i c q e] that by auto
  next
    case (Tx_relay q so)
    then show ?thesis using step_tx_relay [OF inv, of i q so e L] that assms(3) by auto
  qed (use that in simp)
  have rx: "\<exists>q. pc' = Rx_start q \<and> double_rx e (kst m) q"
    if "thr m i = Rx pc'" "rx_env_ok e m pc'" "start_new_connection L e pc' (kst m) = None"
  proof (cases pc')
    case (Rx_start q)
    then show ?thesis using step_rx_start [OF assms(1) inv, of i q e] that by simp
  next
    case (Rx_wait c q)
    then show ?thesis using step_rx_wait [OF assms(1) inv, of i c q e] that by auto
  next
    case (Rx_relay q so)
    then show ?thesis using step_rx_relay [OF inv, of i q so e L] that assms(3) by auto
  qed (use that in simp)
  show ?thesis using tx rx by blast
qed

lemma ex_relay_ends: "relay_ends (ex_env c)"
  by (simp add: relay_ends_def ex_env_def hd_env_ex_def Let_def)

theorem threads_never_oops_witness:
  "start_new_connection_syn plain_lib (ex_env 0x0100000A) (Tx_connect 0 5 1) (kst ex4) \<noteq> None"
  using threads_never_oops [OF plain_lib_ok ex_reach4 ex_relay_ends, of 1 "Tx_connect 0 5 1" "0x0100000A"]
    ex_env_ok [of "kst ex4" "0x0100000A"]
  by (simp add: ex4_def ex3_def ex2_def run_thread_def ex_env_def)

text \<open>C9. When all threads have finished, and no accepted half has timed out while the half towards the server
  was still in \<open>kernel_connect\<close>, the only QPs left in the trees are those of connection attempts to
  the server that failed before the accepted half came; nobody holds a reference to them.\<close>

theorem quiescent_trees:
  assumes "rbtree_lib_ok L" and "reach conn_init (patient_step L) m" and "\<forall>i. thr_done (thr m i)"
    and "(l, c) \<in> qp_home (kst m) q"
  shows "\<exists>x. qps (kst m) q = Some x \<and> ref_cnt x = 0 \<and> rx x = NULL \<and> (tx x = NULL \<or> tx x = ERR_PTR (- EINVAL))"
proof -
  have "threads_at tx_at (thr m) q = {}" "threads_at rx_at (thr m) q = {}"
    using thr_done_threads [OF assms(3)] by simp_all
  moreover obtain x n k where "qps (kst m) q = Some x" "tx_pending q c (tx x) (threads_at tx_at (thr m) q) n"
    "rx_pending q c (rx x) (threads_at rx_at (thr m) q) k" "ref_cnt x = n + k"
    using at_home [OF conn_reach [OF assms(1,2)] assms(4)] by metis
  ultimately show ?thesis by (auto simp: phase_cases)
qed

theorem quiescent_trees_witness:
  "\<exists>x. qps (kst ex9) 2 = Some x \<and> ref_cnt x = 0 \<and> rx x = NULL \<and> (tx x = NULL \<or> tx x = ERR_PTR (- EINVAL))"
  by (rule quiescent_trees [OF plain_lib_ok ex_reach9 ex9_done ex9_home])

text \<open>C18. A second accepted connection that agrees, up to the first \<open>NUL\<close> byte of its key, with one whose
  accepted half is already there crashes the kernel: \<open>qp_exists\<close> reports the duplicate by \<open>NULL\<close>, and
  \<open>start_new_connection\<close> passes it on to \<open>wait_qp_ready\<close>.\<close>

theorem double_accept_oops:
  assumes "rbtree_lib_ok L" and "reach conn_init (patient_step L) m" and "thr m i = Rx (Rx_start q)"
    and "double_rx e (kst m) q" and "\<forall>k. rc_of e k = 0"
  shows "start_new_connection L e (Rx_start q) (kst m) = None"
proof -
  note inv = conn_reach [OF assms(1,2)]
  obtain x l li r where x: "qps (kst m) q = Some x" "qp_wf x" "ref_cnt x = 0" "rx x = PTR r" "listner x = Some l"
      "listners (kst m) l = Some li" "qp_home (kst m) q = {}"
    using inv assms(3) by (rule at_rx_start)
  obtain w z where w: "(l, rx_core e x) \<in> qp_home (kst m) z" "qps (kst m) z = Some w" "z \<noteq> q" "rx w \<noteq> NULL"
      "c_string (key w) = c_string (key (filled_in e x))"
    using assms(4) x(1,5) by (auto simp: double_rx_def)
  show ?thesis
    using x(1,4,2)
  proof (cases rule: rx_start_split [where L = L and e = e])
    case (fail rc cs x')
    then show ?thesis using assms(5) by auto
  next
    case (ok cs)
    let ?x = "(filled_in e x)\<lparr>tx := NULL\<rparr>" and ?c = "rx_core e x"
    let ?s = "accepted m q ?x cs"
    have fx: "qp_wf ?x" "listner ?x = Some l" using x by (simp_all add: filled_in_def)
    have pre: "trees_ok ?s" "qps ?s q = Some ?x" "listners ?s l = Some li" "qp_home ?s q = {}"
      and home: "qp_home ?s = qp_home (kst m)" and sw: "qps ?s z = Some w"
      using accepted_ok [OF inv assms(3) x(1), of ?x cs] x w by (simp_all add: accepted_def)
    show ?thesis
    proof (cases rule: qp_exists_cases [OF assms(1) pre(1,2) fx pre(3,4), where c = ?c and d = RX_QP, case_names linked found])
      case (linked s)
      then show ?thesis using home sw w by simp
    next
      case (found z' y)
      then have "z' = z" using home sw w by simp
      then show ?thesis using ok found(2,5) sw w(4) by (simp add: qp_dir_def)
    qed
  qed
qed

theorem double_accept_oops_witness:
  "start_new_connection plain_lib (ex_env 0x0200000A) (Rx_start 3) (kst ex5) = None"
proof (rule double_accept_oops [OF plain_lib_ok ex_reach5])
  show "thr ex5 1 = Rx (Rx_start 3)" by (simp add: ex5_def run_thread_def)
  have "c_string (key (ex_conn 0x0100000A 40)) = c_string (key (ex_conn 0x0200000A 41))"
    by (simp add: ex_conn_def conn_key_def bytes16_def bytes32_def drop_bit_eq_div)
  then show "double_rx (ex_env 0x0200000A) (kst ex5) 3"
    unfolding double_rx_def
    by (intro exI [of _ "ex_accepted 41"] exI [of _ 9] exI [of _ 1] exI [of _ "(ex_conn 0x0100000A 40)\<lparr>ref_cnt := 1\<rparr>"])
       (simp add: ex5_def ex2_def run_thread_def rx_core_def qp_home_def, simp add: ex_env_def ex_accepted_def ex_conn_def)
qed (simp add: ex_env_def)

text \<open>C20. If an accepted half times out while the half towards the server is still in \<open>kernel_connect\<close>, it
  frees the QP, and the other half writes to freed memory when the connection is established.\<close>

theorem impatient_use_after_free:
  assumes "rbtree_lib_ok L" and "reach conn_init (patient_step L) m"
    and "thr m i = Rx (Rx_wait c q)" and "thr m j = Tx (Tx_connect c' a q)" and "wait_rc e = 0"
    and "\<forall>k. rc_of e' k = 0"
  shows "\<exists>s'. start_new_connection L e (Rx_wait c q) (kst m) = Some (Rx_done 0, s') \<and> qps s' q = None \<and>
    start_new_connection_syn L e' (Tx_connect c' a q) s' = None"
proof -
  note inv = conn_reach [OF assms(1,2)]
  have tr: "trees_ok (kst m)" using inv by (simp add: conn_inv_def)
  obtain x l where x: "qps (kst m) q = Some x" "listner x = Some l" "tx x = ERR_PTR (- EINVAL)" "qp_home (kst m) q = {(l, c')}"
    using inv assms(4) by (rule at_connect)
  have "c' = c \<and> ref_cnt x = 1"
    using inv assms(3) by (cases rule: at_rx_wait) (use x in auto)
  then obtain s' ls cs where s': "wait_qp_leave L c q 0 (kst m) = Some (1, s')"
    "s' = (kst m)\<lparr>listners := ls, calls := cs, qps := (qps (kst m))(q := None)\<rparr>"
    using wait_qp_timeout [OF assms(1) tr, of q l c x] x by blast
  have "syn_at (thr m j) = Some a" using assms(4) by simp
  then obtain ad where "syns (kst m) a = Some ad" using inv unfolding conn_inv_def syns_ok_def by blast
  then have ad: "syns s' a = Some ad" using s'(2) by simp
  obtain r p ad' cs' where so: "syn_socket e' ad s' = (r, p, ad', s'\<lparr>calls := cs'\<rparr>)"
    "r = Inr () \<Longrightarrow> p = PTR (new_sock e')"
    using syn_socket_calls [of e' ad s'] by blast
  moreover have "fst (syn_socket e' ad s') = Inr ()"
    using assms(6) by (simp add: syn_socket_def do_call_def Let_def)
  ultimately have "start_new_connection_syn L e' (Tx_connect c' a q) s' = None"
    using ad s'(2) by (simp add: upd_qp_def)
  then show ?thesis using s' assms(5) by simp
qed

theorem impatient_use_after_free_witness:
  "\<exists>s'. start_new_connection plain_lib (ex_env 0) (Rx_wait 0 1) (kst ex4) = Some (Rx_done 0, s') \<and> qps s' 1 = None \<and>
    start_new_connection_syn plain_lib (ex_env 0) (Tx_connect 0 5 1) s' = None"
  by (rule impatient_use_after_free [OF plain_lib_ok ex_reach4, of 0 0 1 1])
     (simp_all add: ex4_def ex3_def ex2_def run_thread_def ex_env_def)

end
