(* ===== verification/Preconn_Tree.thy ===== *)
theory Preconn_Tree
  imports Rb_Tree
begin

text \<open>
  The pool of prepared connections of \<^verbatim>\<open>tcpsplit/preconn_rb_tree.h\<close>: a search tree from the address of a
  next hop to lists of QPs, one list per core, each with its length. The keys are compared by their
  32-bit difference like those of the listeners, and the same contract \<open>index_order\<close> applies.

  Seen from outside, the pool is a function from an address and a core to a stack of QPs; \<open>stacks\<close>
  reads it off a state.
\<close>

section \<open>Definitions\<close>

abbreviation (input) PER_CORE_POOL_MIN :: nat where "PER_CORE_POOL_MIN \<equiv> 4"
abbreviation (input) PER_CORE_POOL_MAX :: int where "PER_CORE_POOL_MAX \<equiv> 16"

record percpu_list =
  plist :: "addr list"
  len :: u32

text \<open>The per-core area is \<open>None\<close> when the pointer is \<open>NULL\<close>.\<close>

record cbn_preconnection =
  pcp_list :: "(cpu \<Rightarrow> percpu_list) option"
  pkey :: s32

record preconn_state =
  preconns :: "addr \<rightharpoonup> cbn_preconnection"
  preconn_root :: "addr tree"

text \<open>
  What the allocations return: the slab object (\<open>None\<close> when it fails) and what its memory holds, the
  per-core area with its memory, the cores.
\<close>

record preconn_env =
  new_preconn :: "addr option"
  preconn_mem :: cbn_preconnection
  percpu_area :: "(cpu \<Rightarrow> percpu_list) option"
  preconn_cpus :: "cpu list"

definition init_preconn :: "preconn_env \<Rightarrow> addr \<Rightarrow> s32 \<Rightarrow> preconn_state \<Rightarrow> (int \<times> preconn_state) option" where
  "init_preconn e p k s = do {
     x \<leftarrow> preconns s p;
     let x = x\<lparr>pkey := k, pcp_list := percpu_area e\<rparr>;
     (case pcp_list x of
        None \<Rightarrow> Some (- ENOMEM, s\<lparr>preconns := (preconns s)(p \<mapsto> x)\<rparr>)
      | Some l \<Rightarrow> do {
          let l = (\<lambda>c. if c \<in> set (preconn_cpus e) then \<lparr>plist = [], len = 0\<rparr> else l c);
          Some (0, s\<lparr>preconns := (preconns s)(p \<mapsto> x\<lparr>pcp_list := Some l\<rparr>)\<rparr>) }) }"

definition search_rb_preconn :: "s32 \<Rightarrow> preconn_state \<Rightarrow> addr option option" where
  "search_rb_preconn k s =
     rb_search (\<lambda>this. map_option (\<lambda>x. key_diff k (pkey x)) (preconns s this)) (preconn_root s)"

definition add_rb_preconn :: "rbtree_lib \<Rightarrow> addr \<Rightarrow> preconn_state \<Rightarrow> (addr option \<times> preconn_state) option" where
  "add_rb_preconn L data s = do {
     d \<leftarrow> preconns s data;
     r \<leftarrow> rb_walk (\<lambda>this. map_option (\<lambda>x. key_diff (pkey d) (pkey x)) (preconns s this)) data (preconn_root s);
     (case rb_insert_result L data (preconn_root s) r of
        (dup, root) \<Rightarrow> Some (dup, s\<lparr>preconn_root := root\<rparr>)) }"

text \<open>The failure of \<open>init_preconn\<close> frees the object and goes on.\<close>

definition get_rb_preconn :: "rbtree_lib \<Rightarrow> preconn_env \<Rightarrow> s32 \<Rightarrow> preconn_state \<Rightarrow> (addr option \<times> preconn_state) option" where
  "get_rb_preconn L e k s = do {
     p \<leftarrow> search_rb_preconn k s;
     if p \<noteq> None then Some (p, s)
     else (case new_preconn e of
        None \<Rightarrow> Some (None, s)
      | Some p \<Rightarrow> do {
          let s = s\<lparr>preconns := (preconns s)(p \<mapsto> preconn_mem e)\<rparr>;
          (rc, s) \<leftarrow> init_preconn e p k s;
          let s = (if rc \<noteq> 0 then s\<lparr>preconns := (preconns s)(p := None)\<rparr> else s);
          (dup, s) \<leftarrow> add_rb_preconn L p s;
          if dup \<noteq> None then Some (None, s\<lparr>preconns := (preconns s)(p := None)\<rparr>)
          else Some (Some p, s) }) }"

section \<open>The pool as stacks\<close>

definition preconn_keys :: "preconn_state \<Rightarrow> addr \<rightharpoonup> s32" where
  "preconn_keys s = (\<lambda>x. map_option pkey (preconns s x))"

definition preconn_map :: "preconn_state \<Rightarrow> s32 \<rightharpoonup> addr" where
  "preconn_map s = rb_map id (preconn_keys s) (preconn_root s)"

text \<open>The invariant: the tree is searchable, every entry has its per-core lists, and each length is right
  (a list that fits into memory is shorter than \<open>2^32\<close>).\<close>

definition pcpl_ok :: "percpu_list \<Rightarrow> bool" where
  "pcpl_ok l \<longleftrightarrow> unat (len l) = length (plist l)"

definition preconn_inv :: "s32 \<Rightarrow> cpu set \<Rightarrow> preconn_state \<Rightarrow> bool" where
  "preconn_inv b C s \<longleftrightarrow> rb_ordered key_diff (window b) (preconn_keys s) (inorder (preconn_root s)) \<and>
     (\<forall>p \<in> set_tree (preconn_root s). \<exists>x l. preconns s p = Some x \<and> pcp_list x = Some l \<and> (\<forall>c \<in> C. pcpl_ok (l c)))"

definition stacks :: "preconn_state \<Rightarrow> s32 \<Rightarrow> cpu \<Rightarrow> addr list" where
  "stacks s k c = (case preconn_map s k of
     None \<Rightarrow> []
   | Some p \<Rightarrow> (case preconns s p of Some x \<Rightarrow> (case pcp_list x of Some l \<Rightarrow> plist (l c) | None \<Rightarrow> []) | None \<Rightarrow> []))"

lemma search_preconn_map:
  assumes "preconn_inv b C s" and "window b k"
  shows "search_rb_preconn k s = Some (preconn_map s k)"
  using tid_order.search_map [of b "preconn_keys s" "preconn_root s" k] assms
  by (simp add: preconn_inv_def search_rb_preconn_def preconn_map_def preconn_keys_def
      map_option_comp2 [of "key_diff _" pkey])

lemma preconn_map_Some:
  assumes "preconn_inv b C s"
  shows "preconn_map s k = Some p \<longleftrightarrow> p \<in> set_tree (preconn_root s) \<and> map_option pkey (preconns s p) = Some k"
  using tid_order.map_eq_Some [of b "preconn_keys s" "preconn_root s"] assms
  by (simp add: preconn_map_def preconn_inv_def preconn_keys_def)

lemma preconn_fresh: "preconn_inv b C s \<Longrightarrow> preconns s p = None \<Longrightarrow> p \<notin> set_tree (preconn_root s)"
  by (force simp: preconn_inv_def)

lemma preconn_key_upd:
  fixes x :: cbn_preconnection
  assumes "preconn_inv b C s" and "preconns s p = None"
  defines "s1 \<equiv> s\<lparr>preconns := (preconns s)(p \<mapsto> x)\<rparr>"
  shows "rb_ordered key_diff (window b) (preconn_keys s1) (inorder (preconn_root s))"
    "rb_map id (preconn_keys s1) (preconn_root s) = preconn_map s"
proof -
  have k: "preconn_keys s1 q = preconn_keys s q" if "q \<in> set_tree (preconn_root s)" for q
    using that preconn_fresh [OF assms(1,2)] by (auto simp: preconn_keys_def s1_def)
  show "rb_ordered key_diff (window b) (preconn_keys s1) (inorder (preconn_root s))"
    using assms(1) rb_ordered_cong [of "inorder (preconn_root s)" "preconn_keys s1" "preconn_keys s"] k
    by (simp add: preconn_inv_def)
  show "rb_map id (preconn_keys s1) (preconn_root s) = preconn_map s"
    unfolding preconn_map_def by (rule rb_map_cong) (rule k)
qed

lemma add_preconn_map:
  assumes "rbtree_lib_ok L" and "rb_ordered key_diff (window b) (preconn_keys s) (inorder (preconn_root s))"
    and "preconns s d = Some x" and "window b (pkey x)"
  shows "\<exists>dup root. add_rb_preconn L d s = Some (dup, s\<lparr>preconn_root := root\<rparr>) \<and>
    rb_ordered key_diff (window b) (preconn_keys s) (inorder root) \<and> dup = preconn_map s (pkey x) \<and>
    (if dup = None then set_tree root = insert d (set_tree (preconn_root s)) \<and>
       rb_map id (preconn_keys s) root = (preconn_map s)(pkey x \<mapsto> d) else root = preconn_root s)"
proof -
  obtain dup root where r: "map_option (rb_insert_result L d (preconn_root s))
      (rb_walk (\<lambda>y. map_option (key_diff (pkey x)) (preconn_keys s y)) d (preconn_root s)) = Some (dup, root)"
    "rb_ordered key_diff (window b) (preconn_keys s) (inorder root)" "dup = preconn_map s (pkey x)"
    "if dup = None then set_tree root = insert d (set_tree (preconn_root s)) \<and>
       rb_map id (preconn_keys s) root = (preconn_map s)(pkey x \<mapsto> d) else root = preconn_root s"
    using tid_order.insert_map [OF assms(1,2), of d "pkey x"] assms(3,4)
    unfolding preconn_map_def id_apply by (auto simp: preconn_keys_def)
  then have "add_rb_preconn L d s = Some (dup, s\<lparr>preconn_root := root\<rparr>)"
    using assms(3) by (auto simp: add_rb_preconn_def preconn_keys_def option.map_comp comp_def bind_eq_Some_conv)
  then show ?thesis using r by blast
qed

text \<open>With memory available \<open>get_rb_preconn\<close> finds or makes the entry of an address, and the stacks are as
  before.\<close>

definition preconn_env_ok :: "cpu set \<Rightarrow> preconn_env \<Rightarrow> preconn_state \<Rightarrow> bool" where
  "preconn_env_ok C e s \<longleftrightarrow> (\<forall>p. new_preconn e = Some p \<longrightarrow> preconns s p = None) \<and> C \<subseteq> set (preconn_cpus e)"

lemma get_preconn_ok:
  assumes "rbtree_lib_ok L" and "preconn_inv b C s" and "window b k" and "preconn_env_ok C e s"
    and "new_preconn e \<noteq> None" and "percpu_area e \<noteq> None"
  shows "\<exists>p s'. get_rb_preconn L e k s = Some (Some p, s') \<and> preconn_inv b C s' \<and> preconn_map s' k = Some p \<and>
    (\<forall>k' c. c \<in> C \<longrightarrow> stacks s' k' c = stacks s k' c)"
proof (cases "preconn_map s k")
  case (Some p)
  then show ?thesis using search_preconn_map [OF assms(2,3)] assms(2) by (simp add: get_rb_preconn_def)
next
  case None
  obtain p l where p: "new_preconn e = Some p" "preconns s p = None" "percpu_area e = Some l"
    using assms(4-6) by (auto simp: preconn_env_ok_def)
  let ?l = "\<lambda>c. if c \<in> set (preconn_cpus e) then \<lparr>plist = [], len = 0\<rparr> else l c"
  define x where "x = (preconn_mem e)\<lparr>pkey := k, pcp_list := Some ?l\<rparr>"
  define s1 where "s1 = s\<lparr>preconns := (preconns s)(p \<mapsto> x)\<rparr>"
  note u = preconn_key_upd [OF assms(2) p(2), of x, folded s1_def] preconn_fresh [OF assms(2) p(2)]
  have m1: "preconn_map s1 = preconn_map s" using u(2) by (simp add: preconn_map_def s1_def)
  obtain root where r: "add_rb_preconn L p s1 = Some (None, s1\<lparr>preconn_root := root\<rparr>)"
    "rb_ordered key_diff (window b) (preconn_keys s1) (inorder root)" "set_tree root = insert p (set_tree (preconn_root s))"
    "rb_map id (preconn_keys s1) root = (preconn_map s)(k \<mapsto> p)"
    using add_preconn_map [OF assms(1), of b s1 p x] u assms(3) None m1 by (auto simp: s1_def x_def)
  let ?s' = "s1\<lparr>preconn_root := root\<rparr>"
  have ps: "preconns ?s' = (preconns s)(p \<mapsto> x)" by (simp add: s1_def)
  have m: "preconn_map ?s' = (preconn_map s)(k \<mapsto> p)" using r(4) by (simp add: preconn_map_def preconn_keys_def)
  have "get_rb_preconn L e k s = Some (Some p, ?s')"
    using p r(1) search_preconn_map [OF assms(2,3)] None
    by (simp add: get_rb_preconn_def init_preconn_def s1_def x_def Let_def)
  moreover have "preconn_inv b C ?s'"
    using r(2,3) assms(2,4) u(3) ps unfolding preconn_inv_def
    by (auto simp: preconn_keys_def x_def pcpl_ok_def preconn_env_ok_def)
  moreover have "stacks ?s' k' c = stacks s k' c" if "c \<in> C" for k' c
  proof (cases "preconn_map s k'")
    case None' : None
    then show ?thesis using m ps that assms(4) None
      by (auto simp: stacks_def x_def preconn_env_ok_def split: if_splits)
  next
    case (Some q)
    then have "q \<noteq> p" using u(3) by (auto simp: preconn_map_Some [OF assms(2)])
    then show ?thesis using Some None m ps by (auto simp: stacks_def)
  qed
  ultimately show ?thesis using m by auto
qed

text \<open>Pushing on and popping from a list of the pool, as \<open>add_preconn_qp\<close> and \<open>alloc_prexeisting_conn\<close> do.\<close>

definition upd_pcpl :: "addr \<Rightarrow> cpu \<Rightarrow> (percpu_list \<Rightarrow> percpu_list) \<Rightarrow> preconn_state \<Rightarrow> preconn_state option" where
  "upd_pcpl p c f s = do {
     x \<leftarrow> preconns s p;
     l \<leftarrow> pcp_list x;
     Some (s\<lparr>preconns := (preconns s)(p \<mapsto> x\<lparr>pcp_list := Some (l(c := f (l c)))\<rparr>)\<rparr>) }"

lemma upd_pcpl_ok:
  assumes "preconn_inv b C s" and "preconn_map s k = Some p" and "c \<in> C"
    and "\<And>l. pcpl_ok l \<Longrightarrow> plist l = stacks s k c \<Longrightarrow> pcpl_ok (f l) \<and> plist (f l) = g (plist l)"
  shows "\<exists>s'. upd_pcpl p c f s = Some s' \<and> preconn_inv b C s' \<and>
    stacks s' = (stacks s)(k := (stacks s k)(c := g (stacks s k c)))"
proof -
  obtain x l where x: "preconns s p = Some x" "pcp_list x = Some l" "\<forall>c \<in> C. pcpl_ok (l c)" "pkey x = k"
    "p \<in> set_tree (preconn_root s)"
    using assms(1,2) by (fastforce simp: preconn_map_Some preconn_inv_def)
  let ?x = "x\<lparr>pcp_list := Some (l(c := f (l c)))\<rparr>" let ?s' = "s\<lparr>preconns := (preconns s)(p \<mapsto> ?x)\<rparr>"
  have keys: "preconn_keys ?s' = preconn_keys s" using x by (auto simp: preconn_keys_def)
  then have m: "preconn_map ?s' = preconn_map s" by (simp add: preconn_map_def)
  have st: "stacks s k c = plist (l c)" for c using x assms(2) by (simp add: stacks_def)
  have f: "pcpl_ok (f (l c))" "plist (f (l c)) = g (plist (l c))" using assms(3,4) x(3) st by auto
  have "preconn_inv b C ?s'" using assms(1) keys f x by (auto simp: preconn_inv_def)
  moreover have "stacks ?s' k' c' = ((stacks s)(k := (stacks s k)(c := g (stacks s k c)))) k' c'" for k' c'
  proof (cases "preconn_map s k' = Some p")
    case True
    then have "k' = k" using x by (simp add: preconn_map_Some [OF assms(1)])
    then show ?thesis using x m f(2) st assms(2) by (simp add: stacks_def)
  next
    case False
    then show ?thesis using m assms(2) by (auto simp: stacks_def split: option.splits)
  qed
  ultimately show ?thesis using x by (auto simp: upd_pcpl_def fun_eq_iff)
qed

end
