(* ===== verification/Conn_Pool.thy ===== *)
theory Conn_Pool
  imports Preconn_Tree Rendezvous
begin

unbundle bit_operations_syntax

text \<open>
  Prepared connections between hops, \<^verbatim>\<open>tcpsplit/conn_pool.c\<close>. \<open>prealloc_connection\<close> opens connections to a
  next hop ahead of time and puts their QPs into the pool of \<^verbatim>\<open>preconn_rb_tree.h\<close>;
  \<open>start_new_pre_connection_syn\<close> takes one for a captured SYN and sends the SYN's addresses over it; the
  next hop accepted that connection in \<open>prec_conn_listner_server\<close> and waits for these addresses in
  \<open>start_new_pending_connection\<close>, which then connects onwards.

  The state adds the pool and the two lists of the file to the state of \<open>Qp_State\<close>. As in \<open>Connections\<close>,
  a thread is a program counter that stops where it sleeps while something shared is at stake.
\<close>

section \<open>State\<close>

text \<open>
  \<open>pre_conn_listner\<close> points to the variable \<open>server_s\<close> of the listening thread. \<open>server_frames\<close> holds its socket
  at its address, until the thread returns.
\<close>

record cp_state =
  base :: kstate
  preconn :: preconn_state
  pre_conn_list_client :: "addr list"
  pre_conn_list_server :: "addr list"
  pre_conn_listner :: "addr option"
  server_frames :: "addr \<rightharpoonup> sock"

text \<open>
  The environment of a step: that of the connection threads and of the pool, the bytes that
  \<open>kernel_recvmsg\<close> delivers, the uninitialised variables \<open>tx\<close> and \<open>sockets.dir\<close> on the stack, the address of
  the stack variable that the thread lends to others, and the value of \<open>kthread_should_stop\<close>.
\<close>

record cp_env =
  kenv :: env
  penv :: preconn_env
  recv_addr :: addresses
  stack_tx :: "sock kptr"
  stack_dir :: int
  stack_frame :: addr
  cp_stop :: bool

definition cp_run :: "pool_fn \<Rightarrow> cpu option \<Rightarrow> cp_state \<Rightarrow> cp_state" where
  "cp_run f c s = s\<lparr>base := log_call (run_in_pool f c) (base s)\<rparr>"

section \<open>The pool\<close>

text \<open>\<open>len\<close> is an \<open>int\<close> here.\<close>

fun prealloc_loop :: "addr option \<Rightarrow> u64 \<Rightarrow> cpu list \<Rightarrow> cp_state \<Rightarrow> cp_state option" where
  "prealloc_loop p arg [] s = Some s"
| "prealloc_loop p arg (c # cs) s = do {
     n \<leftarrow> (case p of None \<Rightarrow> Some 0
         | Some p \<Rightarrow> do { x \<leftarrow> preconns (preconn s) p; l \<leftarrow> pcp_list x; Some (sint (len (l c))) });
     let s = (if n < PER_CORE_POOL_MAX then (cp_run (Prealloc_connection arg) (Some c) ^^ PER_CORE_POOL_MIN) s else s);
     prealloc_loop p arg cs s }"

definition prealloc_connection_pool :: "cp_env \<Rightarrow> u64 \<Rightarrow> cp_state \<Rightarrow> cp_state option" where
  "prealloc_connection_pool e arg s = do {
     p \<leftarrow> search_rb_preconn (ucast arg) (preconn s);
     prealloc_loop p arg (preconn_cpus (penv e)) s }"

definition alloc_prexeisting_conn :: "cpu \<Rightarrow> u32 \<Rightarrow> cp_state \<Rightarrow> (addr option \<times> cp_state) option" where
  "alloc_prexeisting_conn c ip s = do {
     p \<leftarrow> search_rb_preconn ip (preconn s);
     let refill = cp_run (Prealloc_connection_pool (ucast ip)) None;
     (case p of
        None \<Rightarrow> Some (None, refill s)
      | Some p \<Rightarrow> do {
          x \<leftarrow> preconns (preconn s) p;
          l \<leftarrow> pcp_list x;
          (case plist (l c) of
             [] \<Rightarrow> Some (None, refill s)
           | elem # rest \<Rightarrow> do {
               pc \<leftarrow> upd_pcpl p c (\<lambda>l. l\<lparr>len := len l - 1, plist := tl (plist l)\<rparr>) (preconn s);
               Some (Some elem, refill (s\<lparr>preconn := pc\<rparr>)) }) }) }"

definition fill_preconn_address :: "u32 \<Rightarrow> addresses \<Rightarrow> addresses" where
  "fill_preconn_address ip a = a\<lparr>dest := (dest a)\<lparr>sin_family := AF_INET, sin_addr := ip, sin_port := htons PRECONN_SERVER_PORT\<rparr>\<rparr>"

definition add_preconn_qp :: "rbtree_lib \<Rightarrow> cp_env \<Rightarrow> cpu \<Rightarrow> addr \<Rightarrow> cp_state \<Rightarrow> (int \<times> cp_state) option" where
  "add_preconn_qp L e c q s = do {
     x \<leftarrow> qps (base s) q;
     (p, pc) \<leftarrow> get_rb_preconn L (penv e) (addr_d x) (preconn s);
     (case p of
        None \<Rightarrow> Some (- 1, s\<lparr>preconn := pc\<rparr>)
      | Some p \<Rightarrow> do {
          pc \<leftarrow> upd_pcpl p c (\<lambda>l. l\<lparr>plist := q # plist l, len := len l + 1\<rparr>) pc;
          Some (0, s\<lparr>preconn := pc\<rparr>) }) }"

text \<open>The socket calls of \<open>prealloc_connection\<close>: the value of \<open>rc\<close> and the variable \<open>tx\<close>, which nothing
  initialises when the socket is not created.\<close>

definition prealloc_socket :: "cp_env \<Rightarrow> addresses \<Rightarrow> kstate \<Rightarrow> int \<times> sock kptr \<times> kstate" where
  "prealloc_socket e a s =
     (let (rc, s) = do_call (kenv e) sock_create_kern s in
      if rc \<noteq> 0 then (rc, stack_tx e, s) else
      let t = new_sock (kenv e); (rc, s) = do_call (kenv e) (kernel_setsockopt t SO_MARK CBN_CORE_ROUTE_MARK) s in
      if rc < 0 then (rc, PTR t, s) else
      let (rc, s) = do_call (kenv e) (kernel_setsockopt t SO_KEEPALIVE 1) s in
      if rc < 0 then (rc, PTR t, s) else
      let (rc, s) = do_call (kenv e) (kernel_setsockopt t TCP_NODELAY 1) s in
      if rc < 0 then (rc, PTR t, s) else
      let (rc, s) = do_call (kenv e) (kernel_connect t (dest a)) s in
      (rc, PTR t, s))"

definition zero_addresses :: addresses where
  "zero_addresses = \<lparr>dest = \<lparr>sin_family = 0, sin_port = 0, sin_addr = 0\<rparr>,
     src = \<lparr>sin_family = 0, sin_port = 0, sin_addr = 0\<rparr>, hop_addr = 0, mark = 0\<rparr>"

definition prealloc_connection :: "rbtree_lib \<Rightarrow> cp_env \<Rightarrow> cpu \<Rightarrow> u64 \<Rightarrow> cp_state \<Rightarrow> (int \<times> cp_state) option" where
  "prealloc_connection L e c arg s = do {
     let a = fill_preconn_address (ucast arg) zero_addresses;
     q \<leftarrow> new_qp (kenv e);
     let x = set_port_d (sin_port (dest a)) (set_addr_d (sin_addr (dest a)) ((qp_mem (kenv e))\<lparr>ref_cnt := 0\<rparr>));
     let (rc, t, b) = prealloc_socket e a ((base s)\<lparr>qps := (qps (base s))(q \<mapsto> x)\<rparr>);
     let s = s\<lparr>base := b\<rparr>;
     (rc, s) \<leftarrow> (if rc \<noteq> 0 then Some (rc, s)
       else do {
         b \<leftarrow> upd_qp q (\<lambda>x. x\<lparr>tx := t, rx := NULL\<rparr>) (base s);
         add_preconn_qp L e c q (s\<lparr>base := b\<rparr>) });
     Some (rc, if rc \<noteq> 0 then s\<lparr>base := sock_call sock_release t (base s)\<rparr> else s) }"

section \<open>The near side\<close>

definition forward_conn_info :: "cp_env \<Rightarrow> sock \<Rightarrow> addresses \<Rightarrow> kstate \<Rightarrow> int \<times> kstate" where
  "forward_conn_info e t a s = do_call (kenv e) (sendmsg_addresses t a) s"

text \<open>\<open>Ps_syn rc pc\<close> is a thread inside its call of \<open>start_new_connection_syn\<close>, whose result it ignores.\<close>

datatype ps_pc =
    Ps_start cpu addr
  | Ps_forward cpu addr addr
  | Ps_wait int cpu addr
  | Ps_relay addr sockets
  | Ps_syn int tx_pc
  | Ps_done int

definition pre_ready :: "cp_env \<Rightarrow> addr \<Rightarrow> cp_state \<Rightarrow> (ps_pc \<times> cp_state) option" where
  "pre_ready e q s = do {
     x \<leftarrow> qps (base s) q;
     Some (Ps_relay q \<lparr>sock_rx = tx x, sock_tx = rx x, sock_dir = stack_dir e\<rparr>, s) }"

fun start_new_pre_connection_syn :: "rbtree_lib \<Rightarrow> cp_env \<Rightarrow> ps_pc \<Rightarrow> cp_state \<Rightarrow> (ps_pc \<times> cp_state) option" where
  "start_new_pre_connection_syn L e (Ps_start c a) s = do {
     ad \<leftarrow> syns (base s) a;
     (q, s) \<leftarrow> alloc_prexeisting_conn c (hop_addr ad) s;
     (case q of
        None \<Rightarrow> Some (Ps_syn 0 (Tx_start c a), s)
      | Some q \<Rightarrow> do {
          b \<leftarrow> upd_qp q (set_conn (sin_addr (dest ad)) (sin_port (src ad)) (sin_port (dest ad)) (sin_addr (src ad))) (base s);
          li \<leftarrow> search_rb_listner (listners b) (listner_root b) (mark ad);
          (case li of
             None \<Rightarrow> Some (Ps_done 0, s\<lparr>base := b\<rparr>)
           | Some l \<Rightarrow> do {
               b \<leftarrow> upd_qp q (\<lambda>x. x\<lparr>listner := Some l\<rparr>) b;
               (r, b) \<leftarrow> qp_exists L c q TX_QP b;
               (case r of
                  None \<Rightarrow> Some (Ps_done 0, s\<lparr>base := b\<rparr>)
                | Some q \<Rightarrow> Some (Ps_forward c a q, s\<lparr>base := b\<rparr>)) }) }) }"
| "start_new_pre_connection_syn L e (Ps_forward c a q) s = do {
     x \<leftarrow> qps (base s) q;
     t \<leftarrow> sock_of (tx x);
     ad \<leftarrow> syns (base s) a;
     let (rc, b) = forward_conn_info e t ad (base s);
     if rc \<le> 0 then Some (Ps_syn rc (Tx_start c a), s\<lparr>base := b\<rparr>)
     else do {
       let b = b\<lparr>syns := (syns b)(a := None)\<rparr>;
       (asleep, b) \<leftarrow> wait_qp_enter L c q TX_QP b;
       if asleep then Some (Ps_wait rc c q, s\<lparr>base := b\<rparr>) else pre_ready e q (s\<lparr>base := b\<rparr>) } }"
| "start_new_pre_connection_syn L e (Ps_wait rc c q) s = do {
     (err, b) \<leftarrow> wait_qp_leave L c q (wait_rc (kenv e)) (base s);
     if err \<noteq> 0 then Some (Ps_done rc, s\<lparr>base := b\<rparr>) else pre_ready e q (s\<lparr>base := b\<rparr>) }"
| "start_new_pre_connection_syn L e (Ps_relay q socks) s = do {
     (r, b) \<leftarrow> half_duplex (hd_env_of (kenv e)) q (base s);
     Some (Ps_done (res_rc r), s\<lparr>base := b\<rparr>) }"
| "start_new_pre_connection_syn L e (Ps_syn rc pc) s = do {
     (pc, b) \<leftarrow> start_new_connection_syn L (kenv e) pc (base s);
     Some (case pc of Tx_done _ \<Rightarrow> Ps_done rc | _ \<Rightarrow> Ps_syn rc pc, s\<lparr>base := b\<rparr>) }"
| "start_new_pre_connection_syn L e (Ps_done rc) s = Some (Ps_done rc, s)"

section \<open>The far side\<close>

definition preconn_wait_for_next_hop :: "cp_env \<Rightarrow> sock \<Rightarrow> kstate \<Rightarrow> int \<times> addresses \<times> kstate" where
  "preconn_wait_for_next_hop e r s =
     (case do_call (kenv e) (recvmsg_addresses r) s of (rc, s) \<Rightarrow> (rc, recv_addr e, s))"

text \<open>The calls on the new socket once the addresses are there; \<open>Inl rc\<close> is a jump to \<open>connect_fail\<close>.\<close>

definition pending_socket :: "cp_env \<Rightarrow> sock \<Rightarrow> addresses \<Rightarrow> kstate \<Rightarrow> (int + unit) \<times> kstate" where
  "pending_socket e t a s =
     (let (rc, s) = do_call (kenv e) (kernel_setsockopt t TCP_NODELAY 1) s in
      if rc < 0 then (Inl rc, s) else
      let (rc, s) = do_call (kenv e) (kernel_setsockopt t SO_MARK (mark a)) s in
      if rc < 0 then (Inl rc, s) else
      let (r, a, s) =
        (if ip_transparent s \<noteq> 0 then
           let (rc, s) = do_call (kenv e) (kernel_setsockopt t IP_TRANSPARENT 1) s in
           if rc \<noteq> 0 then (Inl rc, a, s) else
           let a = a\<lparr>src := (src a)\<lparr>sin_family := AF_INET, sin_port := 0\<rparr>\<rparr>;
               (rc, s) = do_call (kenv e) (kernel_bind t (src a)) s in
           if rc \<noteq> 0 then (Inl rc, a, s) else (Inr (), a, s)
         else (Inr (), a, s)) in
      case r of Inl rc \<Rightarrow> (Inl rc, s) | Inr _ \<Rightarrow>
      let a = a\<lparr>dest := (dest a)\<lparr>sin_family := AF_INET\<rparr>\<rparr>;
          (rc, s) = do_call (kenv e) (kernel_connect t (dest a)) s in
      if rc \<noteq> 0 then (Inl rc, s) else (Inr (), s))"

datatype pn_pc = Pn_start addr | Pn_relay addr addr sockets | Pn_done int

text \<open>The pool thread of the other direction gets the address of the array \<open>ptr_pair\<close> on this thread's stack,
  which points to \<open>sockets_rx\<close>, on the same stack, and to the QP. All of it is gone when this thread returns.\<close>

fun start_new_pending_connection :: "rbtree_lib \<Rightarrow> cp_env \<Rightarrow> cpu \<Rightarrow> pn_pc \<Rightarrow> kstate \<Rightarrow> (pn_pc \<times> kstate) option" where
  "start_new_pending_connection L e c (Pn_start q) s = (case do_call (kenv e) sock_create_kern s of (rc, s) \<Rightarrow>
     if rc \<noteq> 0 then Some (Pn_done rc, s) else do {
     x \<leftarrow> qps s q;
     r \<leftarrow> sock_of (rx x);
     let t = new_sock (kenv e);
     let (rc, a, s) = preconn_wait_for_next_hop e r s;
     if rc \<le> 0 then Some (Pn_done rc, s) else (case pending_socket e t a s of
       (Inl rc, s) \<Rightarrow> Some (Pn_done rc, s)
     | (Inr _, s) \<Rightarrow> do {
         s \<leftarrow> upd_qp q (\<lambda>x. x\<lparr>tx := PTR t\<rparr>) s;
         s \<leftarrow> get_qp L c q s;
         s \<leftarrow> get_qp L c q s;
         let f = stack_frame e;
         let s = s\<lparr>pair_frames := (pair_frames s)(f \<mapsto> (\<lparr>sock_rx = PTR t, sock_tx = PTR r, sock_dir = 0\<rparr>, q))\<rparr>;
         let s = log_call (run_in_pool (Start_half_duplex f) None) s;
         Some (Pn_relay f q \<lparr>sock_rx = PTR r, sock_tx = PTR t, sock_dir = 1\<rparr>, s) }) })"
| "start_new_pending_connection L e c (Pn_relay f q socks) s = do {
     (r, s) \<leftarrow> half_duplex (hd_env_of (kenv e)) q s;
     Some (Pn_done 0, s\<lparr>pair_frames := (pair_frames s)(f := None)\<rparr>) }"
| "start_new_pending_connection L e c (Pn_done rc) s = Some (Pn_done rc, s)"

text \<open>The whole relay loop of the pool thread is one step, so the pointers to the other thread's stack must be good
  when it is taken. In the code they are read before the loop and in each of its iterations: a thread that is already
  in its last \<open>kernel_recvmsg\<close> or \<open>kernel_sendmsg\<close> when the other one returns gets away with it.\<close>

definition start_half_duplex :: "cp_env \<Rightarrow> addr \<Rightarrow> kstate \<Rightarrow> (int \<times> kstate) option" where
  "start_half_duplex e args s = do {
     (socks, q) \<leftarrow> pair_frames s args;
     (r, s) \<leftarrow> half_duplex (hd_env_of (kenv e)) q s;
     Some (0, s) }"

datatype pl_pc = Pl_start u64 | Pl_accept addr sock | Pl_done int

definition preconn_resgister_server :: "addr \<Rightarrow> cp_state \<Rightarrow> cp_state" where
  "preconn_resgister_server server s = s\<lparr>pre_conn_listner := Some server\<rparr>"

text \<open>The label \<open>out\<close>: the socket is released, and with the thread its stack goes away.\<close>

definition listner_out :: "addr \<Rightarrow> sock \<Rightarrow> cp_state \<Rightarrow> cp_state" where
  "listner_out f k s = s\<lparr>base := log_call (sock_release k) (base s), server_frames := (server_frames s)(f := None)\<rparr>"

text \<open>The calls before the loop; \<open>Inl\<close> is a jump to \<open>error\<close> with the socket, if there is one.\<close>

definition listner_socket :: "cp_env \<Rightarrow> u64 \<Rightarrow> kstate \<Rightarrow> (int \<times> sock option + sock) \<times> kstate" where
  "listner_socket e arg s =
     (let prt = ucast arg :: u32; (rc, s) = do_call (kenv e) sock_create_kern s in
      if rc \<noteq> 0 then (Inl (rc, None), s) else
      let k = new_sock (kenv e);
          srv_addr = \<lparr>sin_family = AF_INET, sin_port = htons (ucast prt), sin_addr = htonl 0\<rparr>;
          (rc, s) = do_call (kenv e) (kernel_bind k srv_addr) s in
      if rc \<noteq> 0 then (Inl (rc, Some k), s) else
      let (rc, s) = do_call (kenv e) (kernel_setsockopt k SO_MARK CBN_CORE_ROUTE_MARK) s in
      if rc < 0 then (Inl (rc, Some k), s) else
      let (rc, s) = do_call (kenv e) (kernel_listen k 64) s in
      if rc \<noteq> 0 then (Inl (rc, Some k), s) else (Inr k, s))"

fun prec_conn_listner_server :: "cp_env \<Rightarrow> pl_pc \<Rightarrow> cp_state \<Rightarrow> (pl_pc \<times> cp_state) option" where
  "prec_conn_listner_server e (Pl_start arg) s = (case listner_socket e arg (base s) of
     (Inl (rc, k), b) \<Rightarrow>
       Some (Pl_done rc, s\<lparr>base := (case k of Some k \<Rightarrow> log_call (sock_release k) b | None \<Rightarrow> b)\<rparr>)
   | (Inr k, b) \<Rightarrow> (let f = stack_frame e in
       Some (Pl_accept f k, preconn_resgister_server f (s\<lparr>base := b, server_frames := (server_frames s)(f \<mapsto> k)\<rparr>))))"
| "prec_conn_listner_server e (Pl_accept f k) s = (case do_call (kenv e) (kernel_accept k) (base s) of (rc, b) \<Rightarrow>
     if rc \<noteq> 0 then Some (Pl_done rc, listner_out f k (s\<lparr>base := b\<rparr>)) else do {
     q \<leftarrow> new_qp (kenv e);
     let x = (set_tid 0 ((qp_mem (kenv e))\<lparr>ref_cnt := 0, rx := PTR (new_sock (kenv e))\<rparr>))\<lparr>listner := None\<rparr>;
     let b = log_call (run_in_pool (Start_new_pending_connection q) None) (b\<lparr>qps := (qps b)(q \<mapsto> x)\<rparr>);
     if cp_stop e then Some (Pl_done 0, listner_out f k (s\<lparr>base := b\<rparr>))
     else Some (Pl_accept f k, s\<lparr>base := b\<rparr>) })"
| "prec_conn_listner_server e (Pl_done rc) s = Some (Pl_done rc, s)"

section \<open>Commands, loading and unloading\<close>

fun build_loop :: "s32 \<Rightarrow> s32 list \<Rightarrow> s32" where
  "build_loop ip [] = ip"
| "build_loop ip (x # xs) = (if sint x > 255 then 0 else build_loop (push_bit 8 ip OR x) xs)"

definition build_ip :: "s32 list \<Rightarrow> s32" where
  "build_ip array = build_loop 0 (take 4 array)"

definition preconn_write_cb :: "cpu list \<Rightarrow> s32 list \<Rightarrow> cp_state \<Rightarrow> cp_state" where
  "preconn_write_cb cpus array s =
     (let ip = scast (build_ip array) :: u64 in
      if ip = 0 then s
      else let ip = ucast (htonl (ucast ip)) :: u64
           in fold (\<lambda>c. cp_run (Prealloc_connection ip) (Some c) ^^ PER_CORE_POOL_MIN) cpus s)"

text \<open>Releasing the sockets of a list of QPs; \<open>sock_release\<close> needs a socket.\<close>

fun clear_list :: "(cbn_qp \<Rightarrow> sock kptr) \<Rightarrow> addr list \<Rightarrow> kstate \<Rightarrow> kstate option" where
  "clear_list dir [] s = Some s"
| "clear_list dir (q # qs) s = do {
     x \<leftarrow> qps s q;
     k \<leftarrow> sock_of (dir x);
     let s = log_call (sock_release k) s;
     clear_list dir qs (s\<lparr>qps := (qps s)(q := None)\<rparr>) }"

definition clear_client_pre_connections :: "cp_state \<Rightarrow> cp_state option" where
  "clear_client_pre_connections s = do {
     b \<leftarrow> clear_list tx (pre_conn_list_client s) (base s);
     Some (s\<lparr>base := b, pre_conn_list_client := []\<rparr>) }"

definition cbn_pre_connect_init :: "cp_state \<Rightarrow> pl_pc \<times> cp_state" where
  "cbn_pre_connect_init s =
     (Pl_start (ucast PRECONN_SERVER_PORT), s\<lparr>pre_conn_list_client := [], pre_conn_list_server := []\<rparr>)"

definition cbn_pre_connect_end :: "cp_state \<Rightarrow> cp_state option" where
  "cbn_pre_connect_end s = do {
     s \<leftarrow> (case pre_conn_listner s of
        Some f \<Rightarrow> do {
          k \<leftarrow> server_frames s f;
          Some (s\<lparr>base := log_call (kernel_sock_shutdown k) (base s)\<rparr>) }
      | None \<Rightarrow> Some s);
     s \<leftarrow> clear_client_pre_connections s;
     b \<leftarrow> clear_list rx (pre_conn_list_server s) (base s);
     Some (s\<lparr>base := b, pre_conn_list_server := []\<rparr>) }"

section \<open>Lemmas on the pool\<close>

lemma cp_run_sel [simp]: "preconn (cp_run f c s) = preconn s" "base (cp_run f c s) = log_call (run_in_pool f c) (base s)"
  by (simp_all add: cp_run_def)

text \<open>The stack that is popped, with what the pool is asked to do.\<close>

abbreviation pool_at :: "cp_state \<Rightarrow> u32 \<Rightarrow> cpu \<Rightarrow> addr list" where
  "pool_at s \<equiv> stacks (preconn s)"

lemma stack_entry:
  assumes "preconn_inv b C (preconn s)" and "preconn_map (preconn s) k = Some p" and "c \<in> C"
  obtains x l where "preconns (preconn s) p = Some x" "pcp_list x = Some l" "plist (l c) = pool_at s k c" "pcpl_ok (l c)"
proof -
  obtain x l where x: "preconns (preconn s) p = Some x" "pcp_list x = Some l" "\<forall>c \<in> C. pcpl_ok (l c)"
    using assms(1,2) by (auto simp: preconn_map_Some preconn_inv_def)
  then show thesis using that [OF x(1,2)] assms(2,3) by (simp add: stacks_def)
qed

lemma alloc_ok:
  assumes "preconn_inv b C (preconn s)" and "window b k" and "c \<in> C"
  shows "\<exists>pc. alloc_prexeisting_conn c k s = Some (case pool_at s k c of [] \<Rightarrow> None | q # _ \<Rightarrow> Some q,
      s\<lparr>preconn := pc, base := log_call (run_in_pool (Prealloc_connection_pool (ucast k)) None) (base s)\<rparr>) \<and>
    preconn_inv b C pc \<and> stacks pc = (pool_at s)(k := (pool_at s k)(c := tl (pool_at s k c)))"
proof (cases "preconn_map (preconn s) k")
  case None
  then have "pool_at s k c = []" by (simp add: stacks_def)
  then show ?thesis
    using None search_preconn_map [OF assms(1,2)] assms(1)
    by (auto simp: alloc_prexeisting_conn_def cp_run_def fun_upd_idem intro!: exI [of _ "preconn s"])
next
  case (Some p)
  obtain x l where x: "preconns (preconn s) p = Some x" "pcp_list x = Some l" "plist (l c) = pool_at s k c" "pcpl_ok (l c)"
    using stack_entry [OF assms(1) Some assms(3)] .
  show ?thesis
  proof (cases "pool_at s k c")
    case Nil
    then show ?thesis
      using Some x search_preconn_map [OF assms(1,2)] assms(1)
      by (auto simp: alloc_prexeisting_conn_def cp_run_def fun_upd_idem intro!: exI [of _ "preconn s"])
  next
    case (Cons q rest)
    let ?f = "\<lambda>l. l\<lparr>len := len l - 1, plist := tl (plist l)\<rparr>"
    have "pcpl_ok (?f l) \<and> plist (?f l) = tl (plist l)" if "pcpl_ok l" "plist l = pool_at s k c" for l
    proof -
      have "len l \<noteq> 0" using that Cons by (auto simp: pcpl_ok_def)
      then show ?thesis using that Cons by (auto simp: pcpl_ok_def unat32_dec)
    qed
    then obtain pc where "upd_pcpl p c ?f (preconn s) = Some pc" "preconn_inv b C pc"
      "stacks pc = (pool_at s)(k := (pool_at s k)(c := tl (pool_at s k c)))"
      using upd_pcpl_ok [OF assms(1) Some assms(3), of ?f tl] by blast
    then show ?thesis
      using Some x Cons search_preconn_map [OF assms(1,2)]
      by (auto simp: alloc_prexeisting_conn_def cp_run_def intro!: exI [of _ pc])
  qed
qed

lemma add_ok:
  assumes "rbtree_lib_ok L" and "preconn_inv b C (preconn s)" and "c \<in> C" and "preconn_env_ok C (penv e) (preconn s)"
    and "new_preconn (penv e) \<noteq> None" and "percpu_area (penv e) \<noteq> None"
    and x: "qps (base s) q = Some x" "window b (addr_d x)" "length (pool_at s (addr_d x) c) < 2 ^ 32 - 1"
  shows "\<exists>pc. add_preconn_qp L e c q s = Some (0, s\<lparr>preconn := pc\<rparr>) \<and> preconn_inv b C pc \<and>
    (\<forall>k' c'. c' \<in> C \<longrightarrow> stacks pc k' c' = (if k' = addr_d x \<and> c' = c then q # pool_at s k' c' else pool_at s k' c'))"
proof -
  let ?f = "\<lambda>l. l\<lparr>plist := q # plist l, len := len l + 1\<rparr>"
  obtain p s1 where s1: "get_rb_preconn L (penv e) (addr_d x) (preconn s) = Some (Some p, s1)" "preconn_inv b C s1"
    "preconn_map s1 (addr_d x) = Some p" "\<forall>k' c. c \<in> C \<longrightarrow> stacks s1 k' c = pool_at s k' c"
    using get_preconn_ok [OF assms(1,2) x(2) assms(4-6)] by blast
  have "pcpl_ok (?f l) \<and> plist (?f l) = q # plist l" if "pcpl_ok l" "plist l = stacks s1 (addr_d x) c" for l
  proof -
    have "unat (len l) < 2 ^ 32 - 1" using that s1(4) assms(3) x(3) by (simp add: pcpl_ok_def)
    then have "unat (len l + 1) = Suc (unat (len l))" by (simp add: unat_word_ariths)
    then show ?thesis using that(1) by (simp add: pcpl_ok_def)
  qed
  then obtain s2 where s2: "upd_pcpl p c ?f s1 = Some s2" "preconn_inv b C s2"
    "stacks s2 = (stacks s1)(addr_d x := (stacks s1 (addr_d x))(c := q # stacks s1 (addr_d x) c))"
    using upd_pcpl_ok [OF s1(2,3) assms(3), of ?f "\<lambda>xs. q # xs"] by blast
  have "add_preconn_qp L e c q s = Some (0, s\<lparr>preconn := s2\<rparr>)"
    using x(1) s1(1) s2(1) by (simp add: add_preconn_qp_def)
  then show ?thesis using s2(2,3) s1(4) assms(3) by (auto intro!: exI [of _ s2])
qed

section \<open>Lemmas on the rendezvous\<close>

text \<open>The key of the connection of a captured SYN.\<close>

definition conn_of :: "addresses \<Rightarrow> u8 list" where
  "conn_of ad = conn_key (sin_port (src ad)) (sin_port (dest ad)) (sin_addr (src ad)) (sin_addr (dest ad))"

text \<open>The two outcomes of \<open>qp_exists\<close> that matter here: no other half, and a half of the same direction.\<close>

lemma qp_exists_unpaired:
  assumes "rbtree_lib_ok L" and "trees_ok s" and "qps s q = Some x" and "qp_wf x" and "listner x = Some l"
    and "listners s l = Some li" and "qp_home s q = {}"
    and un: "\<forall>z y. (l, c) \<in> qp_home s z \<longrightarrow> qps s z = Some y \<longrightarrow> z \<noteq> q \<longrightarrow> c_string (key y) \<noteq> c_string (key x)"
  shows "\<exists>s2. qp_exists L c q dir s = Some (Some q, s2) \<and> trees_ok s2 \<and> same_listners s s2 \<and> (\<exists>ls. s2 = s\<lparr>listners := ls\<rparr>) \<and>
    (l, c) \<in> qp_home s2 q"
proof (cases rule: qp_exists_cases [OF assms(1-7), where c = c and d = dir, case_names linked found])
  case (linked s')
  then show ?thesis by auto
next
  case (found z y)
  then show ?thesis using un by blast
qed

lemma qp_exists_taken:
  assumes "rbtree_lib_ok L" and "trees_ok s" and "qps s p = Some x" and "qp_wf x" and "listner x = Some l"
    and "listners s l = Some li" and "qp_home s p = {}"
    and "(l, c) \<in> qp_home s q" and "qps s q = Some y" and "c_string (key y) = c_string (key x)" and "qp_dir y dir \<noteq> NULL"
  shows "qp_exists L c p dir s = Some (None, s)"
proof (cases rule: qp_exists_cases [OF assms(1-7), where c = c and d = dir, case_names linked found])
  case (linked s')
  then show ?thesis using assms(8-10) by blast
next
  case (found z y')
  then have "z = q" using assms(8-10) by blast
  then show ?thesis using found(2,5) assms(9,11) by simp
qed

text \<open>A thread whose SYN has a QP in the tree already gives up before it makes a socket.\<close>

lemma start_syn_taken:
  assumes "rbtree_lib_ok L" and "trees_ok s" and "syns s a = Some ad" and "new_qp e = Some p" and "qps s p = None"
    and "qp_wf (qp_mem e)" and "search_rb_listner (listners s) (listner_root s) (mark ad) = Some (Some l)"
    and "(l, c) \<in> qp_home s q" and "qps s q = Some y" and "key y = conn_of ad" and "tx y \<noteq> NULL"
  shows "\<exists>x. start_new_connection_syn L e (Tx_start c a) s =
    Some (Tx_done 0, s\<lparr>qps := (qps s)(p \<mapsto> x), syns := (syns s)(a := None)\<rparr>)"
proof -
  define x where "x = (qp_mem e)\<lparr>key := conn_of ad, ref_cnt := 0, rx := NULL, tx := ERR_PTR (- EINVAL), listner := Some l\<rparr>"
  let ?s = "s\<lparr>qps := (qps s)(p \<mapsto> x)\<rparr>"
  have np: "qp_home s p = {}" using home_live [OF assms(2), of _ p] assms(5) by auto
  then have "trees_ok ?s" by (intro trees_ok_cong [OF assms(2)]) auto
  moreover obtain li where "listners s l = Some li" using assms(8) by (auto elim: qp_homeE)
  ultimately have "qp_exists L c p TX_QP ?s = Some (None, ?s)"
    using np assms(5,6,8-11)
    by (intro qp_exists_taken [OF assms(1), where q = q and y = y and x = x]) (auto simp: x_def conn_of_def qp_dir_def)
  moreover have "(set_conn (sin_addr (dest ad)) (sin_port (src ad)) (sin_port (dest ad)) (sin_addr (src ad)) (qp_mem e))
      \<lparr>ref_cnt := 0, rx := NULL, tx := ERR_PTR (- EINVAL), listner := Some l\<rparr> = x"
    using assms(6) by (simp add: set_conn_eq conn_of_def x_def)
  ultimately show ?thesis using assms(3,4,7) by (auto simp: Let_def)
qed

text \<open>The calls that open the socket towards the server of a connection.\<close>

definition connect_calls :: "u32 \<Rightarrow> sock \<Rightarrow> addresses \<Rightarrow> kcall list" where
  "connect_calls transparent t ad =
     [kernel_setsockopt t TCP_NODELAY 1, kernel_setsockopt t SO_MARK (mark ad)] @
     (if transparent = 0 then [] else [kernel_setsockopt t IP_TRANSPARENT 1,
       kernel_bind t ((src ad)\<lparr>sin_family := AF_INET, sin_port := 0\<rparr>)]) @
     [kernel_connect t ((dest ad)\<lparr>sin_family := AF_INET\<rparr>)]"

text \<open>The far side when the record arrives, which \<open>kernel_recvmsg\<close> reports by its length, and the other calls
  return \<open>0\<close>.\<close>

definition far_connects :: "cp_env \<Rightarrow> sock \<Rightarrow> bool" where
  "far_connects e r \<longleftrightarrow> 0 < rc_of (kenv e) (recvmsg_addresses r) \<and> (\<forall>k. k \<noteq> recvmsg_addresses r \<longrightarrow> rc_of (kenv e) k = 0)"

definition lent :: "sock \<Rightarrow> sock \<Rightarrow> addr \<Rightarrow> sockets \<times> addr" where
  "lent t r q = (\<lparr>sock_rx = PTR t, sock_tx = PTR r, sock_dir = 0\<rparr>, q)"

lemma pending_run:
  assumes e: "far_connects e r" and x: "qps s q = Some x" "rx x = PTR r" "ref_cnt x = 0" "listner x = None"
  defines "t \<equiv> new_sock (kenv e)"
  shows "start_new_pending_connection L e c (Pn_start q) s =
    Some (Pn_relay (stack_frame e) q \<lparr>sock_rx = PTR r, sock_tx = PTR t, sock_dir = 1\<rparr>,
      s\<lparr>qps := (qps s)(q \<mapsto> x\<lparr>tx := PTR t, ref_cnt := 2\<rparr>), pair_frames := (pair_frames s)(stack_frame e \<mapsto> lent t r q),
        calls := calls s @ [sock_create_kern, recvmsg_addresses r] @ connect_calls (ip_transparent s) t (recv_addr e) @
          [run_in_pool (Start_half_duplex (stack_frame e)) None]\<rparr>)"
proof -
  have rc: "rc_of (kenv e) k = 0" if "k \<noteq> recvmsg_addresses r" for k using e that by (simp add: far_connects_def)
  have "pending_socket e t a b = (Inr (), b\<lparr>calls := calls b @ connect_calls (ip_transparent b) t a\<rparr>)" for a b
    by (cases b) (simp add: pending_socket_def do_call_def log_call_def rc connect_calls_def Let_def)
  moreover have "0 < rc_of (kenv e) (recvmsg_addresses r)" using e by (simp add: far_connects_def)
  ultimately show ?thesis using x
    by (cases s) (simp add: do_call_def sock_of_def preconn_wait_for_next_hop_def upd_qp_def get_qp_def rc t_def lent_def
        fin_connected_qp_def log_call_def Let_def)
qed

section \<open>Lemmas on addresses\<close>

lemma octet_le: "\<not> 255 < sint (ucast (b :: u8) :: s32)"
proof -
  have b: "0 \<le> uint b" "uint b < 256" using uint_lt2p [of b] by simp_all
  have "- (2 ^ 31) \<le> (0 :: int)" by simp
  from this b(1) have l: "- (2 ^ 31) \<le> uint b" by (rule order.trans)
  have "uint b < 2 ^ 31" using b(2) by simp
  from signed_take_bit_int_eq_self [OF l this] have "sint (ucast b :: s32) = uint b"
    by (simp add: sint_uint uint_up_ucast is_up)
  then show ?thesis using b by simp
qed

lemma bit_byte_masks: "bit (0xFF00 :: int) n \<longleftrightarrow> 8 \<le> n \<and> n < 16" "bit (0xFF :: int) n \<longleftrightarrow> n < 8"
proof -
  have e: "(0xFF00 :: int) = push_bit 8 (mask 8)" "(0xFF :: int) = mask 8" by (simp_all add: mask_eq_exp_minus_1)
  show "bit (0xFF00 :: int) n \<longleftrightarrow> 8 \<le> n \<and> n < 16" "bit (0xFF :: int) n \<longleftrightarrow> n < 8"
    unfolding e bit_push_bit_iff bit_mask_iff by auto
qed

lemma bytes32_htonl: "bytes32 (htonl w) = rev (bytes32 w)"
  by (auto simp: bytes32_def htonl_def intro!: bit_word_eqI) (auto simp: bit_simps bit_byte_masks dest: bit_imp_le_length)

lemma build_ip_octets: "bytes32 (htonl (build_ip [ucast b0, ucast b1, ucast b2, ucast b3])) = [b0, b1, b2, b3]"
proof -
  let ?w = "push_bit 24 (ucast b0) OR push_bit 16 (ucast b1) OR push_bit 8 (ucast b2) OR ucast b3 :: u32"
  have "build_ip [ucast b0, ucast b1, ucast b2, ucast b3] = ?w"
    by (simp add: build_ip_def octet_le numeral_eq_Suc push_bit_or or.assoc)
  moreover have "bytes32 ?w = [b3, b2, b1, b0]"
    by (auto simp: bytes32_def intro!: bit_word_eqI) (auto simp: bit_simps dest: bit_imp_le_length)
  ultimately show ?thesis by (simp add: bytes32_htonl)
qed

lemma build_loop_bad: "\<exists>x \<in> set xs. 255 < sint x \<Longrightarrow> build_loop ip xs = 0"
  by (induction xs arbitrary: ip) auto

lemma ucast_scast64: "ucast (scast (w :: u32) :: u64) = w"
  by (rule bit_word_eqI) (auto simp: bit_simps)

lemma scast64_0: "(scast (w :: u32) :: u64) = 0 \<longleftrightarrow> w = 0"
  by (metis ucast_scast64 scast_0 unsigned_0)
section \<open>Properties\<close>

text \<open>C30. As long as the addresses of all next hops, read as 32-bit numbers in network order, lie within one
  half-range window, the pool is a stack of QPs for each next hop and core, and its list lengths are right:
  \<open>alloc_prexeisting_conn\<close> pops the stack of its core, or finds it empty, and asks for a refill either way;
  \<open>add_preconn_qp\<close>, if it gets the memory it asks for and the stack is shorter than the counter can count,
  pushes a QP on the stack of the address it is connected to; neither touches another stack.\<close>

theorem preconn_pool_stacks:
  assumes "rbtree_lib_ok L" and "preconn_inv b C (preconn s)" and "window b k" and "c \<in> C"
  shows "(\<exists>s'. alloc_prexeisting_conn c k s = Some (case pool_at s k c of [] \<Rightarrow> None | q # _ \<Rightarrow> Some q, s') \<and>
      preconn_inv b C (preconn s') \<and> pool_at s' = (pool_at s)(k := (pool_at s k)(c := tl (pool_at s k c))) \<and>
      base s' = log_call (run_in_pool (Prealloc_connection_pool (ucast k)) None) (base s)) \<and>
    (preconn_env_ok C (penv e) (preconn s) \<and> new_preconn (penv e) \<noteq> None \<and> percpu_area (penv e) \<noteq> None \<and>
      qps (base s) q = Some x \<and> addr_d x = k \<and> length (pool_at s k c) < 2 ^ 32 - 1 \<longrightarrow>
      (\<exists>s'. add_preconn_qp L e c q s = Some (0, s') \<and> base s' = base s \<and> preconn_inv b C (preconn s') \<and>
        (\<forall>k' c'. c' \<in> C \<longrightarrow> pool_at s' k' c' = (if k' = k \<and> c' = c then q # pool_at s k' c' else pool_at s k' c'))))"
proof (intro conjI impI)
  show "\<exists>s'. alloc_prexeisting_conn c k s = Some (case pool_at s k c of [] \<Rightarrow> None | q # _ \<Rightarrow> Some q, s') \<and>
      preconn_inv b C (preconn s') \<and> pool_at s' = (pool_at s)(k := (pool_at s k)(c := tl (pool_at s k c))) \<and>
      base s' = log_call (run_in_pool (Prealloc_connection_pool (ucast k)) None) (base s)"
    using alloc_ok [OF assms(2-4)] by auto
next
  assume h: "preconn_env_ok C (penv e) (preconn s) \<and> new_preconn (penv e) \<noteq> None \<and> percpu_area (penv e) \<noteq> None \<and>
      qps (base s) q = Some x \<and> addr_d x = k \<and> length (pool_at s k c) < 2 ^ 32 - 1"
  then obtain pc where "add_preconn_qp L e c q s = Some (0, s\<lparr>preconn := pc\<rparr>)" "preconn_inv b C pc"
    "\<forall>k' c'. c' \<in> C \<longrightarrow> stacks pc k' c' = (if k' = k \<and> c' = c then q # pool_at s k' c' else pool_at s k' c')"
    using add_ok [OF assms(1,2,4), of e q x] assms(3) by auto
  then show "\<exists>s'. add_preconn_qp L e c q s = Some (0, s') \<and> base s' = base s \<and> preconn_inv b C (preconn s') \<and>
        (\<forall>k' c'. c' \<in> C \<longrightarrow> pool_at s' k' c' = (if k' = k \<and> c' = c then q # pool_at s k' c' else pool_at s k' c'))"
    by (intro exI [of _ "s\<lparr>preconn := pc\<rparr>"]) simp
qed

text \<open>What a thread has when it has taken a QP from the pool for the captured SYN \<open>ad\<close> and found no other
  half: the QP carries the connection and is linked into the tree of its core.\<close>

definition unpaired :: "kstate \<Rightarrow> addr \<Rightarrow> cpu \<Rightarrow> addresses \<Rightarrow> bool" where
  "unpaired s l c ad \<longleftrightarrow> (\<forall>z y. (l, c) \<in> qp_home s z \<and> qps s z = Some y \<longrightarrow> c_string (key y) \<noteq> c_string (conn_of ad))"

text \<open>The state in which the thread starts: a prepared QP \<open>q\<close> with socket \<open>t\<close> on top of the stack, the
  tenant registered as listener \<open>l\<close>, and a QP that no tree holds.\<close>

definition prepared :: "s32 \<Rightarrow> s32 \<Rightarrow> cpu set \<Rightarrow> cp_state \<Rightarrow> cpu \<Rightarrow> addr \<Rightarrow> addresses \<Rightarrow> addr \<Rightarrow> cbn_qp \<Rightarrow> sock \<Rightarrow> addr \<Rightarrow> bool" where
  "prepared b b' C s c a ad q x t l \<longleftrightarrow> trees_ok (base s) \<and> preconn_inv b C (preconn s) \<and> c \<in> C \<and>
     syns (base s) a = Some ad \<and> window b (hop_addr ad) \<and> (\<exists>rest. pool_at s (hop_addr ad) c = q # rest) \<and>
     qps (base s) q = Some x \<and> qp_wf x \<and> tx x = PTR t \<and> rx x = NULL \<and> ref_cnt x = 0 \<and> qp_home (base s) q = {} \<and>
     listner_tree b' (listners (base s)) (listner_root (base s)) \<and> window b' (mark ad) \<and>
     listner_map (listners (base s)) (listner_root (base s)) (mark ad) = Some l \<and> unpaired (base s) l c ad"

lemma prepared_start:
  assumes "rbtree_lib_ok L" and p: "prepared b b' C s c a ad q x t l"
  shows "\<exists>pc b1. start_new_pre_connection_syn L e (Ps_start c a) s = Some (Ps_forward c a q, s\<lparr>preconn := pc, base := b1\<rparr>) \<and>
    preconn_inv b C pc \<and> stacks pc = (pool_at s)(hop_addr ad := (pool_at s (hop_addr ad))(c := tl (pool_at s (hop_addr ad) c))) \<and>
    qps b1 = (qps (base s))(q \<mapsto> x\<lparr>key := conn_of ad, listner := Some l\<rparr>) \<and> (l, c) \<in> qp_home b1 q \<and> trees_ok b1 \<and>
    same_listners (base s) b1 \<and> syns b1 = syns (base s) \<and>
    calls b1 = calls (base s) @ [run_in_pool (Prealloc_connection_pool (ucast (hop_addr ad))) None]"
proof -
  note h = p [unfolded prepared_def]
  obtain rest where st: "pool_at s (hop_addr ad) c = q # rest" using h by blast
  obtain pc where pc: "alloc_prexeisting_conn c (hop_addr ad) s = Some (Some q,
      s\<lparr>preconn := pc, base := log_call (run_in_pool (Prealloc_connection_pool (ucast (hop_addr ad))) None) (base s)\<rparr>)"
    "preconn_inv b C pc" "stacks pc = (pool_at s)(hop_addr ad := (pool_at s (hop_addr ad))(c := tl (pool_at s (hop_addr ad) c)))"
    using alloc_ok [of b C s "hop_addr ad" c] h st by auto
  let ?x = "x\<lparr>key := conn_of ad, listner := Some l\<rparr>"
  define s1 where "s1 = (base s)\<lparr>calls := calls (base s) @ [run_in_pool (Prealloc_connection_pool (ucast (hop_addr ad))) None],
      qps := (qps (base s))(q \<mapsto> ?x)\<rparr>"
  have nq: "q \<notin> set_tree (connections_root li c')" if "listners (base s) l' = Some li" for l' li c'
    using h that qp_homeI by blast
  have t1: "trees_ok s1"
    by (rule trees_ok_cong [where s = "base s"]) (use h nq in \<open>auto simp: s1_def\<close>)
  obtain li where li: "listners s1 l = Some li"
    using h listner_map_Some [of b' "listners (base s)" "listner_root (base s)" "mark ad" l] by (auto simp: s1_def)
  have x1: "qps s1 q = Some ?x" "qp_wf ?x" "listner ?x = Some l" using h by (simp_all add: s1_def conn_of_def)
  have hm: "qp_home s1 = qp_home (base s)" by (rule qp_home_cong) (simp add: s1_def)
  then have hq: "qp_home s1 q = {}" using h by simp
  have un: "\<forall>z y. (l, c) \<in> qp_home s1 z \<longrightarrow> qps s1 z = Some y \<longrightarrow> z \<noteq> q \<longrightarrow> c_string (key y) \<noteq> c_string (key ?x)"
    using h unfolding unpaired_def hm by (simp add: s1_def)
  obtain s2 where s2: "qp_exists L c q TX_QP s1 = Some (Some q, s2)" "trees_ok s2" "same_listners s1 s2"
    "\<exists>ls. s2 = s1\<lparr>listners := ls\<rparr>" "(l, c) \<in> qp_home s2 q"
    using qp_exists_unpaired [OF assms(1) t1 x1 li hq un, where dir = TX_QP] by blast
  let ?b = "log_call (run_in_pool (Prealloc_connection_pool (ucast (hop_addr ad))) None) (base s)"
  define b0 where "b0 = ?b\<lparr>qps := (qps (base s))(q \<mapsto> x\<lparr>key := conn_of ad\<rparr>)\<rparr>"
  have x: "qps (base s) q = Some x" "qp_wf x" "syns (base s) a = Some ad" using h by simp_all
  have u: "upd_qp q (set_conn (sin_addr (dest ad)) (sin_port (src ad)) (sin_port (dest ad)) (sin_addr (src ad))) ?b = Some b0"
    using x by (simp add: upd_qp_def b0_def set_conn_eq conn_of_def)
  have "upd_qp q (\<lambda>x. x\<lparr>listner := Some l\<rparr>) b0 = Some s1"
    by (cases "base s") (simp add: upd_qp_def b0_def s1_def log_call_def)
  moreover have "search_rb_listner (listners b0) (listner_root b0) (mark ad) = Some (Some l)"
    using search_listner_map [of b' "listners (base s)" "listner_root (base s)" "mark ad"] h by (simp add: b0_def)
  ultimately have "start_new_pre_connection_syn L e (Ps_start c a) s = Some (Ps_forward c a q, s\<lparr>preconn := pc, base := s2\<rparr>)"
    using x(3) pc(1) s2(1) u by simp
  moreover have "same_listners (base s) s2" using s2(3) by (simp add: same_listners_def s1_def)
  moreover have "qps s2 = qps s1" "syns s2 = syns s1" "calls s2 = calls s1" using s2(4) by auto
  ultimately show ?thesis
    using pc(2,3) s2(2,5) by (intro exI [of _ pc] exI [of _ s2]) (simp add: s1_def)
qed

text \<open>C31. A captured SYN for which a prepared connection is waiting needs no new socket: the thread takes
  the QP on top of the stack of its core, gives it the SYN's connection and links it for the other
  half, sends the SYN's addresses over the prepared socket, frees them and, if sending succeeded, waits as the
  first half. On the next hop \<open>start_new_pending_connection\<close>, when it has received these addresses and its
  other calls succeed, connects to the SYN's
  destination with its mark, and from its source address if \<open>ip_transparent\<close> is set, and hands the reverse
  direction to the pool. Next hops and tenant ids are each within one half-range window (see \<open>listner_index\<close>).\<close>

theorem preconn_hop:
  assumes "rbtree_lib_ok L" and "prepared b b' C s c a ad q x t l" and "0 < rc_of (kenv e') (sendmsg_addresses t ad)"
    and "recv_addr e2 = ad" and "far_connects e2 r" and "qps s2 q2 = Some x2" and "rx x2 = PTR r" and "ref_cnt x2 = 0" and "listner x2 = None"
  shows "(\<exists>s1 s'. start_new_pre_connection_syn L e (Ps_start c a) s = Some (Ps_forward c a q, s1) \<and>
      start_new_pre_connection_syn L e' (Ps_forward c a q) s1 =
        Some (Ps_wait (rc_of (kenv e') (sendmsg_addresses t ad)) c q, s') \<and>
      pool_at s' (hop_addr ad) c = tl (pool_at s (hop_addr ad) c) \<and> syns (base s') = (syns (base s))(a := None) \<and>
      calls (base s') = calls (base s) @ [run_in_pool (Prealloc_connection_pool (ucast (hop_addr ad))) None, sendmsg_addresses t ad] \<and>
      qps (base s') q = Some (x\<lparr>key := conn_of ad, listner := Some l, ref_cnt := 1\<rparr>) \<and> (l, c) \<in> qp_home (base s') q) \<and>
    (let t2 = new_sock (kenv e2); f = stack_frame e2 in
     start_new_pending_connection L e2 c2 (Pn_start q2) s2 = Some (Pn_relay f q2 \<lparr>sock_rx = PTR r, sock_tx = PTR t2, sock_dir = 1\<rparr>,
       s2\<lparr>qps := (qps s2)(q2 \<mapsto> x2\<lparr>tx := PTR t2, ref_cnt := 2\<rparr>),
         pair_frames := (pair_frames s2)(f \<mapsto> (\<lparr>sock_rx = PTR t2, sock_tx = PTR r, sock_dir = 0\<rparr>, q2)),
         calls := calls s2 @ [sock_create_kern, recvmsg_addresses r,
             kernel_setsockopt t2 TCP_NODELAY 1, kernel_setsockopt t2 SO_MARK (mark ad)] @
           (if ip_transparent s2 = 0 then [] else [kernel_setsockopt t2 IP_TRANSPARENT 1,
             kernel_bind t2 ((src ad)\<lparr>sin_family := AF_INET, sin_port := 0\<rparr>)]) @
           [kernel_connect t2 ((dest ad)\<lparr>sin_family := AF_INET\<rparr>), run_in_pool (Start_half_duplex f) None]\<rparr>))"
proof (intro conjI)
  obtain pc b1 where s1: "start_new_pre_connection_syn L e (Ps_start c a) s = Some (Ps_forward c a q, s\<lparr>preconn := pc, base := b1\<rparr>)"
    "stacks pc = (pool_at s)(hop_addr ad := (pool_at s (hop_addr ad))(c := tl (pool_at s (hop_addr ad) c)))"
    "qps b1 = (qps (base s))(q \<mapsto> x\<lparr>key := conn_of ad, listner := Some l\<rparr>)" "(l, c) \<in> qp_home b1 q"
    "syns b1 = syns (base s)" "calls b1 = calls (base s) @ [run_in_pool (Prealloc_connection_pool (ucast (hop_addr ad))) None]"
    using prepared_start [OF assms(1,2), of e] by blast
  have x: "syns (base s) a = Some ad" "tx x = PTR t" "rx x = NULL" "ref_cnt x = 0" using assms(2) by (simp_all add: prepared_def)
  let ?b = "(log_call (sendmsg_addresses t ad) b1)\<lparr>syns := (syns b1)(a := None)\<rparr>"
  let ?b' = "?b\<lparr>qps := (qps ?b)(q \<mapsto> x\<lparr>key := conn_of ad, listner := Some l, ref_cnt := 1\<rparr>)\<rparr>"
  have "wait_qp_enter L c q TX_QP ?b = Some (True, ?b')"
    using wait_qp_enter_first [of ?b q "x\<lparr>key := conn_of ad, listner := Some l\<rparr>" TX_QP L c] s1(3) x by (simp add: qp_dir_def)
  then have "start_new_pre_connection_syn L e' (Ps_forward c a q) (s\<lparr>preconn := pc, base := b1\<rparr>) =
      Some (Ps_wait (rc_of (kenv e') (sendmsg_addresses t ad)) c q, s\<lparr>preconn := pc, base := ?b'\<rparr>)"
    using s1(3,5) x assms(3) by (simp add: forward_conn_info_def do_call_def sock_of_def)
  moreover have "qp_home ?b' = qp_home b1" by (rule qp_home_cong) simp
  ultimately show "\<exists>s1 s'. start_new_pre_connection_syn L e (Ps_start c a) s = Some (Ps_forward c a q, s1) \<and>
      start_new_pre_connection_syn L e' (Ps_forward c a q) s1 =
        Some (Ps_wait (rc_of (kenv e') (sendmsg_addresses t ad)) c q, s') \<and>
      pool_at s' (hop_addr ad) c = tl (pool_at s (hop_addr ad) c) \<and> syns (base s') = (syns (base s))(a := None) \<and>
      calls (base s') = calls (base s) @ [run_in_pool (Prealloc_connection_pool (ucast (hop_addr ad))) None, sendmsg_addresses t ad] \<and>
      qps (base s') q = Some (x\<lparr>key := conn_of ad, listner := Some l, ref_cnt := 1\<rparr>) \<and> (l, c) \<in> qp_home (base s') q"
    using s1 by (intro exI [of _ "s\<lparr>preconn := pc, base := b1\<rparr>"] exI [of _ "s\<lparr>preconn := pc, base := ?b'\<rparr>"]) simp
qed (use pending_run [OF assms(5-9), of L c2] assms(4) in \<open>simp add: lent_def connect_calls_def Let_def\<close>)

text \<open>The fallback for a hop that does not take the addresses cannot work. When sending them fails, the
  thread calls \<open>start_new_connection_syn\<close>, which finds the QP that is already linked for this connection,
  takes it for a second SYN and gives up: no socket is created, the SYN's record is freed, a second QP is
  lost, and the QP with the dead connection stays in the tree.\<close>

theorem forward_fallback_gives_up:
  assumes "rbtree_lib_ok L" and "prepared b b' C s c a ad q x t l" and "rc_of (kenv e') (sendmsg_addresses t ad) \<le> 0"
    and "new_qp (kenv e2) = Some p" and "qps (base s) p = None" and "qp_wf (qp_mem (kenv e2))"
  shows "\<exists>s1 s2 s3. start_new_pre_connection_syn L e (Ps_start c a) s = Some (Ps_forward c a q, s1) \<and>
    start_new_pre_connection_syn L e' (Ps_forward c a q) s1 =
      Some (Ps_syn (rc_of (kenv e') (sendmsg_addresses t ad)) (Tx_start c a), s2) \<and>
    start_new_pre_connection_syn L e2 (Ps_syn (rc_of (kenv e') (sendmsg_addresses t ad)) (Tx_start c a)) s2 =
      Some (Ps_done (rc_of (kenv e') (sendmsg_addresses t ad)), s3) \<and>
    calls (base s3) = calls (base s) @ [run_in_pool (Prealloc_connection_pool (ucast (hop_addr ad))) None, sendmsg_addresses t ad] \<and>
    syns (base s3) = (syns (base s))(a := None) \<and> qps (base s3) p \<noteq> None \<and> (l, c) \<in> qp_home (base s3) q \<and>
    map_option tx (qps (base s3) q) = Some (PTR t)"
proof -
  obtain pc b1 where s1: "start_new_pre_connection_syn L e (Ps_start c a) s = Some (Ps_forward c a q, s\<lparr>preconn := pc, base := b1\<rparr>)"
    "qps b1 = (qps (base s))(q \<mapsto> x\<lparr>key := conn_of ad, listner := Some l\<rparr>)" "(l, c) \<in> qp_home b1 q" "trees_ok b1"
    "same_listners (base s) b1" "syns b1 = syns (base s)"
    "calls b1 = calls (base s) @ [run_in_pool (Prealloc_connection_pool (ucast (hop_addr ad))) None]"
    using prepared_start [OF assms(1,2), of e] by blast
  have x: "syns (base s) a = Some ad" "tx x = PTR t" "qps (base s) q = Some x"
    "listner_tree b' (listners (base s)) (listner_root (base s))" "window b' (mark ad)"
    "listner_map (listners (base s)) (listner_root (base s)) (mark ad) = Some l" using assms(2) by (simp_all add: prepared_def)
  let ?b = "log_call (sendmsg_addresses t ad) b1" let ?rc = "rc_of (kenv e') (sendmsg_addresses t ad)"
  have "start_new_pre_connection_syn L e' (Ps_forward c a q) (s\<lparr>preconn := pc, base := b1\<rparr>) =
      Some (Ps_syn ?rc (Tx_start c a), s\<lparr>preconn := pc, base := ?b\<rparr>)"
    using s1(2,6) x(1,2) assms(3) by (simp add: forward_conn_info_def do_call_def sock_of_def)
  moreover have "search_rb_listner (listners ?b) (listner_root ?b) (mark ad) = Some (Some l)"
    using search_listner_map [OF x(4,5)] x(6) search_same_listners [OF s1(5)] by simp
  moreover have "trees_ok ?b" "(l, c) \<in> qp_home ?b q" using s1(3,4) by (simp_all add: log_call_def)
  moreover have "qps ?b p = None" "p \<noteq> q" using assms(5) s1(2) x(3) by auto
  ultimately obtain y where y: "start_new_connection_syn L (kenv e2) (Tx_start c a) ?b =
      Some (Tx_done 0, ?b\<lparr>qps := (qps ?b)(p \<mapsto> y), syns := (syns ?b)(a := None)\<rparr>)"
    using start_syn_taken [OF assms(1), of ?b a ad "kenv e2" p l c q "x\<lparr>key := conn_of ad, listner := Some l\<rparr>"] s1(2,6) x(1,2)
      assms(4,6) by auto
  let ?s3 = "s\<lparr>preconn := pc, base := ?b\<lparr>qps := (qps ?b)(p \<mapsto> y), syns := (syns ?b)(a := None)\<rparr>\<rparr>"
  have "start_new_pre_connection_syn L e2 (Ps_syn ?rc (Tx_start c a)) (s\<lparr>preconn := pc, base := ?b\<rparr>) = Some (Ps_done ?rc, ?s3)"
    unfolding start_new_pre_connection_syn.simps by (simp add: y del: start_new_connection_syn.simps)
  then show ?thesis
    using s1 x \<open>p \<noteq> q\<close> \<open>(l, c) \<in> qp_home ?b q\<close>
      \<open>start_new_pre_connection_syn L e' (Ps_forward c a q) (s\<lparr>preconn := pc, base := b1\<rparr>) = _\<close>
    by (intro exI [of _ "s\<lparr>preconn := pc, base := b1\<rparr>"] exI [of _ "s\<lparr>preconn := pc, base := ?b\<rparr>"] exI [of _ ?s3]) simp
qed

text \<open>C32. The four numbers of a next hop, written to \<^verbatim>\<open>/proc\<close>, are packed so that the address of the
  connection has them in memory in the order they were written, and four connections are asked for on
  every core. A number above 255 makes the command do nothing; a negative one passes.\<close>

theorem preconn_command:
  "bytes32 (htonl (build_ip [ucast b0, ucast b1, ucast b2, ucast b3])) = [b0, b1, b2, b3] \<and>
   ((\<exists>x \<in> set (take 4 xs). 255 < sint x) \<longrightarrow> preconn_write_cb cpus xs s = s) \<and>
   (build_ip xs \<noteq> 0 \<longrightarrow> calls (base (preconn_write_cb cpus xs s)) = calls (base s) @
      concat (map (\<lambda>c. replicate 4 (run_in_pool (Prealloc_connection (ucast (htonl (build_ip xs)))) (Some c))) cpus)) \<and>
   build_ip [1, 2, 3, - 1] = - 1"
proof (intro conjI impI)
  show "bytes32 (htonl (build_ip [ucast b0, ucast b1, ucast b2, ucast b3])) = [b0, b1, b2, b3]"
    by (rule build_ip_octets)
  show "preconn_write_cb cpus xs s = s" if "\<exists>x \<in> set (take 4 xs). 255 < sint x"
    using build_loop_bad [OF that] by (simp add: preconn_write_cb_def build_ip_def)
  show "build_ip [1, 2, 3, - 1] = - 1" by (simp add: build_ip_def)
  have "calls (base ((cp_run f (Some c) ^^ n) s)) = calls (base s) @ replicate n (run_in_pool f (Some c))" for f c n s
    by (induction n) (simp_all add: replicate_append_same [symmetric])
  then have "calls (base (fold (\<lambda>c. cp_run f (Some c) ^^ 4) cpus s)) =
      calls (base s) @ concat (map (\<lambda>c. replicate 4 (run_in_pool f (Some c))) cpus)" for f
    by (induction cpus arbitrary: s) simp_all
  then show "calls (base (preconn_write_cb cpus xs s)) = calls (base s) @
      concat (map (\<lambda>c. replicate 4 (run_in_pool (Prealloc_connection (ucast (htonl (build_ip xs)))) (Some c))) cpus)"
    if "build_ip xs \<noteq> 0" using that by (simp add: preconn_write_cb_def scast64_0 ucast_scast64)
qed

text \<open>Two error paths of preparing a connection. When the per-core lists of a new next hop cannot be
  allocated, \<open>get_rb_preconn\<close> frees the entry and goes on to insert it: an oops. And when the socket
  cannot be created, \<open>prealloc_connection\<close> releases whatever its uninitialised variable \<open>tx\<close> points to, and
  the QP is lost.\<close>

theorem prealloc_error_paths:
  assumes "preconn_inv b C (preconn s)" and "window b (addr_d x)"
  shows "(qps (base s) q = Some x \<and> preconn_map (preconn s) (addr_d x) = None \<and> new_preconn (penv e) = Some p \<and>
      percpu_area (penv e) = None \<longrightarrow> add_preconn_qp L e c q s = None) \<and>
    (rc_of (kenv e) sock_create_kern \<noteq> 0 \<and> new_qp (kenv e) = Some q \<and> stack_tx e = PTR g \<longrightarrow>
      (\<exists>s'. prealloc_connection L e c arg s = Some (rc_of (kenv e) sock_create_kern, s') \<and>
        calls (base s') = calls (base s) @ [sock_create_kern, sock_release g] \<and> qps (base s') q \<noteq> None))"
proof (intro conjI impI)
  assume "qps (base s) q = Some x \<and> preconn_map (preconn s) (addr_d x) = None \<and> new_preconn (penv e) = Some p \<and>
      percpu_area (penv e) = None"
  then show "add_preconn_qp L e c q s = None"
    using search_preconn_map [OF assms]
    by (simp add: add_preconn_qp_def get_rb_preconn_def init_preconn_def add_rb_preconn_def Let_def)
next
  assume "rc_of (kenv e) sock_create_kern \<noteq> 0 \<and> new_qp (kenv e) = Some q \<and> stack_tx e = PTR g"
  then show "\<exists>s'. prealloc_connection L e c arg s = Some (rc_of (kenv e) sock_create_kern, s') \<and>
        calls (base s') = calls (base s) @ [sock_create_kern, sock_release g] \<and> qps (base s') q \<noteq> None"
    by (simp add: prealloc_connection_def prealloc_socket_def do_call_def sock_call_def Let_def)
qed

subsection \<open>Witnesses\<close>

definition ex_ad :: addresses where
  "ex_ad = \<lparr>dest = \<lparr>sin_family = 2, sin_port = 0x5000, sin_addr = 0x0900000A\<rparr>,
     src = \<lparr>sin_family = 2, sin_port = 0x3412, sin_addr = 0x0100000A\<rparr>, hop_addr = 3, mark = 7\<rparr>"

definition ex_prep :: cbn_qp where
  "ex_prep = (bare_qp (replicate 12 0))\<lparr>tx := PTR 40\<rparr>"

definition ex_cp :: cp_state where
  "ex_cp = \<lparr>base = kstate0\<lparr>listners := [9 \<mapsto> bare_listner 7], listner_root := Node Leaf 9 Leaf, syns := [3 \<mapsto> ex_ad],
       qps := [1 \<mapsto> ex_prep]\<rparr>,
     preconn = \<lparr>preconns = [5 \<mapsto> \<lparr>pcp_list = Some (\<lambda>_. \<lparr>plist = [1], len = 1\<rparr>), pkey = 3\<rparr>], preconn_root = Node Leaf 5 Leaf\<rparr>,
     pre_conn_list_client = [], pre_conn_list_server = [], pre_conn_listner = None, server_frames = Map.empty\<rparr>"

definition ex_kenv :: "(kcall \<Rightarrow> int) \<Rightarrow> env" where
  "ex_kenv rc = \<lparr>rc_of = rc, new_qp = Some 2, qp_mem = bare_qp (replicate 12 0), new_sock = 50,
     orig_dst = dest ex_ad, peer = src ex_ad, num_online_cpus = 1, wait_rc = 0, hd_env_of = hd_env_ex\<rparr>"

definition ex_cpenv :: "(kcall \<Rightarrow> int) \<Rightarrow> cp_env" where
  "ex_cpenv rc = \<lparr>kenv = ex_kenv rc,
     penv = \<lparr>new_preconn = Some 6, preconn_mem = \<lparr>pcp_list = None, pkey = 0\<rparr>, percpu_area = Some (\<lambda>_. \<lparr>plist = [], len = 9\<rparr>),
       preconn_cpus = [0]\<rparr>, recv_addr = ex_ad, stack_tx = PTR 77, stack_dir = 0, stack_frame = 0x900, cp_stop = False\<rparr>"

lemma ex_cp_pool: "preconn_inv 0 {0} (preconn ex_cp)" "pool_at ex_cp 3 0 = [1]" "window 0 3"
  by (simp_all add: ex_cp_def preconn_inv_def rb_ordered_def preconn_keys_def window_def pcpl_ok_def stacks_def
      preconn_map_def rb_map_def)

lemma ex_cp_prepared: "prepared 0 0 {0} ex_cp 0 3 ex_ad 1 ex_prep 40 9"
proof -
  have "listner_tree 0 (listners (base ex_cp)) (listner_root (base ex_cp))" "window 0 (mark ex_ad)"
    "listner_map (listners (base ex_cp)) (listner_root (base ex_cp)) (mark ex_ad) = Some 9"
    by (simp_all add: ex_cp_def ex_ad_def kstate0_def bare_listner_def listner_tree_def rb_ordered_def window_def
        listner_map_def rb_map_def)
  moreover have "trees_ok (base ex_cp)" "qp_home (base ex_cp) 1 = {}" "unpaired (base ex_cp) 9 0 ex_ad"
    by (auto simp: trees_ok_def qp_home_def unpaired_def ex_cp_def kstate0_def bare_listner_def qp_tree_def rb_ordered_def
        split: if_splits)
  moreover have "syns (base ex_cp) 3 = Some ex_ad" "hop_addr ex_ad = 3" "qps (base ex_cp) 1 = Some ex_prep" "qp_wf ex_prep"
    "tx ex_prep = PTR 40" "rx ex_prep = NULL" "ref_cnt ex_prep = 0"
    by (simp_all add: ex_cp_def ex_ad_def kstate0_def ex_prep_def)
  ultimately show ?thesis using ex_cp_pool by (simp add: prepared_def)
qed

theorem preconn_pool_stacks_witness:
  "\<exists>s'. alloc_prexeisting_conn 0 3 ex_cp = Some (Some 1, s') \<and> pool_at s' 3 0 = []"
  using preconn_pool_stacks [OF plain_lib_ok ex_cp_pool(1,3), of 0 "ex_cpenv (\<lambda>_. 0)" 1 ex_prep] ex_cp_pool(2) by auto

theorem preconn_hop_witness:
  "\<exists>s1 s' s3. start_new_pre_connection_syn plain_lib (ex_cpenv (\<lambda>_. 0)) (Ps_start 0 3) ex_cp = Some (Ps_forward 0 3 1, s1) \<and>
     start_new_pre_connection_syn plain_lib (ex_cpenv (\<lambda>_. 40)) (Ps_forward 0 3 1) s1 = Some (Ps_wait 40 0 1, s') \<and>
     start_new_pending_connection plain_lib (ex_cpenv (\<lambda>k. if k = recvmsg_addresses 8 then 40 else 0)) 0 (Pn_start 4)
       (kstate0\<lparr>qps := [4 \<mapsto> (bare_qp (replicate 12 0))\<lparr>rx := PTR 8\<rparr>]\<rparr>) =
     Some (Pn_relay 0x900 4 \<lparr>sock_rx = PTR 8, sock_tx = PTR 50, sock_dir = 1\<rparr>, s3)"
proof -
  let ?s2 = "kstate0\<lparr>qps := [4 \<mapsto> (bare_qp (replicate 12 0))\<lparr>rx := PTR 8\<rparr>]\<rparr>"
  have "0 < rc_of (kenv (ex_cpenv (\<lambda>_. 40))) (sendmsg_addresses 40 ex_ad)"
    "recv_addr (ex_cpenv (\<lambda>k. if k = recvmsg_addresses 8 then 40 else 0)) = ex_ad"
    "far_connects (ex_cpenv (\<lambda>k. if k = recvmsg_addresses 8 then 40 else 0)) 8"
    "qps ?s2 4 = Some ((bare_qp (replicate 12 0))\<lparr>rx := PTR 8\<rparr>)"
    "rx ((bare_qp (replicate 12 0))\<lparr>rx := PTR 8\<rparr>) = PTR 8" "ref_cnt ((bare_qp (replicate 12 0))\<lparr>rx := PTR 8\<rparr>) = 0"
    "listner ((bare_qp (replicate 12 0))\<lparr>rx := PTR 8\<rparr>) = None"
    by (simp_all add: ex_cpenv_def ex_kenv_def kstate0_def far_connects_def)
  from preconn_hop [OF plain_lib_ok ex_cp_prepared this, of "ex_cpenv (\<lambda>_. 0)" 0] show ?thesis
    by (simp add: ex_cpenv_def ex_kenv_def Let_def del: start_new_pre_connection_syn.simps start_new_pending_connection.simps) blast
qed

theorem forward_fallback_gives_up_witness:
  "\<exists>s1 s2 s3. start_new_pre_connection_syn plain_lib (ex_cpenv (\<lambda>_. 0)) (Ps_start 0 3) ex_cp = Some (Ps_forward 0 3 1, s1) \<and>
     start_new_pre_connection_syn plain_lib (ex_cpenv (\<lambda>_. - 32)) (Ps_forward 0 3 1) s1 = Some (Ps_syn (- 32) (Tx_start 0 3), s2) \<and>
     start_new_pre_connection_syn plain_lib (ex_cpenv (\<lambda>_. 0)) (Ps_syn (- 32) (Tx_start 0 3)) s2 = Some (Ps_done (- 32), s3)"
proof -
  have "rc_of (kenv (ex_cpenv (\<lambda>_. - 32))) (sendmsg_addresses 40 ex_ad) = - 32" "new_qp (kenv (ex_cpenv (\<lambda>_. 0))) = Some 2"
    "qps (base ex_cp) 2 = None" "qp_wf (qp_mem (kenv (ex_cpenv (\<lambda>_. 0))))"
    by (simp_all add: ex_cpenv_def ex_kenv_def ex_cp_def kstate0_def)
  with forward_fallback_gives_up [OF plain_lib_ok ex_cp_prepared, of "ex_cpenv (\<lambda>_. - 32)" "ex_cpenv (\<lambda>_. 0)" 2 "ex_cpenv (\<lambda>_. 0)"]
  show ?thesis by (simp del: start_new_pre_connection_syn.simps) blast
qed

theorem preconn_command_witness:
  "bytes32 (htonl (build_ip [10, 0, 0, 1])) = [10, 0, 0, 1] \<and> preconn_write_cb [0] [256, 0, 0, 1] ex_cp = ex_cp"
  using preconn_command [of 10 0 0 1 "[256, 0, 0, 1]" "[0]" ex_cp] by simp

theorem prealloc_error_paths_witness:
  "\<exists>s'. prealloc_connection plain_lib (ex_cpenv (\<lambda>_. - 12)) 0 3 ex_cp = Some (- 12, s') \<and>
     calls (base s') = [sock_create_kern, sock_release 77]"
proof -
  have "addr_d ((bare_qp [0, 0, 0, 0, 0, 0, 0, 0, 3, 0, 0, 0])) = 3" by (simp add: addr_d_def word32_def)
  then have "window 0 (addr_d (bare_qp [0, 0, 0, 0, 0, 0, 0, 0, 3, 0, 0, 0]))" using ex_cp_pool(3) by simp
  from prealloc_error_paths [OF ex_cp_pool(1) this, of 2 "ex_cpenv (\<lambda>_. - 12)" 6 plain_lib 0 77 3] show ?thesis
    by (auto simp: ex_cpenv_def ex_kenv_def ex_cp_def kstate0_def)
qed

end
