(* ===== verification/Netfilter.thy ===== *)
theory Netfilter
  imports Rb_Tree Qp_State
begin

unbundle bit_operations_syntax

text \<open>
  The packet hooks of \<^verbatim>\<open>tcpsplit/split.c\<close> and the probe they exchange with \<^verbatim>\<open>tcpsplit/conn_pool.c\<close>.
  \<open>cbn_ingress_hook\<close> sees the SYN of a client and asks a pool thread to send a copy of its headers
  (\<open>start_probe_syn\<close>) through the raw socket of the tenant's listener; the copy carries the probe port as
  its source port and the client's port in the window field. \<open>cbn_egress_hook\<close> catches that copy after
  routing has chosen the device. On an ordinary device it starts the half towards the server; on a GUE
  tunnel it appends a pointer to the packet, lets the tunnel encapsulate it, and catches the
  encapsulated packet, whose outer destination is the next hop.

  An \<open>sk_buff\<close> is the headers the hooks look at. The pointer-sized cells that follow the TCP header are
  \<open>payload\<close>; what the memory behind an inner TCP header is read as is a cell too. Functions handed to the
  thread pool are logged as \<open>run_in_pool\<close>, with the core when one is given.
\<close>

section \<open>Definitions\<close>

abbreviation (input) IPPROTO_IPIP :: "'a::len word" where "IPPROTO_IPIP \<equiv> 4"
abbreviation (input) IPPROTO_TCP :: u8 where "IPPROTO_TCP \<equiv> 6"
abbreviation (input) IPPROTO_UDP :: u8 where "IPPROTO_UDP \<equiv> 17"
abbreviation (input) CBN_PROBE_PORT :: u16 where "CBN_PROBE_PORT \<equiv> 4"

datatype verdict = NF_DROP | NF_ACCEPT

record sk_buff =
  skb_mark :: u32
  dev_name :: string
  ip_hdr :: iphdr
  tcp_hdr :: tcphdr
  inner_protocol :: u16
  inner_ip_hdr :: iphdr
  inner_tcp_hdr :: tcphdr
  payload :: "addr option list"

text \<open>
  What the kernel provides to a hook: the objects the slab caches return and what their memory holds,
  the uninitialised \<open>struct cbn_qp\<close> on the stack of \<open>addresses2cpu\<close>, the number of cores.
\<close>

record nf_env =
  new_syn :: "addr option"
  syn_mem :: addresses
  new_probe :: "addr option"
  stack_qp :: cbn_qp
  nf_cpus :: u32

definition trace_iph :: "sk_buff \<Rightarrow> bool" where
  "trace_iph skb =
     (let rc = (if protocol (ip_hdr skb) = 6 then syn (tcp_hdr skb) \<and> \<not> ack (tcp_hdr skb) else False)
      in rc \<and> skb_mark skb \<noteq> 0)"

definition is_out_gue :: "sk_buff \<Rightarrow> bool" where
  "is_out_gue skb \<longleftrightarrow> take (length ''gue'') (dev_name skb) = ''gue''"

definition build_addresses :: "nf_env \<Rightarrow> sk_buff \<Rightarrow> kstate \<Rightarrow> addr option \<times> kstate" where
  "build_addresses e skb s = (case new_syn e of
     None \<Rightarrow> (None, s)
   | Some a \<Rightarrow>
       let m = syn_mem e;
           ad = m\<lparr>dest := (dest m)\<lparr>sin_addr := daddr (ip_hdr skb), sin_port := tdest (tcp_hdr skb)\<rparr>,
                  src := (src m)\<lparr>sin_addr := saddr (ip_hdr skb), sin_port := source (tcp_hdr skb)\<rparr>,
                  mark := skb_mark skb\<rparr>
       in (Some a, s\<lparr>syns := (syns s)(a \<mapsto> ad)\<rparr>))"

definition is_cbn_probe :: "sk_buff \<Rightarrow> bool" where
  "is_cbn_probe skb =
     (if inner_protocol skb = IPPROTO_IPIP \<and> protocol (inner_ip_hdr skb) = IPPROTO_TCP
      then ntohs (source (inner_tcp_hdr skb)) = CBP_PROBE_PORT else False)"

text \<open>The cell behind the TCP header; reading past the packet is an oops.\<close>

definition get_cbn_probe :: "sk_buff \<Rightarrow> addr option option" where
  "get_cbn_probe skb = arr_get (payload skb) 0"

definition set_cbn_probe :: "sk_buff \<Rightarrow> addr \<Rightarrow> int \<times> sk_buff" where
  "set_cbn_probe skb a = (0, skb\<lparr>payload := payload skb @ [Some a]\<rparr>)"

definition cbn_egress_hook :: "nf_env \<Rightarrow> sk_buff \<Rightarrow> kstate \<Rightarrow> (verdict \<times> sk_buff \<times> kstate) option" where
  "cbn_egress_hook e skb s =
     (if skb_mark skb = 0 then Some (NF_ACCEPT, skb, s)
      else if protocol (ip_hdr skb) = IPPROTO_TCP then
        (if ntohs (source (tcp_hdr skb)) = CBP_PROBE_PORT then
           (case build_addresses e skb s of
              (None, s) \<Rightarrow> Some (NF_DROP, skb, s)
            | (Some a, s) \<Rightarrow> do {
                ad \<leftarrow> syns s a;
                let ad = ad\<lparr>src := (src ad)\<lparr>sin_port := tcp_window (tcp_hdr skb)\<rparr>\<rparr>;
                let s = s\<lparr>syns := (syns s)(a \<mapsto> ad)\<rparr>;
                if is_out_gue skb then
                  (case set_cbn_probe skb a of
                     (rc, skb) \<Rightarrow> if rc \<noteq> 0 then Some (NF_DROP, skb, s) else Some (NF_ACCEPT, skb, s))
                else do {
                  let cpu = addresses2cpu (nf_cpus e) (stack_qp e) ad;
                  Some (NF_DROP, skb, log_call (run_in_pool (Start_new_connection_syn a) (Some (unat cpu))) s) } })
         else Some (NF_ACCEPT, skb, s))
      else if protocol (ip_hdr skb) = IPPROTO_UDP \<and> is_cbn_probe skb then do {
        p \<leftarrow> get_cbn_probe skb;
        (case p of
           None \<Rightarrow> Some (NF_DROP, skb, s)
         | Some a \<Rightarrow> do {
             ad \<leftarrow> syns s a;
             let cpu = addresses2cpu (nf_cpus e) (stack_qp e) ad;
             let s = s\<lparr>syns := (syns s)(a \<mapsto> ad\<lparr>hop_addr := daddr (ip_hdr skb)\<rparr>)\<rparr>;
             Some (NF_DROP, skb,
               log_call (run_in_pool (Start_new_pre_connection_syn a) (Some (unat cpu))) s) }) }
      else Some (NF_ACCEPT, skb, s))"

definition cbn_ingress_hook :: "nf_env \<Rightarrow> string \<Rightarrow> sk_buff \<Rightarrow> kstate \<Rightarrow> (verdict \<times> kstate) option" where
  "cbn_ingress_hook e priv skb s =
     (if priv \<noteq> ''RX'' then Some (NF_ACCEPT, s)
      else if skb_mark skb = 0 then Some (NF_ACCEPT, s)
      else do {
        l \<leftarrow> search_rb_listner (listners s) (listner_root s) (skb_mark skb);
        (case l of
           None \<Rightarrow> Some (NF_ACCEPT, s)
         | Some l \<Rightarrow>
             if trace_iph skb then
               (case new_probe e of
                  None \<Rightarrow> Some (NF_ACCEPT, s)
                | Some p \<Rightarrow> do {
                    let s = s\<lparr>probes := (probes s)(p \<mapsto> \<lparr>probe_iph = ip_hdr skb, probe_tcph = tcp_hdr skb,
                              probe_listner = l\<rparr>)\<rparr>;
                    Some (NF_ACCEPT, log_call (run_in_pool (Start_probe_syn p) None) s) })
             else Some (NF_ACCEPT, s)) })"

text \<open>
  A hook as it is registered: the function, the point of the network stack, the priority among the hooks
  of that point (\<open>NF_IP_PRI_FIRST\<close> is \<open>INT_MIN\<close>, \<open>NF_IP_PRI_LAST\<close> is \<open>INT_MAX\<close>), and the string that the
  function is given.
\<close>

datatype nf_inet_hook = NF_INET_PRE_ROUTING | NF_INET_LOCAL_IN | NF_INET_FORWARD | NF_INET_LOCAL_OUT | NF_INET_POST_ROUTING

abbreviation (input) PF_INET :: nat where "PF_INET \<equiv> 2"
abbreviation (input) NF_IP_PRI_FIRST :: s32 where "NF_IP_PRI_FIRST \<equiv> 0x80000000"
abbreviation (input) NF_IP_PRI_LAST :: s32 where "NF_IP_PRI_LAST \<equiv> 0x7FFFFFFF"
abbreviation (input) NF_IP_PRI_RAW :: s32 where "NF_IP_PRI_RAW \<equiv> - 300"
abbreviation (input) NF_IP_PRI_CONNTRACK :: s32 where "NF_IP_PRI_CONNTRACK \<equiv> - 200"
abbreviation (input) CBN_PRIO_OFFSET :: s32 where "CBN_PRIO_OFFSET \<equiv> 50"

record 'hook nf_hook_ops =
  nf_hook :: 'hook
  hooknum :: nf_inet_hook
  nf_pf :: nat
  nf_priority :: s32
  nf_priv :: string

type_synonym split_hook = "string \<Rightarrow> sk_buff \<Rightarrow> kstate \<Rightarrow> (verdict \<times> sk_buff \<times> kstate) option"

definition cbn_nf_hooks :: "nf_env \<Rightarrow> split_hook nf_hook_ops list" where
  "cbn_nf_hooks e =
     [\<lparr>nf_hook = \<lambda>priv. cbn_egress_hook e, hooknum = NF_INET_POST_ROUTING, nf_pf = PF_INET, nf_priority = NF_IP_PRI_FIRST,
       nf_priv = ''TX''\<rparr>,
      \<lparr>nf_hook = \<lambda>priv skb s. map_option (\<lambda>(v, s). (v, skb, s)) (cbn_ingress_hook e priv skb s),
       hooknum = NF_INET_PRE_ROUTING, nf_pf = PF_INET, nf_priority = NF_IP_PRI_RAW + CBN_PRIO_OFFSET, nf_priv = ''RX''\<rparr>]"

text \<open>
  The raw socket of a listener. \<open>rc_of\<close> is what each call returns, \<open>t\<close> the socket that is created.
  The value passed for \<open>IP_HDRINCL\<close> is the mark, too.
\<close>

definition craete_prec_conn_probe :: "(kcall \<Rightarrow> int) \<Rightarrow> sock \<Rightarrow> u32 \<Rightarrow> kstate \<Rightarrow> sock option \<times> kstate" where
  "craete_prec_conn_probe rc t m s =
     (let s = log_call sock_create_raw s in
      if rc sock_create_raw \<noteq> 0 then (None, s) else
      let k = kernel_setsockopt t SO_MARK m; s = log_call k s in
      if rc k < 0 then (None, s) else
      let k = kernel_setsockopt t IP_HDRINCL m; s = log_call k s in
      if rc k \<noteq> 0 then (None, s) else (Some t, s))"

text \<open>
  The packet that \<open>start_probe_syn\<close> sends is logged with its headers and its address. Dereferencing a
  listener that has been freed, or sending on a socket pointer that is \<open>NULL\<close>, is an oops.
\<close>

definition start_probe_syn :: "(kcall \<Rightarrow> int) \<Rightarrow> addr \<Rightarrow> kstate \<Rightarrow> (int \<times> kstate) option" where
  "start_probe_syn rc p s = do {
     pr \<leftarrow> probes s p;
     let th = (probe_tcph pr)\<lparr>tcp_window := source (probe_tcph pr)\<rparr>;
     let th = th\<lparr>source := htons CBN_PROBE_PORT\<rparr>;
     let s = s\<lparr>probes := (probes s)(p \<mapsto> pr\<lparr>probe_tcph := th\<rparr>)\<rparr>;
     li \<leftarrow> listners s (probe_listner pr);
     r \<leftarrow> raw li;
     let k = sendmsg_headers r \<lparr>sin_family = AF_INET, sin_port = 0, sin_addr = daddr (probe_iph pr)\<rparr>
               (probe_iph pr) th;
     let s = log_call k s;
     Some (rc k, s\<lparr>probes := (probes s)(p := None)\<rparr>) }"

section \<open>Lemmas\<close>

text \<open>The header that leaves the raw socket, and the record the egress hook builds from a captured SYN.\<close>

definition probe_header :: "tcphdr \<Rightarrow> tcphdr" where
  "probe_header th = th\<lparr>tcp_window := source th, source := htons CBN_PROBE_PORT\<rparr>"

definition captured :: "sk_buff \<Rightarrow> addresses \<Rightarrow> bool" where
  "captured skb ad \<longleftrightarrow> sin_addr (src ad) = saddr (ip_hdr skb) \<and> sin_port (src ad) = source (tcp_hdr skb) \<and>
     sin_addr (dest ad) = daddr (ip_hdr skb) \<and> sin_port (dest ad) = tdest (tcp_hdr skb) \<and> mark ad = skb_mark skb"

text \<open>The key of the connection a packet belongs to, and the core of that key.\<close>

definition skb_key :: "sk_buff \<Rightarrow> u8 list" where
  "skb_key skb = conn_key (source (tcp_hdr skb)) (tdest (tcp_hdr skb)) (saddr (ip_hdr skb)) (daddr (ip_hdr skb))"

definition skb_core :: "u32 \<Rightarrow> sk_buff \<Rightarrow> cpu" where
  "skb_core n skb = unat (qp2cpu n (bare_qp (skb_key skb)))"

text \<open>
  What the network stack does with the probe made of the SYN \<open>skb\<close>. A raw socket with \<open>IP_HDRINCL\<close> rewrites
  the total length and the checksum of the IP header, which are in \<open>ip_rest\<close> and arbitrary here, and keeps
  the protocol and the addresses; the source address only if it is not \<open>0\<close>, as in every SYN. The packet
  reaches the egress hook with the mark of the raw socket. Of the TCP header the module sends and reads the
  fixed twenty bytes, so TCP options do not matter; IP options would, as the module sends twenty bytes of
  the IP header whatever its length field says: a SYN with IP options is outside of \<open>routed\<close>.
  A GUE device wraps the packet into UDP and keeps it as the inner packet.
\<close>

definition same_flow :: "iphdr \<Rightarrow> iphdr \<Rightarrow> bool" where
  "same_flow h h' \<longleftrightarrow> protocol h' = protocol h \<and> saddr h' = saddr h \<and> daddr h' = daddr h"

definition routed :: "sk_buff \<Rightarrow> sk_buff \<Rightarrow> bool" where
  "routed skb skb' \<longleftrightarrow> skb_mark skb' = skb_mark skb \<and> same_flow (ip_hdr skb) (ip_hdr skb') \<and>
     tcp_hdr skb' = probe_header (tcp_hdr skb) \<and> payload skb' = []"

definition encapsulated :: "sk_buff \<Rightarrow> sk_buff \<Rightarrow> bool" where
  "encapsulated skb skb' \<longleftrightarrow> skb_mark skb' = skb_mark skb \<and> protocol (ip_hdr skb') = IPPROTO_UDP \<and>
     inner_protocol skb' = IPPROTO_IPIP \<and> same_flow (ip_hdr skb) (inner_ip_hdr skb') \<and>
     inner_tcp_hdr skb' = tcp_hdr skb \<and> payload skb' = payload skb"

lemma htons_eq_iff: "htons x = y \<longleftrightarrow> x = htons y"
  by (metis htons_htons)

lemma probe_header_sel [simp]: "source (probe_header th) = htons CBN_PROBE_PORT" "tcp_window (probe_header th) = source th"
  "tdest (probe_header th) = tdest th"
  by (simp_all add: probe_header_def)

lemma captured_core:
  assumes "qp_wf g" and "captured skb ad"
  shows "addresses2cpu n g ad = qp2cpu n (bare_qp (skb_key skb))"
  using assms by (simp add: addresses2cpu_def captured_def skb_key_def xor_key_div_mod)

text \<open>The egress hook on the probe, up to the device.\<close>

definition syn_record :: "nf_env \<Rightarrow> sk_buff \<Rightarrow> addresses" where
  "syn_record e skb = (let m = syn_mem e in
     m\<lparr>dest := (dest m)\<lparr>sin_addr := daddr (ip_hdr skb), sin_port := tdest (tcp_hdr skb)\<rparr>,
       src := (src m)\<lparr>sin_addr := saddr (ip_hdr skb), sin_port := source (tcp_hdr skb)\<rparr>,
       mark := skb_mark skb\<rparr>)"

lemma captured_syn_record: "captured skb (syn_record e skb)"
  by (simp add: captured_def syn_record_def Let_def)

lemma captured_hop [simp]: "captured skb (ad\<lparr>hop_addr := h\<rparr>) = captured skb ad"
  by (simp add: captured_def)

lemma egress_probe:
  fixes s :: kstate
  assumes "routed skb skb'" and "skb_mark skb \<noteq> 0" and "protocol (ip_hdr skb) = IPPROTO_TCP" and "qp_wf (stack_qp e)"
    and "new_syn e = Some a"
  defines "s' \<equiv> s\<lparr>syns := (syns s)(a \<mapsto> syn_record e skb)\<rparr>"
  shows "cbn_egress_hook e skb' s =
    (if is_out_gue skb' then Some (NF_ACCEPT, skb'\<lparr>payload := [Some a]\<rparr>, s')
     else Some (NF_DROP, skb', log_call (run_in_pool (Start_new_connection_syn a) (Some (skb_core (nf_cpus e) skb))) s'))"
proof -
  have "syn_record e skb = (syn_record e skb')\<lparr>src := (src (syn_record e skb'))\<lparr>sin_port := tcp_window (tcp_hdr skb')\<rparr>\<rparr>"
    using assms(1) by (simp add: syn_record_def routed_def same_flow_def Let_def)
  then show ?thesis
    using assms captured_core [OF assms(4) captured_syn_record, of "nf_cpus e" e skb]
    by (simp add: cbn_egress_hook_def build_addresses_def routed_def same_flow_def set_cbn_probe_def skb_core_def
        syn_record_def [of e skb'] Let_def)
qed

lemma start_probe_syn_ok:
  assumes "probes s p = Some pr" and "listners s (probe_listner pr) = Some li" and "raw li = Some r"
  defines "k \<equiv> sendmsg_headers r \<lparr>sin_family = AF_INET, sin_port = 0, sin_addr = daddr (probe_iph pr)\<rparr>
      (probe_iph pr) (probe_header (probe_tcph pr))"
  shows "start_probe_syn rc p s = Some (rc k, (log_call k s)\<lparr>probes := (probes s)(p := None)\<rparr>)"
  using assms by (simp add: start_probe_syn_def probe_header_def log_call_def Let_def)

text \<open>The two packets of the tunnel case: the encapsulated probe.\<close>

lemma egress_encapsulated:
  assumes "encapsulated skb' skb''" and "skb_mark skb' \<noteq> 0" and "payload skb' = [Some a]" and "qp_wf (stack_qp e)"
    and "protocol (ip_hdr skb') = IPPROTO_TCP" and "source (tcp_hdr skb') = htons CBN_PROBE_PORT"
    and "syns s a = Some ad" and "captured skb ad"
  shows "cbn_egress_hook e skb'' s = Some (NF_DROP, skb'',
    log_call (run_in_pool (Start_new_pre_connection_syn a) (Some (skb_core (nf_cpus e) skb)))
      (s\<lparr>syns := (syns s)(a \<mapsto> ad\<lparr>hop_addr := daddr (ip_hdr skb'')\<rparr>)\<rparr>))"
  using assms captured_core [OF assms(4,8), of "nf_cpus e"]
  by (simp add: cbn_egress_hook_def encapsulated_def same_flow_def is_cbn_probe_def get_cbn_probe_def skb_core_def Let_def)

text \<open>
  The table fits the hooks: each is called with the string it tests for; the egress hook comes before every
  other hook after routing, the ingress hook after the raw table and before connection tracking.
\<close>

lemma hooks_are_given_their_names:
  "map (\<lambda>h. nf_hook h (nf_priv h) skb s) (cbn_nf_hooks e) =
    [cbn_egress_hook e skb s, map_option (\<lambda>(v, s). (v, skb, s)) (cbn_ingress_hook e ''RX'' skb s)]"
  by (simp add: cbn_nf_hooks_def)

lemma hook_priorities:
  assumes "h \<in> set (cbn_nf_hooks e)"
  shows "hooknum h = NF_INET_POST_ROUTING \<Longrightarrow> sint (nf_priority h) \<le> sint (p :: s32)"
    "hooknum h = NF_INET_PRE_ROUTING \<Longrightarrow> sint NF_IP_PRI_RAW < sint (nf_priority h) \<and> sint (nf_priority h) < sint NF_IP_PRI_CONNTRACK"
  using assms sint_ge [of p] by (auto simp: cbn_nf_hooks_def)

section \<open>Properties\<close>

text \<open>C25. What the ingress hook does with every packet whose mark lies in one half-range window with the ids of
  the registered tenants: it lets all of them pass, it never touches the connections, listeners or
  captured SYNs, and it acts exactly on the packets with SYN and without ACK whose mark is the id of a
  registered tenant, for which it stores the headers in a probe and asks a pool thread to send it. Outside
  of such a window the search in the tree need not find a tenant that is registered.\<close>

theorem ingress_hook_spec:
  assumes "listner_tree b (listners s) (listner_root s)" and "window b (skb_mark skb)"
  shows "cbn_ingress_hook e ''RX'' skb s = Some (NF_ACCEPT,
    case (listner_map (listners s) (listner_root s) (skb_mark skb), new_probe e) of
      (Some l, Some p) \<Rightarrow>
        if skb_mark skb \<noteq> 0 \<and> protocol (ip_hdr skb) = IPPROTO_TCP \<and> syn (tcp_hdr skb) \<and> \<not> ack (tcp_hdr skb)
        then log_call (run_in_pool (Start_probe_syn p) None) (s\<lparr>probes := (probes s)
          (p \<mapsto> \<lparr>probe_iph = ip_hdr skb, probe_tcph = tcp_hdr skb, probe_listner = l\<rparr>)\<rparr>)
        else s
    | _ \<Rightarrow> s)"
  using search_listner_map [OF assms]
  by (simp add: cbn_ingress_hook_def trace_iph_def Let_def split: option.splits)

text \<open>A packet that is no probe leaves the egress hook as it came, and nothing is recorded: traffic
  without a mark, TCP with another source port than the probe port, and everything else but
  encapsulated probes.\<close>

theorem egress_hook_transparent:
  assumes "skb_mark skb = 0 \<or>
      (if protocol (ip_hdr skb) = IPPROTO_TCP then source (tcp_hdr skb) \<noteq> htons CBN_PROBE_PORT
       else protocol (ip_hdr skb) = IPPROTO_UDP \<longrightarrow> \<not> is_cbn_probe skb)"
  shows "cbn_egress_hook e skb s = Some (NF_ACCEPT, skb, s)"
  using assms by (auto simp: cbn_egress_hook_def htons_eq_iff)

text \<open>The packets of the examples: the SYN of 10.0.0.2 port 0x1234 to 10.0.0.1 port 80, tenant 7.\<close>

definition ex_syn :: sk_buff where
  "ex_syn = \<lparr>skb_mark = 7, dev_name = ''eth0'',
     ip_hdr = \<lparr>protocol = 6, saddr = 0x0200000a, daddr = 0x0100000a, ip_rest = []\<rparr>,
     tcp_hdr = \<lparr>source = 0x3412, tdest = 0x5000, syn = True, ack = False, tcp_window = 0, tcp_rest = []\<rparr>,
     inner_protocol = 0,
     inner_ip_hdr = \<lparr>protocol = 0, saddr = 0, daddr = 0, ip_rest = []\<rparr>,
     inner_tcp_hdr = \<lparr>source = 0, tdest = 0, syn = False, ack = False, tcp_window = 0, tcp_rest = []\<rparr>,
     payload = []\<rparr>"

definition ex_nf_env :: nf_env where
  "ex_nf_env = \<lparr>new_syn = Some 3,
     syn_mem = \<lparr>dest = \<lparr>sin_family = 0, sin_port = 0, sin_addr = 0\<rparr>,
       src = \<lparr>sin_family = 0, sin_port = 0, sin_addr = 0\<rparr>, hop_addr = 0, mark = 0\<rparr>,
     new_probe = Some 4, stack_qp = bare_qp (replicate 12 0), nf_cpus = 4\<rparr>"

definition ex_tenant :: "cbn_listner \<Rightarrow> kstate" where
  "ex_tenant li = kstate0\<lparr>listners := [9 \<mapsto> li], listner_root := Node Leaf 9 Leaf\<rparr>"

lemma ex_tenant_tree:
  assumes "lkey li = 7"
  shows "listner_tree 0 (listners (ex_tenant li)) (listner_root (ex_tenant li))"
    "listner_map (listners (ex_tenant li)) (listner_root (ex_tenant li)) 7 = Some 9" "window 0 7"
  using assms by (simp_all add: ex_tenant_def kstate0_def listner_tree_def rb_ordered_def window_def listner_map_def
      rb_map_def)

theorem ingress_hook_spec_witness:
  "cbn_ingress_hook ex_nf_env ''RX'' ex_syn (ex_tenant (bare_listner 7)) = Some (NF_ACCEPT,
     log_call (run_in_pool (Start_probe_syn 4) None) ((ex_tenant (bare_listner 7))\<lparr>probes :=
       [4 \<mapsto> \<lparr>probe_iph = ip_hdr ex_syn, probe_tcph = tcp_hdr ex_syn, probe_listner = 9\<rparr>]\<rparr>))"
proof -
  have "lkey (bare_listner 7) = 7" by (simp add: bare_listner_def)
  note t = ex_tenant_tree [OF this]
  have "skb_mark ex_syn = 7" by (simp add: ex_syn_def)
  then show ?thesis
    using ingress_hook_spec [of 0 "ex_tenant (bare_listner 7)" ex_syn ex_nf_env] t
    by (simp add: ex_syn_def ex_nf_env_def ex_tenant_def kstate0_def)
qed

theorem egress_hook_transparent_witness:
  "cbn_egress_hook ex_nf_env ex_syn kstate0 = Some (NF_ACCEPT, ex_syn, kstate0)"
  by (rule egress_hook_transparent) (simp add: ex_syn_def htons_def drop_bit_eq_div)

text \<open>C23. A SYN of a registered tenant is captured in three steps, between which other threads may change the
  state: the ingress hook hands a probe to a pool thread; that thread, if the probe is as it was and the
  listener is still there and has its raw socket, sends the probe through it and frees it; and the egress
  hook, in any state, swallows the packet that routing has sent to an ordinary device and starts
  \<open>start_new_connection_syn\<close> with exactly the addresses, ports and mark of the original SYN, on the core of
  that connection. This needs memory for the probe and the record, ids of the tenants within one half-range
  window, and a packet that keeps its mark, protocol, addresses and TCP header between the raw socket and the
  egress hook; the raw socket may rewrite the rest of the IP header. \<open>probe_pointer_oops\<close> below is what happens
  when the listener has gone or has no raw socket.\<close>

theorem syn_capture:
  assumes "listner_tree b (listners s) (listner_root s)" and "window b (skb_mark skb)"
    and "listner_map (listners s) (listner_root s) (skb_mark skb) = Some l"
    and "skb_mark skb \<noteq> 0" and "protocol (ip_hdr skb) = IPPROTO_TCP" and "syn (tcp_hdr skb)" and "\<not> ack (tcp_hdr skb)"
    and "new_probe e = Some p" and "routed skb skb'" and "\<not> is_out_gue skb'"
    and "new_syn e' = Some a" and "qp_wf (stack_qp e')"
  shows "\<exists>s1 pr. cbn_ingress_hook e ''RX'' skb s = Some (NF_ACCEPT, s1) \<and>
      calls s1 = calls s @ [run_in_pool (Start_probe_syn p) None] \<and> probes s1 p = Some pr \<and> probe_listner pr = l \<and>
    (\<forall>s2 li r. probes s2 p = Some pr \<and> listners s2 l = Some li \<and> raw li = Some r \<longrightarrow>
      (\<exists>s3. start_probe_syn rc p s2 = Some (rc (last (calls s3)), s3) \<and> probes s3 = (probes s2)(p := None) \<and>
        calls s3 = calls s2 @ [sendmsg_headers r \<lparr>sin_family = AF_INET, sin_port = 0, sin_addr = daddr (ip_hdr skb)\<rparr>
          (ip_hdr skb) (probe_header (tcp_hdr skb))])) \<and>
    (\<forall>s4. \<exists>s5 ad. cbn_egress_hook e' skb' s4 = Some (NF_DROP, skb', s5) \<and>
      syns s5 = (syns s4)(a \<mapsto> ad) \<and> captured skb ad \<and>
      calls s5 = calls s4 @ [run_in_pool (Start_new_connection_syn a) (Some (skb_core (nf_cpus e') skb))])"
proof -
  let ?pr = "\<lparr>probe_iph = ip_hdr skb, probe_tcph = tcp_hdr skb, probe_listner = l\<rparr>"
  have "cbn_ingress_hook e ''RX'' skb s = Some (NF_ACCEPT,
      log_call (run_in_pool (Start_probe_syn p) None) (s\<lparr>probes := (probes s)(p \<mapsto> ?pr)\<rparr>))"
    using assms(3-8) search_listner_map [OF assms(1,2)]
    by (simp add: cbn_ingress_hook_def trace_iph_def Let_def)
  moreover have "\<exists>s3. start_probe_syn rc p s2 = Some (rc (last (calls s3)), s3) \<and> probes s3 = (probes s2)(p := None) \<and>
      calls s3 = calls s2 @ [sendmsg_headers r \<lparr>sin_family = AF_INET, sin_port = 0, sin_addr = daddr (ip_hdr skb)\<rparr>
        (ip_hdr skb) (probe_header (tcp_hdr skb))]"
    if "probes s2 p = Some ?pr" "listners s2 l = Some li" "raw li = Some r" for s2 li r
    using start_probe_syn_ok [of s2 p ?pr li r rc] that by simp
  moreover have "\<exists>s5 ad. cbn_egress_hook e' skb' s4 = Some (NF_DROP, skb', s5) \<and>
      syns s5 = (syns s4)(a \<mapsto> ad) \<and> captured skb ad \<and>
      calls s5 = calls s4 @ [run_in_pool (Start_new_connection_syn a) (Some (skb_core (nf_cpus e') skb))]" for s4
    using egress_probe [OF assms(9,4,5,12,11), of s4] assms(10)
    by (auto intro!: exI [of _ "syn_record e' skb"] simp: captured_syn_record)
  ultimately show ?thesis by auto
qed

text \<open>C24. Through a GUE tunnel that keeps the mark, and the addresses, protocol, TCP header and payload of the
  inner packet, the captured SYN makes a round trip inside the packet: the egress hook, if it gets memory for
  the record, appends the pointer to it and lets the probe go, and when the encapsulated packet passes the
  hook while the record is unchanged, it is the same record that comes back, now with the outer destination as
  the next hop; the packet is swallowed and \<open>start_new_pre_connection_syn\<close> is started on the core of the connection.\<close>

theorem gue_capture:
  assumes "routed skb skb'" and "is_out_gue skb'" and "skb_mark skb \<noteq> 0" and "protocol (ip_hdr skb) = IPPROTO_TCP"
    and "new_syn e = Some a" and "qp_wf (stack_qp e)" and "qp_wf (stack_qp e')"
  shows "\<exists>skb2 s1 ad. cbn_egress_hook e skb' s = Some (NF_ACCEPT, skb2, s1) \<and>
      syns s1 = (syns s)(a \<mapsto> ad) \<and> captured skb ad \<and> calls s1 = calls s \<and>
    (\<forall>skb3 s2. encapsulated skb2 skb3 \<and> syns s2 a = Some ad \<longrightarrow>
      (\<exists>s3 ad'. cbn_egress_hook e' skb3 s2 = Some (NF_DROP, skb3, s3) \<and> syns s3 = (syns s2)(a \<mapsto> ad') \<and>
        captured skb ad' \<and> hop_addr ad' = daddr (ip_hdr skb3) \<and>
        calls s3 = calls s2 @ [run_in_pool (Start_new_pre_connection_syn a) (Some (skb_core (nf_cpus e') skb))]))"
proof -
  let ?skb2 = "skb'\<lparr>payload := [Some a]\<rparr>" let ?ad = "syn_record e skb"
  have "cbn_egress_hook e skb' s = Some (NF_ACCEPT, ?skb2, s\<lparr>syns := (syns s)(a \<mapsto> ?ad)\<rparr>)"
    using egress_probe [OF assms(1,3,4,6,5), of s] assms(2) by simp
  moreover have "\<exists>s3 ad'. cbn_egress_hook e' skb3 s2 = Some (NF_DROP, skb3, s3) \<and> syns s3 = (syns s2)(a \<mapsto> ad') \<and>
        captured skb ad' \<and> hop_addr ad' = daddr (ip_hdr skb3) \<and>
        calls s3 = calls s2 @ [run_in_pool (Start_new_pre_connection_syn a) (Some (skb_core (nf_cpus e') skb))]"
    if "encapsulated ?skb2 skb3" "syns s2 a = Some ?ad" for skb3 s2
    using egress_encapsulated [OF that(1) _ _ assms(7) _ _ that(2) captured_syn_record] assms(1,3,4)
    by (auto intro!: exI [of _ "?ad\<lparr>hop_addr := daddr (ip_hdr skb3)\<rparr>"] simp: routed_def same_flow_def captured_syn_record)
  ultimately show ?thesis using captured_syn_record by auto
qed

definition ex_probe :: "string \<Rightarrow> sk_buff" where
  "ex_probe dev = ex_syn\<lparr>dev_name := dev, tcp_hdr := probe_header (tcp_hdr ex_syn)\<rparr>"

lemma ex_syn_sel [simp]: "skb_mark ex_syn = 7" "protocol (ip_hdr ex_syn) = 6" "syn (tcp_hdr ex_syn)"
  "\<not> ack (tcp_hdr ex_syn)" "payload ex_syn = []"
  by (simp_all add: ex_syn_def)

lemma ex_nf_env_sel [simp]: "new_syn ex_nf_env = Some 3" "new_probe ex_nf_env = Some 4" "qp_wf (stack_qp ex_nf_env)"
  by (simp_all add: ex_nf_env_def)

lemma ex_probe_routed: "routed ex_syn (ex_probe dev)" "is_out_gue (ex_probe dev) \<longleftrightarrow> take 3 dev = ''gue''"
  by (simp_all add: routed_def same_flow_def ex_probe_def is_out_gue_def numeral_3_eq_3)

text \<open>The probe in a tunnel to the hop 3, and its TTL one less.\<close>

definition ex_wrapped :: sk_buff where
  "ex_wrapped = ex_syn\<lparr>ip_hdr := \<lparr>protocol = 17, saddr = 0, daddr = 3, ip_rest = []\<rparr>, inner_protocol := 4,
     inner_ip_hdr := (ip_hdr ex_syn)\<lparr>ip_rest := [63]\<rparr>, inner_tcp_hdr := probe_header (tcp_hdr ex_syn), payload := [Some 3]\<rparr>"

lemma ex_encapsulated: "encapsulated ((ex_probe dev)\<lparr>payload := [Some 3]\<rparr>) ex_wrapped"
  by (simp add: ex_wrapped_def encapsulated_def same_flow_def ex_probe_def)

theorem syn_capture_witness:
  "\<exists>s5 ad. cbn_egress_hook ex_nf_env (ex_probe ''eth1'') kstate0 = Some (NF_DROP, ex_probe ''eth1'', s5) \<and>
     syns s5 = [3 \<mapsto> ad] \<and> captured ex_syn ad \<and>
     calls s5 = [run_in_pool (Start_new_connection_syn 3) (Some (skb_core (nf_cpus ex_nf_env) ex_syn))]"
proof -
  have "lkey (bare_listner 7) = 7" by (simp add: bare_listner_def)
  note t = ex_tenant_tree [OF this]
  show ?thesis
    using syn_capture [of 0 "ex_tenant (bare_listner 7)" ex_syn 9 ex_nf_env 4 "ex_probe ''eth1''" ex_nf_env 3 "\<lambda>_. 0"]
      t ex_probe_routed
    by (fastforce simp: kstate0_def)
qed

theorem gue_capture_witness:
  "\<exists>s1 s3 ad'. cbn_egress_hook ex_nf_env (ex_probe ''gue1'') kstate0 = Some (NF_ACCEPT, (ex_probe ''gue1'')\<lparr>payload := [Some 3]\<rparr>, s1) \<and>
     cbn_egress_hook ex_nf_env ex_wrapped s1 = Some (NF_DROP, ex_wrapped, s3) \<and> syns s3 3 = Some ad' \<and> hop_addr ad' = 3 \<and>
     captured ex_syn ad' \<and> calls s3 = [run_in_pool (Start_new_pre_connection_syn 3) (Some (skb_core (nf_cpus ex_nf_env) ex_syn))]"
proof -
  obtain skb2 s1 ad where h: "cbn_egress_hook ex_nf_env (ex_probe ''gue1'') kstate0 = Some (NF_ACCEPT, skb2, s1)"
    "syns s1 3 = Some ad" "calls s1 = []"
    "\<forall>skb3 s2. encapsulated skb2 skb3 \<and> syns s2 3 = Some ad \<longrightarrow>
      (\<exists>s3 ad'. cbn_egress_hook ex_nf_env skb3 s2 = Some (NF_DROP, skb3, s3) \<and> syns s3 = (syns s2)(3 \<mapsto> ad') \<and>
        captured ex_syn ad' \<and> hop_addr ad' = daddr (ip_hdr skb3) \<and>
        calls s3 = calls s2 @ [run_in_pool (Start_new_pre_connection_syn 3) (Some (skb_core (nf_cpus ex_nf_env) ex_syn))])"
    using gue_capture [of ex_syn "ex_probe ''gue1''" ex_nf_env 3 ex_nf_env kstate0] ex_probe_routed
    by (fastforce simp: kstate0_def)
  moreover have "skb2 = (ex_probe ''gue1'')\<lparr>payload := [Some 3]\<rparr>"
    using h(1) egress_probe [OF ex_probe_routed(1) _ _ ex_nf_env_sel(3,1), of "''gue1''" kstate0] ex_probe_routed(2) [of "''gue1''"] by simp
  ultimately show ?thesis
    using ex_encapsulated [of "''gue1''"] by (fastforce simp: ex_wrapped_def)
qed

text \<open>The pointers the probes rely on are not protected. A SYN that arrives while the tenant's server
  is still starting, or just before it is removed, crashes the pool thread: the listener found by the
  hook has no raw socket yet, or has been freed. And an encapsulated packet that looks like a probe but
  was not made by this module is trusted: the hook dereferences whatever its payload holds.\<close>

theorem probe_pointer_oops:
  "(probes s p = Some pr \<and>
      (case listners s (probe_listner pr) of None \<Rightarrow> True | Some li \<Rightarrow> raw li = None) \<longrightarrow>
      start_probe_syn rc p s = None) \<and>
   (skb_mark skb \<noteq> 0 \<and> protocol (ip_hdr skb) = IPPROTO_UDP \<and> is_cbn_probe skb \<and>
      payload skb = Some a # cells \<and> syns s a = None \<longrightarrow> cbn_egress_hook e skb s = None)"
  by (auto simp: start_probe_syn_def cbn_egress_hook_def get_cbn_probe_def arr_get_def Let_def split: option.splits)

definition ex_forged :: sk_buff where
  "ex_forged = ex_syn\<lparr>ip_hdr := (ip_hdr ex_syn)\<lparr>protocol := 17\<rparr>, inner_protocol := 4, inner_ip_hdr := ip_hdr ex_syn,
     inner_tcp_hdr := probe_header (tcp_hdr ex_syn), payload := [Some 1234]\<rparr>"

theorem probe_pointer_oops_witness:
  "let s = the (map_option snd (cbn_ingress_hook ex_nf_env ''RX'' ex_syn (ex_tenant (bare_listner 7))))
   in start_probe_syn (\<lambda>_. 0) 4 s = None \<and> cbn_egress_hook ex_nf_env ex_forged s = None"
proof -
  let ?pr = "\<lparr>probe_iph = ip_hdr ex_syn, probe_tcph = tcp_hdr ex_syn, probe_listner = 9\<rparr>"
  let ?s = "log_call (run_in_pool (Start_probe_syn 4) None) ((ex_tenant (bare_listner 7))\<lparr>probes := [4 \<mapsto> ?pr]\<rparr>)"
  have "cbn_ingress_hook ex_nf_env ''RX'' ex_syn (ex_tenant (bare_listner 7)) = Some (NF_ACCEPT, ?s)"
    by (simp add: cbn_ingress_hook_def search_rb_listner_def key_diff_def trace_iph_def ex_tenant_def kstate0_def
        bare_listner_def Let_def)
  moreover have "start_probe_syn (\<lambda>_. 0) 4 ?s = None \<and> cbn_egress_hook ex_nf_env ex_forged ?s = None"
    using probe_pointer_oops [of ?s 4 ?pr "\<lambda>_. 0" ex_forged 1234 "[]" ex_nf_env]
    by (simp add: ex_tenant_def kstate0_def bare_listner_def ex_forged_def is_cbn_probe_def)
  ultimately show ?thesis by simp
qed

end
