(* ===== verification/Format.thy ===== *)
theory Format
  imports Ktcp_Prelude
begin

text \<open>
  The formatted output the module uses: \<open>%d\<close> and \<open>%u\<close> of the kernel's \<open>sprintf\<close> family, and \<open>sprintf\<close> into a
  buffer of fixed size. \<open>sprintf\<close> does not know the size; writing past the end is an oops.
\<close>

section \<open>Definitions\<close>

definition digit :: "nat \<Rightarrow> char" where
  "digit n = char_of (48 + n)"

fun nat_dec :: "nat \<Rightarrow> string" where
  "nat_dec n = (if n < 10 then [digit n] else nat_dec (n div 10) @ [digit (n mod 10)])"

declare nat_dec.simps [simp del]

definition int_dec :: "int \<Rightarrow> string" where
  "int_dec i = (if i < 0 then ''-'' @ nat_dec (nat (- i)) else nat_dec (nat i))"

text \<open>\<open>sprintf(&buffer[idx], ...)\<close> with the formatted text \<open>str\<close>: the text and a \<open>NUL\<close> are written.\<close>

definition sprintf_at :: "string \<Rightarrow> nat \<Rightarrow> string \<Rightarrow> string option" where
  "sprintf_at buffer idx str =
     (if idx + length str + 1 \<le> length buffer
      then Some (take idx buffer @ str @ [CHR 0x00] @ drop (idx + length str + 1) buffer) else None)"

section \<open>Lemmas\<close>

lemma nat_dec_nonempty [simp]: "Suc 0 \<le> length (nat_dec n)"
  by (subst nat_dec.simps) simp

lemma length_nat_dec: "n < 10 ^ k \<Longrightarrow> 0 < k \<Longrightarrow> length (nat_dec n) \<le> k"
proof (induction n arbitrary: k rule: nat_dec.induct)
  case (1 n)
  show ?case
  proof (cases "n < 10")
    case True then show ?thesis using 1(3) by (simp add: nat_dec.simps [of n])
  next
    case False
    obtain k' where k: "k = Suc k'" using 1(3) gr0_conv_Suc by blast
    have k': "0 < k'" using 1(2) k False by (cases k') auto
    have "n div 10 < 10 ^ k'" using 1(2) k by (simp add: less_mult_imp_div_less mult.commute)
    with 1(1) [OF False this k'] show ?thesis using False k by (simp add: nat_dec.simps [of n])
  qed
qed

lemma length_int_dec:
  assumes "nat \<bar>i\<bar> < 10 ^ k" and "0 < k"
  shows "length (int_dec i) \<le> Suc k" "1 \<le> length (int_dec i)"
  using length_nat_dec [OF assms] by (auto simp: int_dec_def)

lemma length_nat_dec_u16: "length (nat_dec (unat (w :: u16))) \<le> 5"
proof -
  have "unat w < 2 ^ 16" by (rule order_less_le_trans [OF unsigned_less]) simp
  then show ?thesis by (intro length_nat_dec) auto
qed

lemma length_int_dec_s32: "length (int_dec (sint (w :: s32))) \<le> 11" "1 \<le> length (int_dec (sint w))"
proof -
  have "sint w < 2 ^ 31" "- (2 ^ 31) \<le> sint w" using sint_lt [of w] sint_ge [of w] by simp_all
  then have "nat \<bar>sint w\<bar> < 10 ^ 10" by simp
  from length_int_dec [OF this] show "length (int_dec (sint w)) \<le> 11" "1 \<le> length (int_dec (sint w))" by simp_all
qed

lemma sprintf_at_ok:
  assumes "idx + length str + 1 \<le> length buffer"
  shows "\<exists>b. sprintf_at buffer idx str = Some b \<and> length b = length buffer \<and>
    take (idx + length str) b = take idx buffer @ str \<and> b ! (idx + length str) = CHR 0x00"
  using assms by (simp add: sprintf_at_def nth_append)

end
