(* ===== verification/Split_Server.thy ===== *)
theory Split_Server
  imports Netfilter Format
begin

unbundle bit_operations_syntax

text \<open>
  The tenants' servers of \<^verbatim>\<open>tcpsplit/split.c\<close>: \<open>split_server\<close> registers a listener for a tenant, opens its
  socket and its raw socket and hands every accepted connection to the thread pool; \<open>add_server_cb\<close>
  and \<open>del_server_cb\<close> start and remove a server, \<open>stop_sockets\<close> removes all of them when the module is
  unloaded, and \<open>proc_read_string\<close> lists them.

  \<open>split_server\<close> sleeps in every call it makes on its sockets and in the allocation of the listener, and
  other threads run meanwhile: its program counter \<open>sv_pc\<close> stops at each of these calls, with the
  variables that are live there. A step performs the call and runs up to the next one.
\<close>

section \<open>Definitions\<close>

subsection \<open>Registration\<close>

text \<open>
  What the kernel provides: the result of each call, the object returned for \<open>listner_slab\<close> and what its
  memory held, the two per-core areas (\<open>None\<close> when the allocation fails, otherwise which cores have a
  pointer), the sockets that are created or accepted, the QP for an accepted connection and what its
  memory held, and the value of \<open>kthread_should_stop\<close>.
\<close>

record sv_env =
  sv_rc :: "kcall \<Rightarrow> int"
  new_listner :: "addr option"
  listner_mem :: cbn_listner
  percpu_roots :: "(cpu \<Rightarrow> bool) option"
  percpu_lists :: "(cpu \<Rightarrow> bool) option"
  possible_cpus :: "cpu list"
  sv_sock :: sock
  raw_sock :: sock
  accepted :: sock
  sv_qp :: "addr option"
  sv_qp_mem :: cbn_qp
  should_stop :: bool

text \<open>The loop over the cores: \<open>None\<close> when a per-core pointer is \<open>NULL\<close>.\<close>

fun init_roots :: "(cpu \<Rightarrow> bool) \<Rightarrow> (cpu \<Rightarrow> bool) \<Rightarrow> cpu list \<Rightarrow> (cpu \<Rightarrow> addr tree) \<Rightarrow> (cpu \<Rightarrow> addr tree) option" where
  "init_roots roots plists [] cr = Some cr"
| "init_roots roots plists (c # cs) cr =
     (if \<not> roots c then None else if \<not> plists c then None else init_roots roots plists cs (cr(c := Leaf)))"

definition register_server_sock :: "rbtree_lib \<Rightarrow> sv_env \<Rightarrow> u32 \<Rightarrow> sock option \<Rightarrow> kstate \<Rightarrow> (addr option \<times> kstate) option" where
  "register_server_sock L e t sock s = (case new_listner e of
     None \<Rightarrow> Some (None, s)
   | Some server \<Rightarrow> (case percpu_roots e of
     None \<Rightarrow> Some (None, s)
   | Some roots \<Rightarrow> (case percpu_lists e of
     None \<Rightarrow> Some (None, s)
   | Some plists \<Rightarrow> (case init_roots roots plists (possible_cpus e) (connections_root (listner_mem e)) of
     None \<Rightarrow> Some (None, s)
   | Some cr \<Rightarrow> do {
       let li = (listner_mem e)\<lparr>connections_root := cr, lkey := t, lsock := sock\<rparr>;
       let s = s\<lparr>listners := (listners s)(server \<mapsto> li)\<rparr>;
       (_, root) \<leftarrow> add_rb_listner L (listners s) (listner_root s) server;
       Some (Some server, s\<lparr>listner_root := root\<rparr>) }))))"

text \<open>Removing a listener; shutting a released socket down is an oops, and erasing a node that is not in the
  tree corrupts it.\<close>

definition remove_listner_server :: "rbtree_lib \<Rightarrow> addr \<Rightarrow> kstate \<Rightarrow> kstate option" where
  "remove_listner_server L pos s = do {
     li \<leftarrow> listners s pos;
     s \<leftarrow> (case lsock li of
         Some k \<Rightarrow> if released k s then None else Some (log_call (kernel_sock_shutdown k) s)
       | None \<Rightarrow> Some s);
     if pos \<in> set_tree (listner_root s)
     then Some (s\<lparr>listner_root := rb_erase L pos (listner_root s), listners := (listners s)(pos := None)\<rparr>)
     else None }"

subsection \<open>The server thread\<close>

abbreviation (input) BACKLOG :: nat where "BACKLOG \<equiv> 128"
abbreviation (input) INADDR_ANY :: u32 where "INADDR_ANY \<equiv> 0"

datatype sv_pc =
    Sv_start u64
  | Sv_register u32 u32
  | Sv_create u32 u32 addr
  | Sv_mark u32 u32 addr sock
  | Sv_bind u32 u32 addr sock
  | Sv_listen u32 addr sock
  | Sv_raw u32 addr sock
  | Sv_accept u32 addr sock
  | Sv_done int

definition upd_listner :: "addr \<Rightarrow> (cbn_listner \<Rightarrow> cbn_listner) \<Rightarrow> kstate \<Rightarrow> kstate option" where
  "upd_listner l f s = map_option (\<lambda>x. s\<lparr>listners := (listners s)(l \<mapsto> f x)\<rparr>) (listners s l)"

definition sv_call :: "sv_env \<Rightarrow> kcall \<Rightarrow> kstate \<Rightarrow> int \<times> kstate" where
  "sv_call e k s = (sv_rc e k, log_call k s)"

text \<open>The label \<open>error\<close>: the listener is removed, then the socket released.\<close>

definition sv_error :: "rbtree_lib \<Rightarrow> int \<Rightarrow> addr option \<Rightarrow> sock option \<Rightarrow> kstate \<Rightarrow> (sv_pc \<times> kstate) option" where
  "sv_error L rc server sock s = do {
     s \<leftarrow> (case server of Some l \<Rightarrow> remove_listner_server L l s | None \<Rightarrow> Some s);
     Some (Sv_done rc, case sock of Some k \<Rightarrow> log_call (sock_release k) s | None \<Rightarrow> s) }"

fun split_server :: "rbtree_lib \<Rightarrow> sv_env \<Rightarrow> sv_pc \<Rightarrow> kstate \<Rightarrow> (sv_pc \<times> kstate) option" where
  "split_server L e (Sv_start mark_port) s = (case void2uint mark_port of (m, prt) \<Rightarrow> do {
     l \<leftarrow> search_rb_listner (listners s) (listner_root s) m;
     if l \<noteq> None then sv_error L (- EEXIST) None None s else Some (Sv_register m prt, s) })"
| "split_server L e (Sv_register m prt) s = do {
     (srv, s) \<leftarrow> register_server_sock L e m None s;
     (case srv of
        None \<Rightarrow> sv_error L 0 None None s
      | Some l \<Rightarrow> do {
          s \<leftarrow> upd_listner l (\<lambda>x. x\<lparr>status := 1\<rparr>) s;
          Some (Sv_create m prt l, s) }) }"
| "split_server L e (Sv_create m prt l) s = (case sv_call e sock_create_kern s of (rc, s) \<Rightarrow>
     if rc \<noteq> 0 then sv_error L rc (Some l) None s else do {
       s \<leftarrow> upd_listner l (\<lambda>x. x\<lparr>lsock := Some (sv_sock e), port := ucast prt, status := 2\<rparr>) s;
       Some (Sv_mark m prt l (sv_sock e), s) })"
| "split_server L e (Sv_mark m prt l k) s = (case sv_call e (kernel_setsockopt k SO_MARK m) s of (rc, s) \<Rightarrow>
     if rc < 0 then sv_error L rc (Some l) (Some k) s else do {
       s \<leftarrow> upd_listner l (\<lambda>x. x\<lparr>status := 3\<rparr>) s;
       Some (Sv_bind m prt l k, s) })"
| "split_server L e (Sv_bind m prt l k) s =
     (let srv_addr = \<lparr>sin_family = AF_INET, sin_port = htons (ucast prt), sin_addr = htonl INADDR_ANY\<rparr>
      in case sv_call e (kernel_bind k srv_addr) s of (rc, s) \<Rightarrow>
     if rc \<noteq> 0 then sv_error L rc (Some l) (Some k) s else do {
       s \<leftarrow> upd_listner l (\<lambda>x. x\<lparr>status := 4\<rparr>) s;
       Some (Sv_listen m l k, s) })"
| "split_server L e (Sv_listen m l k) s = (case sv_call e (kernel_listen k BACKLOG) s of (rc, s) \<Rightarrow>
     if rc \<noteq> 0 then sv_error L rc (Some l) (Some k) s else do {
       s \<leftarrow> upd_listner l (\<lambda>x. x\<lparr>status := 5\<rparr>) s;
       Some (Sv_raw m l k, s) })"
| "split_server L e (Sv_raw m l k) s = (case craete_prec_conn_probe (sv_rc e) (raw_sock e) m s of (r, s) \<Rightarrow> do {
     s \<leftarrow> upd_listner l (\<lambda>x. x\<lparr>raw := r\<rparr>) s;
     if r = None then sv_error L 0 (Some l) (Some k) s else do {
       s \<leftarrow> upd_listner l (\<lambda>x. x\<lparr>status := 6\<rparr>) s;
       Some (Sv_accept m l k, s) } })"
| "split_server L e (Sv_accept m l k) s = (case sv_call e (kernel_accept k) s of (rc, s) \<Rightarrow>
     if rc \<noteq> 0 then Some (Sv_done rc, log_call (sock_release k) s)
     else do {
       q \<leftarrow> sv_qp e;
       let x = (set_tid m ((sv_qp_mem e)\<lparr>rx := PTR (accepted e)\<rparr>))\<lparr>listner := Some l, ref_cnt := 0\<rparr>;
       let s = log_call (run_in_pool (Start_new_connection q) None) (s\<lparr>qps := (qps s)(q \<mapsto> x)\<rparr>);
       if should_stop e then do {
         s \<leftarrow> upd_listner l (\<lambda>x. x\<lparr>status := 6\<rparr>) s;
         sv_error L 0 (Some l) (Some k) s }
       else Some (Sv_accept m l k, s) })"
| "split_server L e (Sv_done rc) s = Some (Sv_done rc, s)"

text \<open>A thread that runs alone for a number of steps, each with its own environment.\<close>

fun run_server :: "rbtree_lib \<Rightarrow> sv_env list \<Rightarrow> sv_pc \<Rightarrow> kstate \<Rightarrow> (sv_pc \<times> kstate) option" where
  "run_server L [] pc s = Some (pc, s)"
| "run_server L (e # es) pc s = do { (pc, s) \<leftarrow> split_server L e pc s; run_server L es pc s }"

subsection \<open>Commands\<close>

definition add_server_cb :: "u32 \<Rightarrow> u32 \<Rightarrow> kstate \<Rightarrow> kstate" where
  "add_server_cb t prt s = log_call (run_in_pool (Split_server (uint2void t prt)) None) s"

definition del_server_cb :: "rbtree_lib \<Rightarrow> u32 \<Rightarrow> kstate \<Rightarrow> kstate option" where
  "del_server_cb L t s = do {
     l \<leftarrow> search_rb_listner (listners s) (listner_root s) t;
     (case l of Some l \<Rightarrow> remove_listner_server L l s | None \<Rightarrow> Some s) }"

text \<open>
  \<open>rbtree_postorder_for_each_entry_safe\<close>: the next node is looked up in the tree before the body runs,
  and becomes the current node after it. \<open>rb_next_postorder\<close> depends on the shape of the tree at that
  moment. The first argument bounds the number of rounds.
\<close>

fun next_in :: "'a \<Rightarrow> 'a list \<Rightarrow> 'a option" where
  "next_in x (y # z # zs) = (if x = y then Some z else next_in x (z # zs))"
| "next_in x _ = None"

definition rb_first_postorder :: "'a tree \<Rightarrow> 'a option" where
  "rb_first_postorder t = (case postorder t of [] \<Rightarrow> None | x # _ \<Rightarrow> Some x)"

definition rb_next_postorder :: "'a \<Rightarrow> 'a tree \<Rightarrow> 'a option" where
  "rb_next_postorder x t = next_in x (postorder t)"

fun stop_loop :: "rbtree_lib \<Rightarrow> nat \<Rightarrow> addr option \<Rightarrow> kstate \<Rightarrow> kstate option" where
  "stop_loop L n None s = Some s"
| "stop_loop L 0 (Some pos) s = None"
| "stop_loop L (Suc n) (Some pos) s = do {
     let tmp = rb_next_postorder pos (listner_root s);
     s \<leftarrow> remove_listner_server L pos s;
     stop_loop L n tmp s }"

definition stop_sockets :: "rbtree_lib \<Rightarrow> kstate \<Rightarrow> kstate option" where
  "stop_sockets L s = stop_loop L (size (listner_root s)) (rb_first_postorder (listner_root s)) s"

text \<open>\<open>stop_tennat_proxies\<close>, whose only call is commented out, shuts the sockets of a tree of QPs down.\<close>

fun shutdown_all :: "addr list \<Rightarrow> kstate \<Rightarrow> kstate option" where
  "shutdown_all [] s = Some s"
| "shutdown_all (pos # xs) s = do {
     x \<leftarrow> qps s pos;
     s \<leftarrow> (case tx x of NULL \<Rightarrow> Some s | ERR_PTR _ \<Rightarrow> None | PTR k \<Rightarrow> Some (log_call (kernel_sock_shutdown k) s));
     s \<leftarrow> (case rx x of NULL \<Rightarrow> Some s | ERR_PTR _ \<Rightarrow> None | PTR k \<Rightarrow> Some (log_call (kernel_sock_shutdown k) s));
     shutdown_all xs s }"

definition stop_tennat_proxies :: "addr tree \<Rightarrow> kstate \<Rightarrow> kstate option" where
  "stop_tennat_proxies root s = shutdown_all (postorder root) s"

text \<open>The list of servers shown in \<^verbatim>\<open>/proc\<close>. The body does not change the tree.\<close>

definition listner_line :: "cbn_listner \<Rightarrow> string" where
  "listner_line li = ''tid='' @ int_dec (sint (lkey li)) @ '' port='' @ nat_dec (unat (port li)) @
     '' status='' @ nat_dec (unat (status li)) @ [CHR 0x0A]"

fun read_loop :: "(addr \<rightharpoonup> cbn_listner) \<Rightarrow> addr list \<Rightarrow> nat \<Rightarrow> string \<Rightarrow> (nat \<times> string) option" where
  "read_loop ls [] idx buffer = Some (idx, buffer)"
| "read_loop ls (pos # xs) idx buffer = do {
     li \<leftarrow> ls pos;
     buffer \<leftarrow> sprintf_at buffer idx (listner_line li);
     read_loop ls xs (idx + length (listner_line li)) buffer }"

text \<open>The result \<open>None\<close> inside is \<open>NULL\<close>, when \<open>kzalloc\<close> fails.\<close>

definition proc_read_string :: "bool \<Rightarrow> kstate \<Rightarrow> (nat \<times> string) option option" where
  "proc_read_string kzalloc_ok s =
     (if \<not> kzalloc_ok then Some None
      else map_option Some (read_loop (listners s) (postorder (listner_root s)) 0 (replicate PAGE_SIZE (CHR 0x00))))"

section \<open>A server that runs alone\<close>

abbreviation tenants :: "kstate \<Rightarrow> s32 \<rightharpoonup> addr" where
  "tenants s \<equiv> listner_map (listners s) (listner_root s)"

abbreviation tenants_ok :: "s32 \<Rightarrow> kstate \<Rightarrow> bool" where
  "tenants_ok b s \<equiv> listner_tree b (listners s) (listner_root s)"

text \<open>The socket of a listener is open.\<close>

definition sock_open :: "kstate \<Rightarrow> addr \<Rightarrow> bool" where
  "sock_open s l \<longleftrightarrow> (\<forall>k. Option.bind (listners s l) lsock = Some k \<longrightarrow> \<not> released k s)"

text \<open>The listeners are as they were in \<open>s0\<close>, respectively with the listener \<open>l\<close> of tenant \<open>t\<close> added.\<close>

definition unregistered :: "s32 \<Rightarrow> kstate \<Rightarrow> kstate \<Rightarrow> bool" where
  "unregistered b s0 s \<longleftrightarrow> tenants_ok b s \<and> listners s = listners s0 \<and> tenants s = tenants s0 \<and>
     set_tree (listner_root s) = set_tree (listner_root s0)"

definition registered :: "s32 \<Rightarrow> kstate \<Rightarrow> s32 \<Rightarrow> addr \<Rightarrow> cbn_listner \<Rightarrow> kstate \<Rightarrow> bool" where
  "registered b s0 t l li s \<longleftrightarrow> tenants_ok b s \<and> listners s0 l = None \<and> listners s = (listners s0)(l \<mapsto> li) \<and>
     lkey li = t \<and> tenants s0 t = None \<and> l \<notin> set_tree (listner_root s0) \<and> tenants s = (tenants s0)(t \<mapsto> l) \<and>
     set_tree (listner_root s) = insert l (set_tree (listner_root s0))"

lemma listner_tree_live: "listner_tree b ls root \<Longrightarrow> x \<in> set_tree root \<Longrightarrow> ls x \<noteq> None"
  by (auto simp: listner_tree_def rb_ordered_def)

lemma listner_tree_window: "listner_tree b ls root \<Longrightarrow> x \<in> set_tree root \<Longrightarrow> ls x = Some li \<Longrightarrow> window b (lkey li)"
  by (fastforce simp: listner_tree_def rb_ordered_def)

text \<open>Logged calls, and writes to the other fields of the state, do not matter.\<close>

lemma registered_same [simp]:
  "registered b s0 t l li (log_call c s) = registered b s0 t l li s"
  "registered b s0 t l li (s\<lparr>qps := q\<rparr>) = registered b s0 t l li s"
  "unregistered b s0 (log_call c s) = unregistered b s0 s"
  by (simp_all add: registered_def unregistered_def)

lemma registered_upd:
  assumes "registered b s0 t l li s" and "lkey (f li) = lkey li"
  shows "\<exists>s'. upd_listner l f s = Some s' \<and> registered b s0 t l (f li) s' \<and> calls s' = calls s \<and> qps s' = qps s"
proof -
  have s: "listners s = (listners s0)(l \<mapsto> li)" using assms(1) by (simp add: registered_def)
  have "map_option lkey (listners s x) = map_option lkey (((listners s)(l \<mapsto> f li)) x)" for x
    using s assms(2) by simp
  note c = listner_tree_cong [of _ "listners s" "(listners s)(l \<mapsto> f li)", OF this]
  show ?thesis
    using assms s c by (auto simp: upd_listner_def registered_def)
qed

lemma register_ok:
  assumes "rbtree_lib_ok L" and "tenants_ok b s" and "window b t" and "tenants s t = None"
    and "\<And>l. new_listner e = Some l \<Longrightarrow> listners s l = None"
  shows "register_server_sock L e t k s = Some (None, s) \<or>
    (\<exists>l li s'. register_server_sock L e t k s = Some (Some l, s') \<and> registered b s t l li s' \<and> lsock li = k \<and>
       calls s' = calls s \<and> new_listner e = Some l)"
proof (cases "\<exists>l roots plists cr. new_listner e = Some l \<and> percpu_roots e = Some roots \<and> percpu_lists e = Some plists \<and>
    init_roots roots plists (possible_cpus e) (connections_root (listner_mem e)) = Some cr")
  case True
  then obtain l roots plists cr where e: "new_listner e = Some l" "percpu_roots e = Some roots" "percpu_lists e = Some plists"
    "init_roots roots plists (possible_cpus e) (connections_root (listner_mem e)) = Some cr" by blast
  let ?li = "(listner_mem e)\<lparr>connections_root := cr, lkey := t, lsock := k\<rparr>"
  define ls where "ls = (listners s)(l \<mapsto> ?li)"
  have l: "listners s l = None" using assms(5) e(1) .
  have nl: "l \<notin> set_tree (listner_root s)" using listner_tree_live [OF assms(2)] l by blast
  have c: "listner_tree b ls (listner_root s)" "listner_map ls (listner_root s) = tenants s"
    using listner_tree_cong [of "listner_root s" "listners s" ls] listner_tree_live [OF assms(2)] l assms(2)
    by (fastforce simp: ls_def)+
  obtain root' where "add_rb_listner L ls (listner_root s) l = Some (None, root')" "listner_tree b ls root'"
    "set_tree root' = insert l (set_tree (listner_root s))" "listner_map ls root' = (tenants s)(t \<mapsto> l)"
    using add_listner_map [OF assms(1) c(1), of l ?li] assms(3,4) c(2) by (auto simp: ls_def)
  then have "register_server_sock L e t k s = Some (Some l, s\<lparr>listners := ls, listner_root := root'\<rparr>)"
    "registered b s t l ?li (s\<lparr>listners := ls, listner_root := root'\<rparr>)"
    using e l nl assms(4) by (simp_all add: register_server_sock_def registered_def ls_def Let_def)
  then show ?thesis using e(1) by (intro disjI2 exI [of _ l] exI [of _ ?li] exI [of _ "s\<lparr>listners := ls, listner_root := root'\<rparr>"]) simp
next
  case False
  then show ?thesis by (auto simp: register_server_sock_def split: option.splits)
qed

lemma remove_any:
  assumes "rbtree_lib_ok L" and "tenants_ok b s" and "pos \<in> set_tree (listner_root s)" and "sock_open s pos"
  shows "\<exists>li s'. listners s pos = Some li \<and> remove_listner_server L pos s = Some s' \<and> tenants_ok b s' \<and>
    listner_root s' = rb_erase L pos (listner_root s) \<and> set_tree (listner_root s') = set_tree (listner_root s) - {pos} \<and>
    listners s' = (listners s)(pos := None) \<and> tenants s' = (tenants s)(lkey li := None) \<and>
    calls s' = calls s @ (case lsock li of Some k \<Rightarrow> [kernel_sock_shutdown k] | None \<Rightarrow> [])"
proof -
  let ?root = "rb_erase L pos (listner_root s)" let ?ls = "(listners s)(pos := None)"
  obtain li where li: "listners s pos = Some li" using listner_tree_live [OF assms(2,3)] by blast
  have er: "listner_tree b (listners s) ?root" "set_tree ?root = set_tree (listner_root s) - {pos}"
    "listner_map (listners s) ?root = (tenants s)(lkey li := None)"
    using erase_listner_map [of L b "listners s" "listner_root s" pos li] assms li by auto
  have k: "map_option lkey (listners s x) = map_option lkey (?ls x)" if "x \<in> set_tree ?root" for x
    using that er(2) by auto
  have c: "listner_tree b ?ls ?root" "listner_map ?ls ?root = (tenants s)(lkey li := None)"
    using listner_tree_cong [of ?root "listners s" ?ls, OF k] er by auto
  show ?thesis
    using li c er(2) assms(3,4) by (auto simp: remove_listner_server_def sock_open_def split: option.splits)
qed

lemma remove_released:
  assumes "Option.bind (listners s l) lsock = Some k" and "released k s"
  shows "remove_listner_server L l s = None"
  using assms by (auto simp: remove_listner_server_def split: Option.bind_splits)

lemma remove_ok:
  assumes "rbtree_lib_ok L" and "registered b s0 t l li s" and "\<And>k. lsock li = Some k \<Longrightarrow> \<not> released k s"
  shows "\<exists>s'. remove_listner_server L l s = Some s' \<and> unregistered b s0 s' \<and>
    calls s' = calls s @ (case lsock li of Some k \<Rightarrow> [kernel_sock_shutdown k] | None \<Rightarrow> [])"
proof -
  have "sock_open s l" using assms(2,3) by (simp add: sock_open_def registered_def)
  then show ?thesis
    using remove_any [OF assms(1), of b s l] assms(2) by (auto simp: registered_def unregistered_def fun_upd_idem)
qed

text \<open>As long as the thread runs, no socket has been released since the start, and its own was open then.\<close>

definition undisturbed :: "kstate \<Rightarrow> kstate \<Rightarrow> bool" where
  "undisturbed s0 s \<longleftrightarrow> (\<forall>k. released k s \<longleftrightarrow> released k s0)"

definition serving :: "s32 \<Rightarrow> kstate \<Rightarrow> s32 \<Rightarrow> addr \<Rightarrow> cbn_listner \<Rightarrow> kstate \<Rightarrow> bool" where
  "serving b s0 t l li s \<longleftrightarrow> registered b s0 t l li s \<and> undisturbed s0 s \<and> (\<forall>k. lsock li = Some k \<longrightarrow> \<not> released k s0)"

lemma serving_same [simp]:
  "(\<And>k. c \<noteq> sock_release k) \<Longrightarrow> serving b s0 t l li (log_call c s) = serving b s0 t l li s"
  "serving b s0 t l li (s\<lparr>qps := q\<rparr>) = serving b s0 t l li s"
  by (simp_all add: serving_def undisturbed_def) (simp add: released_def)

lemma serving_upd:
  assumes "serving b s0 t l li s" and "lkey (f li) = lkey li" and "\<And>k. lsock (f li) = Some k \<Longrightarrow> \<not> released k s0"
  shows "\<exists>s'. upd_listner l f s = Some s' \<and> serving b s0 t l (f li) s'"
  using registered_upd [of b s0 t l li s f] assms by (auto simp: serving_def undisturbed_def released_def)

text \<open>
  What is true of a server thread that runs alone from the state \<open>s0\<close>, at each of its stops. When it has
  ended, the listeners are as before, unless \<open>kernel_accept\<close> has failed.
\<close>

fun sv_inv :: "s32 \<Rightarrow> kstate \<Rightarrow> u32 \<Rightarrow> u32 \<Rightarrow> sv_pc \<Rightarrow> kstate \<Rightarrow> bool" where
  "sv_inv b s0 t prt (Sv_start w) s \<longleftrightarrow> w = uint2void t prt \<and> unregistered b s0 s \<and> undisturbed s0 s"
| "sv_inv b s0 t prt (Sv_register m q) s \<longleftrightarrow> m = t \<and> q = prt \<and> tenants s0 t = None \<and> unregistered b s0 s \<and> undisturbed s0 s"
| "sv_inv b s0 t prt (Sv_create m q l) s \<longleftrightarrow> m = t \<and> q = prt \<and>
     (\<exists>li. serving b s0 t l li s \<and> status li = 1 \<and> lsock li = None)"
| "sv_inv b s0 t prt (Sv_mark m q l k) s \<longleftrightarrow> m = t \<and> q = prt \<and>
     (\<exists>li. serving b s0 t l li s \<and> status li = 2 \<and> lsock li = Some k \<and> port li = ucast prt)"
| "sv_inv b s0 t prt (Sv_bind m q l k) s \<longleftrightarrow> m = t \<and> q = prt \<and>
     (\<exists>li. serving b s0 t l li s \<and> status li = 3 \<and> lsock li = Some k \<and> port li = ucast prt)"
| "sv_inv b s0 t prt (Sv_listen m l k) s \<longleftrightarrow> m = t \<and>
     (\<exists>li. serving b s0 t l li s \<and> status li = 4 \<and> lsock li = Some k \<and> port li = ucast prt)"
| "sv_inv b s0 t prt (Sv_raw m l k) s \<longleftrightarrow> m = t \<and>
     (\<exists>li. serving b s0 t l li s \<and> status li = 5 \<and> lsock li = Some k \<and> port li = ucast prt)"
| "sv_inv b s0 t prt (Sv_accept m l k) s \<longleftrightarrow> m = t \<and>
     (\<exists>li. serving b s0 t l li s \<and> status li = 6 \<and> lsock li = Some k \<and> port li = ucast prt \<and> raw li \<noteq> None)"
| "sv_inv b s0 t prt (Sv_done rc) s \<longleftrightarrow> unregistered b s0 s \<or>
     rc \<noteq> 0 \<and> (\<exists>l li k. registered b s0 t l li s \<and> lsock li = Some k \<and> last (calls s) = sock_release k)"

definition sv_env_ok :: "kstate \<Rightarrow> sv_env \<Rightarrow> bool" where
  "sv_env_ok s0 e \<longleftrightarrow> (\<forall>l. new_listner e = Some l \<longrightarrow> listners s0 l = None) \<and> \<not> released (sv_sock e) s0"

lemma sv_error_ok:
  assumes "rbtree_lib_ok L" and "serving b s0 t l li s"
  shows "\<exists>s'. sv_error L rc (Some l) k s = Some (Sv_done rc, s') \<and> sv_inv b s0 t prt (Sv_done rc) s'"
proof -
  obtain s' where "remove_listner_server L l s = Some s'" "unregistered b s0 s'"
    using remove_ok [OF assms(1), of b s0 t l li s] assms(2) by (auto simp: serving_def undisturbed_def)
  then show ?thesis by (auto simp: sv_error_def split: option.split)
qed

text \<open>The step shared by the calls in the middle: on failure the server is taken down, otherwise the
  listener is updated and the thread goes on.\<close>

lemma sv_call_step:
  assumes "rbtree_lib_ok L" and "serving b s0 t l li s" and "lkey (f li) = lkey li" and "\<And>k. lsock (f li) = Some k \<Longrightarrow> \<not> released k s0"
    and "\<And>s'. serving b s0 t l (f li) s' \<Longrightarrow> sv_inv b s0 t prt pc' s'" and "\<And>k. c \<noteq> sock_release k"
  shows "\<exists>pc'' s'. (if bad then sv_error L rc (Some l) k (log_call c s)
      else do { s \<leftarrow> upd_listner l f (log_call c s); Some (pc', s) }) = Some (pc'', s') \<and> sv_inv b s0 t prt pc'' s'"
proof -
  have r: "serving b s0 t l li (log_call c s)" using assms(2,6) by simp
  show ?thesis
  proof (cases bad)
    case True then show ?thesis using sv_error_ok [OF assms(1) r, of rc k prt] by auto
  next
    case False then show ?thesis using serving_upd [OF r, of f] assms(3-5) by auto
  qed
qed

lemma sv_step_start:
  assumes "window b t" and "sv_inv b s0 t prt (Sv_start w) s"
  shows "\<exists>pc' s'. split_server L e (Sv_start w) s = Some (pc', s') \<and> sv_inv b s0 t prt pc' s'"
proof -
  have "search_rb_listner (listners s) (listner_root s) t = Some (tenants s0 t)" "w = uint2void t prt"
    using assms search_listner_map [of b "listners s" "listner_root s" t] by (auto simp: unregistered_def)
  moreover have "void2uint (uint2void t prt) = (t, prt)" by (rule void2uint_uint2void)
  ultimately show ?thesis using assms(2) by (simp add: sv_error_def)
qed

lemma sv_step_register:
  assumes "rbtree_lib_ok L" and "window b t" and "sv_env_ok s0 e" and "sv_inv b s0 t prt (Sv_register m q) s"
  shows "\<exists>pc' s'. split_server L e (Sv_register m q) s = Some (pc', s') \<and> sv_inv b s0 t prt pc' s'"
proof -
  have u: "tenants_ok b s" "listners s = listners s0" "tenants s = tenants s0" "m = t" "q = prt" "tenants s t = None"
    "set_tree (listner_root s) = set_tree (listner_root s0)" using assms(4) by (auto simp: unregistered_def)
  have "new_listner e = Some l \<Longrightarrow> listners s l = None" for l using assms(3) u by (auto simp: sv_env_ok_def)
  then consider "register_server_sock L e t None s = Some (None, s)" |
    l li s' where "register_server_sock L e t None s = Some (Some l, s')" "registered b s t l li s'" "lsock li = None" "calls s' = calls s"
    using register_ok [OF assms(1) u(1) assms(2) u(6), of e None] by blast
  then show ?thesis
  proof cases
    case 1 then show ?thesis using assms(4) by (simp add: sv_error_def)
  next
    case r: (2 l li s')
    have "undisturbed s0 s'" using assms(4) r(4) by (simp add: undisturbed_def released_def)
    then have "serving b s0 t l li s'" using r(2,3) u by (auto simp: registered_def serving_def)
    then obtain s2 where "upd_listner l (\<lambda>x. x\<lparr>status := 1\<rparr>) s' = Some s2" "serving b s0 t l (li\<lparr>status := 1\<rparr>) s2"
      using serving_upd [of b s0 t l li s' "\<lambda>x. x\<lparr>status := 1\<rparr>"] r(3) by auto
    then show ?thesis using r(1,3) u by (auto intro!: exI [of _ "li\<lparr>status := 1\<rparr>"])
  qed
qed

lemma sv_step_raw:
  assumes "rbtree_lib_ok L" and "sv_inv b s0 t prt (Sv_raw m l k) s"
  shows "\<exists>pc' s'. split_server L e (Sv_raw m l k) s = Some (pc', s') \<and> sv_inv b s0 t prt pc' s'"
proof -
  obtain li where r: "serving b s0 t l li s" "lsock li = Some k" "port li = ucast prt" "m = t" using assms(2) by auto
  then have op: "\<not> released k s0" by (simp add: serving_def)
  obtain rw s1 where c: "craete_prec_conn_probe (sv_rc e) (raw_sock e) m s = (rw, s1)" by fastforce
  then have "serving b s0 t l li s1"
    using r(1) by (auto simp: craete_prec_conn_probe_def Let_def split: if_splits)
  then obtain s2 where s2: "upd_listner l (\<lambda>x. x\<lparr>raw := rw\<rparr>) s1 = Some s2" "serving b s0 t l (li\<lparr>raw := rw\<rparr>) s2"
    using serving_upd [of b s0 t l li s1 "\<lambda>x. x\<lparr>raw := rw\<rparr>"] r(2) op by auto
  show ?thesis
  proof (cases "rw = None")
    case True then show ?thesis using sv_error_ok [OF assms(1) s2(2), of 0 "Some k" prt] c s2(1) by auto
  next
    case False
    obtain s3 where "upd_listner l (\<lambda>x. x\<lparr>status := 6\<rparr>) s2 = Some s3" "serving b s0 t l (li\<lparr>raw := rw, status := 6\<rparr>) s3"
      using serving_upd [OF s2(2), of "\<lambda>x. x\<lparr>status := 6\<rparr>"] r(2) op by auto
    then show ?thesis using False c s2(1) r by (auto intro!: exI [of _ "li\<lparr>raw := rw, status := 6\<rparr>"])
  qed
qed

lemma sv_step_accept:
  assumes "rbtree_lib_ok L" and "sv_qp e \<noteq> None" and "sv_inv b s0 t prt (Sv_accept m l k) s"
  shows "\<exists>pc' s'. split_server L e (Sv_accept m l k) s = Some (pc', s') \<and> sv_inv b s0 t prt pc' s'"
proof -
  obtain li where r: "serving b s0 t l li s" "lsock li = Some k" using assms(3) by auto
  then have op: "\<not> released k s0" by (simp add: serving_def)
  obtain q where q: "sv_qp e = Some q" using assms(2) by auto
  let ?s = "log_call (run_in_pool (Start_new_connection q) None) (log_call (kernel_accept k) s\<lparr>qps := (qps s)(q \<mapsto>
      (set_tid m ((sv_qp_mem e)\<lparr>rx := PTR (accepted e)\<rparr>))\<lparr>listner := Some l, ref_cnt := 0\<rparr>)\<rparr>)"
  have "serving b s0 t l li ?s" using r by simp
  from serving_upd [OF this, of "\<lambda>x. x\<lparr>status := 6\<rparr>"] obtain s1 where
    s1: "upd_listner l (\<lambda>x. x\<lparr>status := 6\<rparr>) ?s = Some s1" "serving b s0 t l (li\<lparr>status := 6\<rparr>) s1" using r(2) op by auto
  show ?thesis
  proof (cases "sv_rc e (kernel_accept k) = 0")
    case True then show ?thesis
      using assms(3) q s1(1) sv_error_ok [OF assms(1) s1(2), of 0 "Some k" prt] by (auto simp: sv_call_def Let_def)
  next
    case False then show ?thesis using r by (auto simp: sv_call_def serving_def)
  qed
qed

lemma sv_step:
  assumes "rbtree_lib_ok L" and "window b t" and "sv_env_ok s0 e" and "sv_inv b s0 t prt pc s" and "sv_qp e \<noteq> None"
  shows "\<exists>pc' s'. split_server L e pc s = Some (pc', s') \<and> sv_inv b s0 t prt pc' s'"
proof (cases pc)
  case (Sv_create m q l)
  then obtain li where r: "serving b s0 t l li s" using assms(4) by auto
  show ?thesis unfolding Sv_create split_server.simps sv_call_def prod.case
    by (rule sv_call_step [OF assms(1) r]) (use assms(3,4) Sv_create in \<open>auto simp: sv_env_ok_def\<close>)
next
  case (Sv_mark m q l k)
  then obtain li where r: "serving b s0 t l li s" "lsock li = Some k" "port li = ucast prt" using assms(4) by auto
  show ?thesis unfolding Sv_mark split_server.simps sv_call_def prod.case
    by (rule sv_call_step [OF assms(1) r(1)]) (use assms(4) Sv_mark r in \<open>auto simp: serving_def\<close>)
next
  case (Sv_bind m q l k)
  then obtain li where r: "serving b s0 t l li s" "lsock li = Some k" "port li = ucast prt" using assms(4) by auto
  show ?thesis unfolding Sv_bind split_server.simps sv_call_def prod.case Let_def
    by (rule sv_call_step [OF assms(1) r(1)]) (use assms(4) Sv_bind r in \<open>auto simp: serving_def\<close>)
next
  case (Sv_listen m l k)
  then obtain li where r: "serving b s0 t l li s" "lsock li = Some k" "port li = ucast prt" using assms(4) by auto
  show ?thesis unfolding Sv_listen split_server.simps sv_call_def prod.case
    by (rule sv_call_step [OF assms(1) r(1)]) (use assms(4) Sv_listen r in \<open>auto simp: serving_def\<close>)
next
  case (Sv_start w) then show ?thesis using sv_step_start assms(2,4) by blast
next
  case (Sv_register m q) then show ?thesis using sv_step_register assms(1-4) by blast
next
  case (Sv_raw m l k) then show ?thesis using sv_step_raw assms(1,4) by blast
next
  case (Sv_accept m l k) then show ?thesis using sv_step_accept assms(1,4,5) by blast
qed (use assms(4) in auto)

lemma run_server_inv:
  assumes "rbtree_lib_ok L" and "window b t" and "\<forall>e \<in> set es. sv_env_ok s0 e \<and> sv_qp e \<noteq> None" and "sv_inv b s0 t prt pc s"
  shows "\<exists>pc' s'. run_server L es pc s = Some (pc', s') \<and> sv_inv b s0 t prt pc' s'"
  using assms(3,4)
proof (induction es arbitrary: pc s)
  case (Cons e es)
  then obtain pc1 s1 where "split_server L e pc s = Some (pc1, s1)" "sv_inv b s0 t prt pc1 s1"
    using sv_step [OF assms(1,2), of s0 e prt pc s] by auto
  then show ?case using Cons by auto
qed simp

lemma init_roots_all: "(\<And>c. roots c \<and> plists c) \<Longrightarrow> init_roots roots plists cs cr = Some (\<lambda>c. if c \<in> set cs then Leaf else cr c)"
  by (induction cs arbitrary: cr) auto

text \<open>The calls of a start without failures.\<close>

definition start_calls :: "sv_env \<Rightarrow> u32 \<Rightarrow> u32 \<Rightarrow> kcall list" where
  "start_calls e t prt =
     [sock_create_kern, kernel_setsockopt (sv_sock e) SO_MARK t,
      kernel_bind (sv_sock e) \<lparr>sin_family = AF_INET, sin_port = htons (ucast prt), sin_addr = 0\<rparr>,
      kernel_listen (sv_sock e) BACKLOG,
      sock_create_raw, kernel_setsockopt (raw_sock e) SO_MARK t, kernel_setsockopt (raw_sock e) IP_HDRINCL t]"

definition all_well :: "kstate \<Rightarrow> sv_env \<Rightarrow> bool" where
  "all_well s e \<longleftrightarrow> sv_env_ok s e \<and> sv_qp e \<noteq> None \<and> (\<forall>k. sv_rc e k = 0) \<and> new_listner e \<noteq> None \<and>
     percpu_roots e = Some (\<lambda>_. True) \<and> percpu_lists e = Some (\<lambda>_. True)"

lemma start_run:
  assumes "rbtree_lib_ok L" and "tenants_ok b s" and "window b t" and "tenants s t = None" and "all_well s e"
  shows "\<exists>l s'. run_server L (replicate 7 e) (Sv_start (uint2void t prt)) s = Some (Sv_accept t l (sv_sock e), s') \<and>
    calls s' = calls s @ start_calls e t prt"
proof -
  have e: "\<And>k. sv_rc e k = 0" "register_server_sock L e t None s \<noteq> Some (None, s)"
    using assms(5) by (auto simp: all_well_def register_server_sock_def init_roots_all Let_def bind_eq_Some_conv)
  obtain l li s1 where r: "register_server_sock L e t None s = Some (Some l, s1)" "registered b s t l li s1" "calls s1 = calls s"
    using register_ok [OF assms(1-4), of e None] assms(5) e(2) by (auto simp: all_well_def sv_env_ok_def)
  have "listners s1 l = Some li" using r(2) by (simp add: registered_def)
  moreover have "search_rb_listner (listners s) (listner_root s) t = Some None"
    using search_listner_map [OF assms(2,3)] assms(4) by simp
  moreover have "htonl 0 = 0" by (simp add: htonl_def)
  ultimately show ?thesis
    using r(1,3) e(1)
    by (simp add: numeral_eq_Suc void2uint_uint2void sv_call_def upd_listner_def craete_prec_conn_probe_def start_calls_def Let_def)
qed

text \<open>Removing a tenant by its id.\<close>

lemma del_server_tenants:
  assumes "rbtree_lib_ok L" and "tenants_ok b s" and "window b t" and op: "\<And>l. tenants s t = Some l \<Longrightarrow> sock_open s l"
  shows "\<exists>s'. del_server_cb L t s = Some s' \<and> tenants s' = (tenants s)(t := None)"
proof (cases "tenants s t")
  case None
  then show ?thesis using search_listner_map [OF assms(2,3)] by (simp add: del_server_cb_def fun_upd_idem)
next
  case (Some l)
  then have l: "l \<in> set_tree (listner_root s)" "map_option lkey (listners s l) = Some t"
    using listner_map_Some [OF assms(2)] by blast+
  then obtain s' where "remove_listner_server L l s = Some s'" "tenants s' = (tenants s)(t := None)"
    using remove_any [OF assms(1,2) l(1) op [OF Some]] by auto
  then show ?thesis using search_listner_map [OF assms(2,3)] Some by (simp add: del_server_cb_def)
qed

section \<open>Properties\<close>

text \<open>C26. A server thread that runs alone never oopses, whatever the results of the calls it makes, as long as
  the slab has a QP for each connection it accepts; if it has none, accepting a connection is an oops. At
  every stop the tree of listeners is in order, the listener of the tenant is in it exactly from its
  registration on, its status names the stage that was reached, and a thread that has ended has
  left the listeners as they were before, unless \<open>kernel_accept\<close> failed. A start without failures gets
  to \<open>kernel_accept\<close> in seven stages, after the calls listed in \<open>start_calls\<close>: the socket marked with the
  tenant, bound to the port and listening, the raw socket marked with the tenant.\<close>

theorem server_lifecycle:
  assumes "rbtree_lib_ok L" and "tenants_ok b s" and "window b t"
  shows "((\<forall>e \<in> set es. sv_env_ok s e \<and> sv_qp e \<noteq> None) \<longrightarrow>
      (\<exists>pc s'. run_server L es (Sv_start (uint2void t prt)) s = Some (pc, s') \<and> sv_inv b s t prt pc s')) \<and>
    (sv_rc e (kernel_accept k) = 0 \<and> sv_qp e = None \<longrightarrow> split_server L e (Sv_accept m l' k) s1 = None) \<and>
    (all_well s e \<and> tenants s t = None \<longrightarrow>
      (\<exists>l li s'. run_server L (replicate 7 e) (Sv_start (uint2void t prt)) s = Some (Sv_accept t l (sv_sock e), s') \<and>
        calls s' = calls s @ start_calls e t prt \<and> tenants s' = (tenants s)(t \<mapsto> l) \<and> listners s' = (listners s)(l \<mapsto> li) \<and>
        lkey li = t \<and> port li = ucast prt \<and> status li = 6 \<and> lsock li = Some (sv_sock e) \<and> raw li \<noteq> None))"
proof (intro conjI impI)
  have i: "sv_inv b s t prt (Sv_start (uint2void t prt)) s" using assms(2) by (simp add: unregistered_def undisturbed_def)
  show "\<exists>pc s'. run_server L es (Sv_start (uint2void t prt)) s = Some (pc, s') \<and> sv_inv b s t prt pc s'"
    if "\<forall>e \<in> set es. sv_env_ok s e \<and> sv_qp e \<noteq> None" using run_server_inv [OF assms(1,3) that i] .
  show "split_server L e (Sv_accept m l' k) s1 = None" if "sv_rc e (kernel_accept k) = 0 \<and> sv_qp e = None"
    using that by (simp add: sv_call_def)
  assume e: "all_well s e \<and> tenants s t = None"
  obtain l s' where "run_server L (replicate 7 e) (Sv_start (uint2void t prt)) s = Some (Sv_accept t l (sv_sock e), s')"
    "calls s' = calls s @ start_calls e t prt" using start_run [OF assms] e by blast
  moreover have "sv_inv b s t prt (Sv_accept t l (sv_sock e)) s'"
    using run_server_inv [OF assms(1,3) _ i, of "replicate 7 e"] e calculation(1) by (auto simp: all_well_def)
  ultimately show "\<exists>l li s'. run_server L (replicate 7 e) (Sv_start (uint2void t prt)) s = Some (Sv_accept t l (sv_sock e), s') \<and>
        calls s' = calls s @ start_calls e t prt \<and> tenants s' = (tenants s)(t \<mapsto> l) \<and> listners s' = (listners s)(l \<mapsto> li) \<and>
        lkey li = t \<and> port li = ucast prt \<and> status li = 6 \<and> lsock li = Some (sv_sock e) \<and> raw li \<noteq> None"
    by (auto simp: serving_def registered_def)
qed

text \<open>C27. Removing a server races with its thread. When the thread is accepting, a removal is clean: the
  listener is gone, the socket is shut down and then, woken by the failing \<open>kernel_accept\<close>, the thread
  releases it. But the code also runs in two other orders. If \<open>kernel_accept\<close> fails first, the thread
  releases the socket and leaves the listener behind in the tree, and the removal then oopses, as it shuts
  down the socket that has been released. And a removal while the thread is still starting frees the listener under it:
  whatever the pending call returns, the next step of the thread is an oops.\<close>

theorem server_removal:
  assumes "rbtree_lib_ok L" and "registered b s0 t l li s" and "window b t" and "lsock li = Some k"
    and "\<not> released k s" and "sv_rc e (kernel_accept k) \<noteq> 0"
  shows "(\<exists>s1 s2. del_server_cb L t s = Some s1 \<and> split_server L e (Sv_accept t l k) s1 = Some (Sv_done (sv_rc e (kernel_accept k)), s2) \<and>
      unregistered b s0 s2 \<and> calls s2 = calls s @ [kernel_sock_shutdown k, kernel_accept k, sock_release k]) \<and>
    (\<exists>s1. split_server L e (Sv_accept t l k) s = Some (Sv_done (sv_rc e (kernel_accept k)), s1) \<and>
      calls s1 = calls s @ [kernel_accept k, sock_release k] \<and> tenants s1 t = Some l \<and> listners s1 l = Some li \<and>
      del_server_cb L t s1 = None) \<and>
    (\<forall>pc e'. pc \<in> {Sv_create t prt l, Sv_mark t prt l k, Sv_bind t prt l k, Sv_listen t l k, Sv_raw t l k} \<longrightarrow>
      (\<exists>s1. del_server_cb L t s = Some s1 \<and> split_server L e' pc s1 = None))"
proof -
  have del: "del_server_cb L t s1 = remove_listner_server L l s1" "listners s1 l = Some li" "tenants s1 t = Some l"
    if "registered b s0 t l li s1" for s1
  proof -
    have r: "tenants_ok b s1" "listners s1 = (listners s0)(l \<mapsto> li)" "tenants s1 = (tenants s0)(t \<mapsto> l)"
      using that unfolding registered_def by blast+
    show "tenants s1 t = Some l" unfolding r(3) by simp
    then have "search_rb_listner (listners s1) (listner_root s1) t = Some (Some l)"
      using search_listner_map [OF r(1) assms(3)] by simp
    then show "del_server_cb L t s1 = remove_listner_server L l s1" by (simp add: del_server_cb_def)
    show "listners s1 l = Some li" unfolding r(2) by simp
  qed
  obtain s1 where s1: "del_server_cb L t s = Some s1" "unregistered b s0 s1" "calls s1 = calls s @ [kernel_sock_shutdown k]"
    using remove_ok [OF assms(1,2)] assms(4,5) del(1) [OF assms(2)] by auto
  then have freed: "listners s1 l = None" using assms(2) by (simp add: unregistered_def registered_def)
  have acc: "split_server L e (Sv_accept t l k) s' = Some (Sv_done (sv_rc e (kernel_accept k)),
      log_call (sock_release k) (log_call (kernel_accept k) s'))" for s'
    using assms(6) by (simp add: sv_call_def)
  let ?s = "log_call (sock_release k) (log_call (kernel_accept k) s)"
  have "registered b s0 t l li ?s" using assms(2) by simp
  note d = del [OF this]
  have "del_server_cb L t ?s = None" unfolding d(1) by (rule remove_released [of _ _ k]) (use d(2) assms(4) in simp_all)
  have "split_server L e' pc s1 = None"
    if "pc \<in> {Sv_create t prt l, Sv_mark t prt l k, Sv_bind t prt l k, Sv_listen t l k, Sv_raw t l k}" for pc e'
    using that freed
    by (auto simp: sv_call_def sv_error_def upd_listner_def remove_listner_server_def craete_prec_conn_probe_def Let_def)
  then show ?thesis using s1 acc d(2,3) \<open>del_server_cb L t ?s = None\<close> by fastforce
qed

lemma next_in_set: "distinct xs \<Longrightarrow> next_in x xs = Some y \<Longrightarrow> y \<in> set xs \<and> y \<noteq> x"
  by (induction x xs rule: next_in.induct) (auto split: if_splits)

lemma set_postorder_tree [simp]: "set (postorder t) = set_tree t"
  by (induction t) auto

lemma postorder_Nil [simp]: "postorder t = [] \<longleftrightarrow> t = Leaf"
  by (cases t) auto

lemma distinct_postorder: "distinct (inorder t) \<Longrightarrow> distinct (postorder t)"
  by (induction t) auto

lemma stop_loop_ends:
  assumes "rbtree_lib_ok L" and "tenants_ok b s" and "\<And>p. pos = Some p \<Longrightarrow> p \<in> set_tree (listner_root s)"
    and "size (listner_root s) \<le> n" and "\<And>p. p \<in> set_tree (listner_root s) \<Longrightarrow> sock_open s p"
  shows "\<exists>s'. stop_loop L n pos s = Some s' \<and> tenants_ok b s' \<and> set_tree (listner_root s') \<subseteq> set_tree (listner_root s) \<and>
    listners s' = (\<lambda>x. if x \<in> set_tree (listner_root s) - set_tree (listner_root s') then None else listners s x)"
  using assms(2-5)
proof (induction n arbitrary: pos s)
  case 0
  then show ?case by (cases pos) auto
next
  case (Suc n)
  show ?case
  proof (cases pos)
    case (Some p)
    then have p: "p \<in> set_tree (listner_root s)" using Suc.prems(2) by simp
    obtain s1 where s1: "remove_listner_server L p s = Some s1" "tenants_ok b s1" "listner_root s1 = rb_erase L p (listner_root s)"
      "set_tree (listner_root s1) = set_tree (listner_root s) - {p}" "listners s1 = (listners s)(p := None)" "\<And>k. released k s1 \<Longrightarrow> released k s"
      using remove_any [OF assms(1) Suc.prems(1) p Suc.prems(4) [OF p]] by (auto simp: released_def split: option.splits)
    have op: "sock_open s1 q" if "q \<in> set_tree (listner_root s1)" for q
      using Suc.prems(4) [of q] that s1(4-6) by (auto simp: sock_open_def)
    have "distinct (postorder (listner_root s))"
      using tid_order.ordered_distinct [OF Suc.prems(1) [unfolded listner_tree_def]] by (rule distinct_postorder)
    then have nx: "q \<in> set_tree (listner_root s1)" if "rb_next_postorder p (listner_root s) = Some q" for q
      using next_in_set [of "postorder (listner_root s)" p q] that s1(4) by (simp add: rb_next_postorder_def)
    have "length (inorder (listner_root s1)) = length (inorder (listner_root s)) - 1"
      using assms(1) p s1(3) by (simp add: rbtree_lib_ok_def length_remove1)
    then have sz: "size (listner_root s1) \<le> n" using Suc.prems(3) by simp
    obtain s2 where s2: "stop_loop L n (rb_next_postorder p (listner_root s)) s1 = Some s2" "tenants_ok b s2"
      "set_tree (listner_root s2) \<subseteq> set_tree (listner_root s1)"
      "listners s2 = (\<lambda>x. if x \<in> set_tree (listner_root s1) - set_tree (listner_root s2) then None else listners s1 x)"
      using Suc.IH [OF s1(2) _ sz op, of "rb_next_postorder p (listner_root s)"] nx by blast
    then have "listners s2 = (\<lambda>x. if x \<in> set_tree (listner_root s) - set_tree (listner_root s2) then None else listners s x)"
      using s1(4,5) p by (auto simp: fun_eq_iff)
    then show ?thesis using s1(1,4) s2(1-3) Some by auto
  qed (use Suc.prems in auto)
qed

text \<open>
  Erasing a node without children takes it out and moves no other node, in a library that does not rebalance.
  The first node in postorder has no children.
\<close>

fun childless :: "addr \<Rightarrow> addr tree \<Rightarrow> bool" where
  "childless x Leaf = False"
| "childless x (Node l y r) = (x = y \<and> l = Leaf \<and> r = Leaf \<or> childless x l \<or> childless x r)"

fun take_out :: "addr \<Rightarrow> addr tree \<Rightarrow> addr tree" where
  "take_out x Leaf = Leaf"
| "take_out x (Node l y r) = (if x = y \<and> l = Leaf \<and> r = Leaf then Leaf else Node (take_out x l) y (take_out x r))"

definition leaves_in_place :: "rbtree_lib \<Rightarrow> bool" where
  "leaves_in_place L \<longleftrightarrow> (\<forall>x t. distinct (inorder t) \<and> childless x t \<longrightarrow> rb_erase L x t = take_out x t)"

lemma childless_in: "childless x t \<Longrightarrow> x \<in> set_tree t"
  by (induction t) auto

lemma take_out_other [simp]: "x \<notin> set_tree t \<Longrightarrow> take_out x t = t"
  by (induction t) auto

lemma first_childless: "postorder t = x # ps \<Longrightarrow> distinct (inorder t) \<Longrightarrow> childless x t \<and> postorder (take_out x t) = ps"
proof (induction t arbitrary: ps)
  case (Node l y r)
  consider "l = Leaf" "r = Leaf" | rs where "l = Leaf" "postorder r = x # rs" | ls where "postorder l = x # ls"
    using Node.prems(1) by (cases "postorder l"; cases "postorder r") auto
  then show ?case
  proof cases
    case (2 rs)
    then have "x \<in> set_tree r" by (metis list.set_intros(1) set_postorder_tree)
    then have "x \<noteq> y" using Node.prems(2) by auto
    then show ?thesis using 2 Node.IH(2) [of rs] Node.prems by auto
  next
    case (3 ls)
    then have x: "x \<in> set_tree l" "l \<noteq> Leaf" by (metis list.set_intros(1) set_postorder_tree) (use 3 in auto)
    then have "x \<notin> set_tree r" using Node.prems(2) by auto
    then show ?thesis using 3 x Node.IH(1) [of ls] Node.prems by auto
  qed (use Node.prems in auto)
qed simp

lemma stop_loop_all:
  assumes "leaves_in_place L" and L: "rbtree_lib_ok L"
  shows "stop_loop L n (rb_first_postorder (listner_root s)) s = Some s' \<Longrightarrow> distinct (inorder (listner_root s)) \<Longrightarrow>
    listner_root s' = Leaf"
proof (induction n arbitrary: s)
  case 0
  then show ?case by (cases "postorder (listner_root s)") (auto simp: rb_first_postorder_def)
next
  case (Suc n)
  show ?case
  proof (cases "postorder (listner_root s)")
    case (Cons p ps)
    then have "rb_next_postorder p (listner_root s) = (case ps of [] \<Rightarrow> None | q # _ \<Rightarrow> Some q)"
      by (cases ps) (simp_all add: rb_next_postorder_def)
    moreover obtain s1 where s1: "remove_listner_server L p s = Some s1"
      "stop_loop L n (rb_next_postorder p (listner_root s)) s1 = Some s'"
      using Suc.prems(1) Cons by (auto simp: rb_first_postorder_def bind_eq_Some_conv Let_def)
    moreover have root: "listner_root s1 = rb_erase L p (listner_root s)" "p \<in> set_tree (listner_root s)"
      using s1(1) by (auto simp: remove_listner_server_def bind_eq_Some_conv split: if_splits option.splits)
    moreover have "postorder (listner_root s1) = ps"
      using first_childless [OF Cons Suc.prems(2)] assms(1) Suc.prems(2) root(1) by (simp add: leaves_in_place_def)
    moreover have "distinct (inorder (listner_root s1))"
      using L root Suc.prems(2) by (simp add: rbtree_lib_ok_def)
    moreover have "rb_first_postorder (listner_root s1) = (case ps of [] \<Rightarrow> None | q # _ \<Rightarrow> Some q)"
      using calculation(6) by (simp add: rb_first_postorder_def)
    ultimately show ?thesis using Suc.IH [of s1] by simp
  next
    case Nil then show ?thesis using Suc.prems(1) by (auto simp: rb_first_postorder_def)
  qed
qed

text \<open>Three listeners in a balanced tree.\<close>

definition ex_three :: kstate where
  "ex_three = kstate0\<lparr>listners := [1 \<mapsto> bare_listner 1, 2 \<mapsto> bare_listner 2, 3 \<mapsto> bare_listner 3],
     listner_root := Node (Node Leaf 1 Leaf) 2 (Node Leaf 3 Leaf)\<rparr>"

lemma ex_three_ok: "tenants_ok 0 ex_three"
  by (simp add: ex_three_def kstate0_def listner_tree_def rb_ordered_def window_def key_diff_def bare_listner_def)

text \<open>A library that does not rebalance.\<close>

fun attach :: "addr tree \<Rightarrow> addr tree \<Rightarrow> addr tree" where
  "attach Leaf r = r"
| "attach (Node a x b) r = Node a x (attach b r)"

fun unlink :: "addr \<Rightarrow> addr tree \<Rightarrow> addr tree" where
  "unlink x Leaf = Leaf"
| "unlink x (Node l y r) = (if x \<in> set_tree l then Node (unlink x l) y r else if x = y then attach l r else Node l y (unlink x r))"

definition unbalanced_lib :: rbtree_lib where
  "unbalanced_lib = \<lparr>rb_insert_color = (\<lambda>_ t. t), rb_erase = unlink\<rparr>"

lemma inorder_attach [simp]: "inorder (attach l r) = inorder l @ inorder r"
  by (induction l) auto

lemma inorder_unlink: "x \<in> set_tree t \<Longrightarrow> inorder (unlink x t) = remove1 x (inorder t)"
  by (induction t) (auto simp: remove1_append)

lemma unlink_leaf: "distinct (inorder t) \<Longrightarrow> childless x t \<Longrightarrow> unlink x t = take_out x t"
proof (induction t)
  case (Node l y r)
  then show ?case using childless_in [of x l] childless_in [of x r] by (auto simp: disjoint_iff)
qed simp

lemma unbalanced_lib_ok: "rbtree_lib_ok unbalanced_lib" "leaves_in_place unbalanced_lib"
  by (simp_all add: rbtree_lib_ok_def leaves_in_place_def unbalanced_lib_def inorder_unlink unlink_leaf)

text \<open>C28. If the sockets of all listeners in the tree are open, \<open>stop_sockets\<close> ends after at most as many rounds
  as there are listeners and never touches a freed one. It shuts down and frees every listener if erasing
  a childless node moves no other node of the tree. A rebalancing that the kernel's library is free to do
  makes it miss some: the loop of the kernel is documented not to support \<open>rb_erase\<close> in its body. And it
  oopses if the first listener is one whose thread has released the socket after a failed \<open>kernel_accept\<close>.\<close>

theorem stop_sockets_ends:
  assumes "rbtree_lib_ok L" and "tenants_ok b s"
  shows "((\<forall>l \<in> set_tree (listner_root s). sock_open s l) \<longrightarrow> (\<exists>s'. stop_sockets L s = Some s' \<and> tenants_ok b s' \<and>
      listners s' = (\<lambda>x. if x \<in> set_tree (listner_root s) - set_tree (listner_root s') then None else listners s x) \<and>
      (leaves_in_place L \<longrightarrow> listner_root s' = Leaf))) \<and>
    (\<exists>L3 s3. rbtree_lib_ok L3 \<and> stop_sockets L3 ex_three = Some s3 \<and> set_tree (listner_root s3) = {2}) \<and>
    (rb_first_postorder (listner_root s) = Some l \<and> Option.bind (listners s l) lsock = Some k \<and> released k s \<longrightarrow>
      stop_sockets L s = None)"
proof (intro conjI impI)
  assume op: "\<forall>l \<in> set_tree (listner_root s). sock_open s l"
  have f: "p \<in> set_tree (listner_root s)" if "rb_first_postorder (listner_root s) = Some p" for p
    using that set_postorder_tree [of "listner_root s"] unfolding rb_first_postorder_def
    by (cases "postorder (listner_root s)") auto
  obtain s' where s': "stop_sockets L s = Some s'" "tenants_ok b s'"
    "listners s' = (\<lambda>x. if x \<in> set_tree (listner_root s) - set_tree (listner_root s') then None else listners s x)"
    using stop_loop_ends [OF assms f order.refl, of "rb_first_postorder (listner_root s)"] op unfolding stop_sockets_def by blast
  have d: "distinct (inorder (listner_root s))"
    using tid_order.ordered_distinct [OF assms(2) [unfolded listner_tree_def]] .
  have "listner_root s' = Leaf" if "leaves_in_place L"
    by (rule stop_loop_all [OF that assms(1), of "size (listner_root s)" s]) (use s'(1) d in \<open>simp_all add: stop_sockets_def\<close>)
  then show "\<exists>s'. stop_sockets L s = Some s' \<and> tenants_ok b s' \<and>
      listners s' = (\<lambda>x. if x \<in> set_tree (listner_root s) - set_tree (listner_root s') then None else listners s x) \<and>
      (leaves_in_place L \<longrightarrow> listner_root s' = Leaf)" using s' by blast
next
  have "stop_sockets spine_lib ex_three = Some s3 \<Longrightarrow> set_tree (listner_root s3) = {2} \<Longrightarrow>
      \<exists>L3 s3. rbtree_lib_ok L3 \<and> stop_sockets L3 ex_three = Some s3 \<and> set_tree (listner_root s3) = {2}" for s3
    using spine_lib_ok by blast
  moreover have "\<exists>s3. stop_sockets spine_lib ex_three = Some s3 \<and> set_tree (listner_root s3) = {2}"
    by (simp add: stop_sockets_def ex_three_def kstate0_def bare_listner_def rb_first_postorder_def rb_next_postorder_def
        remove_listner_server_def spine_lib_def left_spine_def Let_def)
  ultimately show "\<exists>L3 s3. rbtree_lib_ok L3 \<and> stop_sockets L3 ex_three = Some s3 \<and> set_tree (listner_root s3) = {2}" by blast
next
  assume h: "rb_first_postorder (listner_root s) = Some l \<and> Option.bind (listners s l) lsock = Some k \<and> released k s"
  then have "remove_listner_server L l s = None" by (simp add: remove_released)
  with h show "stop_sockets L s = None" by (cases "listner_root s") (auto simp: stop_sockets_def)
qed

text \<open>The length of a line of the listing, and the loop as long as there is room.\<close>

lemma length_listner_line: "22 \<le> length (listner_line li)" "length (listner_line li) \<le> 40"
  using length_int_dec_s32 [of "lkey li"] length_nat_dec_u16 [of "port li"] length_nat_dec_u16 [of "status li"]
    nat_dec_nonempty [of "unat (port li)"] nat_dec_nonempty [of "unat (status li)"]
  unfolding listner_line_def length_append list.size by linarith+

abbreviation listing :: "(addr \<rightharpoonup> cbn_listner) \<Rightarrow> addr list \<Rightarrow> string" where
  "listing ls xs \<equiv> concat (map (\<lambda>x. listner_line (the (ls x))) xs)"

lemma length_listing: "22 * length xs \<le> length (listing ls xs)" "length (listing ls xs) \<le> 40 * length xs"
proof (induction xs)
  case (Cons x xs)
  { case 1 show ?case using Cons(1) length_listner_line(1) [of "the (ls x)"] by simp }
  { case 2 show ?case using Cons(2) length_listner_line(2) [of "the (ls x)"] by simp }
qed auto

lemma read_loop_result:
  assumes "\<forall>x \<in> set xs. ls x \<noteq> None" and "idx < length buffer"
  shows "if idx + length (listing ls xs) < length buffer
    then \<exists>b. read_loop ls xs idx buffer = Some (idx + length (listing ls xs), b) \<and> length b = length buffer \<and>
      take (idx + length (listing ls xs)) b = take idx buffer @ listing ls xs \<and>
      (xs \<noteq> [] \<or> buffer ! idx = CHR 0x00 \<longrightarrow> b ! (idx + length (listing ls xs)) = CHR 0x00)
    else read_loop ls xs idx buffer = None"
  using assms
proof (induction xs arbitrary: idx buffer)
  case (Cons x xs)
  then obtain li where li: "ls x = Some li" by auto
  let ?n = "length (listner_line li)"
  show ?case
  proof (cases "idx + ?n + 1 \<le> length buffer")
    case True
    then obtain b where b: "sprintf_at buffer idx (listner_line li) = Some b" "length b = length buffer"
      "take (idx + ?n) b = take idx buffer @ listner_line li" "b ! (idx + ?n) = CHR 0x00"
      using sprintf_at_ok by blast
    have "idx + ?n < length b" using True b(2) by simp
    with Cons.IH [of "idx + ?n" b] show ?thesis
      using Cons.prems(1) li b by (auto simp: add.assoc)
  next
    case False
    then show ?thesis using li by (simp add: sprintf_at_def)
  qed
qed simp

text \<open>C29. \<open>proc_read_string\<close> formats the servers into one page with no check of the space that is left. With
  up to 102 servers it always fits: the buffer holds the lines of all listeners and a terminating
  \<open>NUL\<close>. With 187 or more it always writes past the end of the page.\<close>

theorem proc_read_string_bounds:
  assumes "tenants_ok b s"
  shows "(size (listner_root s) \<le> 102 \<longrightarrow> (\<exists>n buffer. proc_read_string True s = Some (Some (n, buffer)) \<and> n \<le> 4080 \<and>
      length buffer = PAGE_SIZE \<and> take n buffer = listing (listners s) (postorder (listner_root s)) \<and> buffer ! n = CHR 0x00)) \<and>
    (187 \<le> size (listner_root s) \<longrightarrow> proc_read_string True s = None)"
proof -
  let ?xs = "postorder (listner_root s)" let ?buf = "replicate 4096 (CHR 0x00)"
  have live: "\<forall>x \<in> set ?xs. listners s x \<noteq> None" using listner_tree_live [OF assms] by simp
  have "length ?xs = size (listner_root s)" by (induction "listner_root s") auto
  then have len: "22 * size (listner_root s) \<le> length (listing (listners s) ?xs)"
    "length (listing (listners s) ?xs) \<le> 40 * size (listner_root s)"
    using length_listing [where xs = ?xs and ls = "listners s"] by simp_all
  show ?thesis
  proof (intro conjI impI)
    assume "size (listner_root s) \<le> 102"
    then have l: "length (listing (listners s) ?xs) \<le> 4080" using len(2) by linarith
    then obtain b where "read_loop (listners s) ?xs 0 ?buf = Some (length (listing (listners s) ?xs), b)"
      "length b = 4096" "take (length (listing (listners s) ?xs)) b = listing (listners s) ?xs"
      "b ! length (listing (listners s) ?xs) = CHR 0x00"
      using read_loop_result [OF live, of 0 ?buf] by auto
    then show "\<exists>n buffer. proc_read_string True s = Some (Some (n, buffer)) \<and> n \<le> 4080 \<and>
      length buffer = PAGE_SIZE \<and> take n buffer = listing (listners s) ?xs \<and> buffer ! n = CHR 0x00"
      using l by (intro exI [of _ "length (listing (listners s) ?xs)"] exI [of _ b]) (simp add: proc_read_string_def)
  next
    assume "187 \<le> size (listner_root s)"
    then have "\<not> length (listing (listners s) ?xs) < 4096" using len(1) by linarith
    then show "proc_read_string True s = None"
      using read_loop_result [OF live, of 0 ?buf] by (simp add: proc_read_string_def)
  qed
qed

subsection \<open>Witnesses\<close>

definition ex_sv_env :: sv_env where
  "ex_sv_env = \<lparr>sv_rc = (\<lambda>_. 0), new_listner = Some 4, listner_mem = bare_listner 0, percpu_roots = Some (\<lambda>_. True),
     percpu_lists = Some (\<lambda>_. True), possible_cpus = [0, 1], sv_sock = 20, raw_sock = 21, accepted = 22, sv_qp = Some 1,
     sv_qp_mem = bare_qp (replicate 12 0), should_stop = False\<rparr>"

lemma ex_three_tenants: "tenants ex_three 7 = None" "window 0 7" "all_well ex_three ex_sv_env"
  by (auto simp: ex_three_def kstate0_def listner_map_def rb_map_def bare_listner_def window_def all_well_def
      sv_env_ok_def ex_sv_env_def released_def)

theorem server_lifecycle_witness:
  "\<exists>l li s'. run_server plain_lib (replicate 7 ex_sv_env) (Sv_start (uint2void 7 443)) ex_three = Some (Sv_accept 7 l 20, s') \<and>
     tenants s' = (tenants ex_three)(7 \<mapsto> l) \<and> listners s' = (listners ex_three)(l \<mapsto> li) \<and> port li = 443 \<and> lsock li = Some 20"
  using server_lifecycle [OF plain_lib_ok ex_three_ok ex_three_tenants(2), of "[]" 443 ex_sv_env] ex_three_tenants
  by (fastforce simp: ex_sv_env_def)

lemma ex_three_registered:
  "registered 0 (ex_three\<lparr>listners := [1 \<mapsto> bare_listner 1, 3 \<mapsto> bare_listner 3], listner_root := Node (Node Leaf 1 Leaf) 3 Leaf\<rparr>)
     2 2 ((bare_listner 2)\<lparr>lsock := Some 20\<rparr>) (ex_three\<lparr>listners := (listners ex_three)(2 \<mapsto> (bare_listner 2)\<lparr>lsock := Some 20\<rparr>)\<rparr>)"
  by (auto simp: registered_def ex_three_def kstate0_def listner_tree_def rb_ordered_def window_def key_diff_def bare_listner_def
      listner_map_def rb_map_def fun_eq_iff)

theorem server_removal_witness:
  "\<exists>s1. split_server plain_lib (ex_sv_env\<lparr>sv_rc := \<lambda>_. - 4\<rparr>) (Sv_accept 2 2 20)
       (ex_three\<lparr>listners := (listners ex_three)(2 \<mapsto> (bare_listner 2)\<lparr>lsock := Some 20\<rparr>)\<rparr>) = Some (Sv_done (- 4), s1) \<and>
     calls s1 = [kernel_accept 20, sock_release 20] \<and> del_server_cb plain_lib 2 s1 = None"
proof -
  let ?s = "ex_three\<lparr>listners := (listners ex_three)(2 \<mapsto> (bare_listner 2)\<lparr>lsock := Some 20\<rparr>)\<rparr>"
  let ?e = "ex_sv_env\<lparr>sv_rc := \<lambda>_. - 4\<rparr>"
  have h: "window 0 2" "lsock ((bare_listner 2)\<lparr>lsock := Some 20\<rparr>) = Some 20" "\<not> released 20 ?s" "sv_rc ?e (kernel_accept 20) \<noteq> 0"
    by (simp_all add: window_def released_def ex_three_def kstate0_def)
  have "sv_rc ?e (kernel_accept 20) = - 4" "calls ?s @ cs = cs" for cs by (simp_all add: ex_three_def kstate0_def)
  then show ?thesis using server_removal [OF plain_lib_ok ex_three_registered h] by metis
qed

theorem stop_sockets_ends_witness:
  "\<exists>s'. stop_sockets unbalanced_lib ex_three = Some s' \<and> tenants_ok 0 s' \<and> listner_root s' = Leaf"
proof -
  have "\<forall>l \<in> set_tree (listner_root ex_three). sock_open ex_three l"
    by (simp add: ex_three_def kstate0_def sock_open_def bare_listner_def)
  then show ?thesis using stop_sockets_ends [OF unbalanced_lib_ok(1) ex_three_ok] unbalanced_lib_ok(2) by blast
qed

theorem proc_read_string_bounds_witness:
  "\<exists>n buffer. proc_read_string True ex_three = Some (Some (n, buffer)) \<and>
     take n buffer = listing (listners ex_three) [1, 3, 2]"
  using proc_read_string_bounds [OF ex_three_ok] by (auto simp: ex_three_def)

end
