(* ===== verification/End_To_End.thy ===== *)
theory End_To_End
  imports Conn_Pool Split_Server
begin

unbundle bit_operations_syntax

text \<open>
  One split connection from end to end. The SYN of a client passes \<open>cbn_ingress_hook\<close>, \<open>start_probe_syn\<close>
  and \<open>cbn_egress_hook\<close>; the client's connection is accepted by \<open>split_server\<close>; the two threads that these
  start in the pool, \<open>start_new_connection_syn\<close> and \<open>start_new_connection\<close>, meet, relay, and clean up.

  The two threads interleave in any order. As in \<open>Rendezvous\<close> a step is the code up to the next point
  where a thread may sleep; every call before the relay loops succeeds, no wait runs out of time, and a
  thread that waits for the other half is blocked until that half is there.

  The relay loops interleave iteration by iteration, and what a socket does depends on what the other thread
  has done to it: while neither socket is shut down, a receive returns some of the bytes that are still to
  come, or 0 when there are none, and a send takes all it is given; once one of them is shut down, which
  \<open>put_qp\<close> does to both when the first loop ends, nothing can be sent any more, and a receive may return 0 or
  bytes that are then lost. A loop touches the shared state only at its end; there its step runs
  \<open>half_duplex\<close> with the iterations it has made as the script.
\<close>

section \<open>The pair of threads\<close>

text \<open>\<open>tx_its\<close> and \<open>rx_its\<close> are the iterations that the two relay loops have made.\<close>

record pair =
  p_tx :: tx_pc
  p_rx :: rx_pc
  p_st :: kstate
  tx_its :: "io list"
  rx_its :: "io list"
  delivered :: "(sock kptr \<times> u8 list) list"

text \<open>A thread outside its relay loop may run unless it is finished, or waits for a half that is not there.\<close>

definition half_there :: "(cbn_qp \<Rightarrow> sock kptr) \<Rightarrow> addr \<Rightarrow> kstate \<Rightarrow> bool" where
  "half_there half q s = (case qps s q of None \<Rightarrow> True | Some x \<Rightarrow> \<not> IS_ERR_OR_NULL (half x))"

fun tx_runs :: "tx_pc \<Rightarrow> kstate \<Rightarrow> bool" where
  "tx_runs (Tx_wait c q) s = half_there rx q s"
| "tx_runs (Tx_relay q so) s = False"
| "tx_runs (Tx_done rc) s = False"
| "tx_runs pc s = True"

fun rx_runs :: "rx_pc \<Rightarrow> kstate \<Rightarrow> bool" where
  "rx_runs (Rx_wait c q) s = half_there tx q s"
| "rx_runs (Rx_relay q so) s = False"
| "rx_runs (Rx_done rc) s = False"
| "rx_runs pc s = True"

text \<open>A socket that nobody has shut down; one of the two sockets of a relay loop has been shut down.\<close>

definition still_up :: "sock \<Rightarrow> kstate \<Rightarrow> bool" where
  "still_up k s \<longleftrightarrow> kernel_sock_shutdown k \<notin> set (calls s)"

definition down :: "sockets \<Rightarrow> kstate \<Rightarrow> bool" where
  "down so s \<longleftrightarrow> (\<exists>k. (sock_rx so = PTR k \<or> sock_tx so = PTR k) \<and> \<not> still_up k s)"

text \<open>
  An iteration that receives some of the bytes to come and sends all of them, after the iterations \<open>is\<close>; and
  one that ends the loop: while the sockets are up, only because there is nothing more to come, and when they
  are down for any reason.
\<close>

definition stream_of :: "io list \<Rightarrow> u8 list" where
  "stream_of is = concat (map rdata is)"

definition whole_io :: "io \<Rightarrow> bool" where
  "whole_io i \<longleftrightarrow> io_ok (VEC_SZ * PAGE_SIZE) i \<and> io_cont i \<and> snt i = rcv i"

definition moves_on :: "u8 list \<Rightarrow> io list \<Rightarrow> io \<Rightarrow> bool" where
  "moves_on bs is i \<longleftrightarrow> whole_io i \<and> (\<exists>zs. bs = stream_of (is @ [i]) @ zs)"

definition comes_to_end :: "u8 list \<Rightarrow> io list \<Rightarrow> io \<Rightarrow> bool \<Rightarrow> bool" where
  "comes_to_end bs is i dn \<longleftrightarrow> io_ok (VEC_SZ * PAGE_SIZE) i \<and> (rcv i \<le> 0 \<or> snt i \<le> 0) \<and>
     (dn \<or> rcv i \<le> 0 \<and> bs = stream_of is)"

text \<open>The environment of a thread whose loop makes the iterations \<open>is\<close>; what the loop delivers, and to which
  socket.\<close>

definition relaying :: "env \<Rightarrow> io list \<Rightarrow> env" where
  "relaying e is = e\<lparr>hd_env_of := (hd_env_of e)\<lparr>script := is\<rparr>\<rparr>"

definition relayed :: "env \<Rightarrow> addr \<Rightarrow> sockets \<Rightarrow> kstate \<Rightarrow> (sock kptr \<times> u8 list) list" where
  "relayed e q so s = (case half_duplex (hd_env_of e) q s of None \<Rightarrow> [] | Some (r, _) \<Rightarrow> [(sock_tx so, sent (res_state r))])"

text \<open>The steps; \<open>bs\<close> is what the server sends, \<open>bc\<close> what the client sends.\<close>

inductive pair_step :: "rbtree_lib \<Rightarrow> env \<Rightarrow> env \<Rightarrow> u8 list \<Rightarrow> u8 list \<Rightarrow> pair \<Rightarrow> pair \<Rightarrow> bool" for L et er bs bc where
  tx_goes: "tx_runs (p_tx p) (p_st p) \<Longrightarrow> start_new_connection_syn L et (p_tx p) (p_st p) = Some (pc, s) \<Longrightarrow>
    pair_step L et er bs bc p (p\<lparr>p_tx := pc, p_st := s\<rparr>)"
| tx_iterates: "p_tx p = Tx_relay q so \<Longrightarrow> \<not> down so (p_st p) \<Longrightarrow> moves_on bs (tx_its p) i \<Longrightarrow>
    pair_step L et er bs bc p (p\<lparr>tx_its := tx_its p @ [i]\<rparr>)"
| tx_ends: "p_tx p = Tx_relay q so \<Longrightarrow> comes_to_end bs (tx_its p) i (down so (p_st p)) \<Longrightarrow> e = relaying et (tx_its p @ [i]) \<Longrightarrow>
    start_new_connection_syn L e (p_tx p) (p_st p) = Some (pc, s) \<Longrightarrow>
    pair_step L et er bs bc p (p\<lparr>p_tx := pc, p_st := s, delivered := delivered p @ relayed e q so (p_st p)\<rparr>)"
| rx_goes: "rx_runs (p_rx p) (p_st p) \<Longrightarrow> start_new_connection L er (p_rx p) (p_st p) = Some (pc, s) \<Longrightarrow>
    pair_step L et er bs bc p (p\<lparr>p_rx := pc, p_st := s\<rparr>)"
| rx_iterates: "p_rx p = Rx_relay q so \<Longrightarrow> \<not> down so (p_st p) \<Longrightarrow> moves_on bc (rx_its p) i \<Longrightarrow>
    pair_step L et er bs bc p (p\<lparr>rx_its := rx_its p @ [i]\<rparr>)"
| rx_ends: "p_rx p = Rx_relay q so \<Longrightarrow> comes_to_end bc (rx_its p) i (down so (p_st p)) \<Longrightarrow> e = relaying er (rx_its p @ [i]) \<Longrightarrow>
    start_new_connection L e (p_rx p) (p_st p) = Some (pc, s) \<Longrightarrow>
    pair_step L et er bs bc p (p\<lparr>p_rx := pc, p_st := s, delivered := delivered p @ relayed e q so (p_st p)\<rparr>)"

text \<open>One of the threads can take a step that oopses.\<close>

definition pair_oops :: "rbtree_lib \<Rightarrow> env \<Rightarrow> env \<Rightarrow> u8 list \<Rightarrow> u8 list \<Rightarrow> pair \<Rightarrow> bool" where
  "pair_oops L et er bs bc p \<longleftrightarrow>
     tx_runs (p_tx p) (p_st p) \<and> start_new_connection_syn L et (p_tx p) (p_st p) = None \<or>
     rx_runs (p_rx p) (p_st p) \<and> start_new_connection L er (p_rx p) (p_st p) = None \<or>
     (\<exists>q so i. p_tx p = Tx_relay q so \<and> comes_to_end bs (tx_its p) i (down so (p_st p)) \<and>
       start_new_connection_syn L (relaying et (tx_its p @ [i])) (p_tx p) (p_st p) = None) \<or>
     (\<exists>q so i. p_rx p = Rx_relay q so \<and> comes_to_end bc (rx_its p) i (down so (p_st p)) \<and>
       start_new_connection L (relaying er (rx_its p @ [i])) (p_rx p) (p_st p) = None)"

text \<open>The calls made on one socket.\<close>

fun kcall_sock :: "kcall \<Rightarrow> sock option" where
  "kcall_sock (kernel_setsockopt k n v) = Some k"
| "kcall_sock (kernel_bind k a) = Some k"
| "kcall_sock (kernel_connect k a) = Some k"
| "kcall_sock (kernel_listen k n) = Some k"
| "kcall_sock (kernel_accept k) = Some k"
| "kcall_sock (kernel_getsockopt k) = Some k"
| "kcall_sock (kernel_getpeername k) = Some k"
| "kcall_sock (kernel_sock_shutdown k) = Some k"
| "kcall_sock (sock_release k) = Some k"
| "kcall_sock (sendmsg_headers k a i t) = Some k"
| "kcall_sock (sendmsg_addresses k a) = Some k"
| "kcall_sock (recvmsg_addresses k) = Some k"
| "kcall_sock k = None"

definition calls_on :: "sock \<Rightarrow> kcall list \<Rightarrow> kcall list" where
  "calls_on k cs = filter (\<lambda>c. kcall_sock c = Some k) cs"

lemma calls_on_simps [simp]: "calls_on k [] = []" "calls_on k (xs @ ys) = calls_on k xs @ calls_on k ys"
  "calls_on k (c # xs) = (if kcall_sock c = Some k then c # calls_on k xs else calls_on k xs)"
  by (simp_all add: calls_on_def)

section \<open>A connection in which nothing fails\<close>

text \<open>
  The data of the connection: the core, the captured SYN and its record, the tenant's listener, the QP
  \<open>su_q1\<close> that the SYN's thread will allocate, the QP \<open>su_q2\<close> of the accepted socket and what it holds, the two
  sockets, the calls that open the one towards the server, and the bytes that the server and the client send.
\<close>

record scenario =
  su_core :: cpu
  su_syn :: addr
  su_ad :: addresses
  su_lis :: addr
  su_q1 :: addr
  su_q2 :: addr
  su_qp2 :: cbn_qp
  su_t :: sock
  su_r :: sock
  su_calls :: "kcall list"
  from_server :: "u8 list"
  from_client :: "u8 list"

text \<open>The environment of a relay loop that receives \<open>bs\<close> in blocks until there is nothing more to come, each
  block accepted as a whole by the other side; and of one that ends for any reason when it has relayed \<open>xs\<close>.\<close>

definition relays_all :: "env \<Rightarrow> u8 list \<Rightarrow> bool" where
  "relays_all e bs \<longleftrightarrow> pages_ok (hd_env_of e) \<and> (\<exists>is i js. script (hd_env_of e) = is @ i # js \<and> rcv i \<le> 0 \<and>
     (\<forall>i \<in> set is. io_ok (VEC_SZ * PAGE_SIZE) i \<and> io_cont i \<and> snt i = rcv i) \<and> bs = concat (map rdata is))"

definition relays_part :: "env \<Rightarrow> u8 list \<Rightarrow> bool" where
  "relays_part e xs \<longleftrightarrow> pages_ok (hd_env_of e) \<and> (\<exists>is i js. script (hd_env_of e) = is @ i # js \<and>
     io_ok (VEC_SZ * PAGE_SIZE) i \<and> (rcv i \<le> 0 \<or> snt i \<le> 0) \<and> (\<forall>i \<in> set is. whole_io i) \<and> xs = stream_of is)"

lemma relays_all_part: "relays_all e bs \<Longrightarrow> relays_part e bs"
  unfolding relays_all_def relays_part_def whole_io_def stream_of_def by (fastforce simp: io_ok_def)

definition calls_succeed :: "env \<Rightarrow> bool" where
  "calls_succeed e \<longleftrightarrow> (\<forall>k. rc_of e k = 0) \<and> wait_rc e \<noteq> 0"

text \<open>What the accepted half needs, and where the halves can meet: the accepted half has its QP \<open>su_q2\<close>, and no
  tree holds a QP of this connection.\<close>

definition rx_env :: "scenario \<Rightarrow> env \<Rightarrow> bool" where
  "rx_env u er \<longleftrightarrow> calls_succeed er \<and> su_t u \<noteq> su_r u \<and>
     sin_addr (orig_dst er) = sin_addr (dest (su_ad u)) \<and> sin_port (orig_dst er) = sin_port (dest (su_ad u)) \<and>
     sin_addr (peer er) = sin_addr (src (su_ad u)) \<and> sin_port (peer er) = sin_port (src (su_ad u)) \<and>
     su_core u = unat (qp2cpu (num_online_cpus er) (bare_qp (conn_of (su_ad u)))) \<and> pages_ok (hd_env_of er)"

definition meeting :: "scenario \<Rightarrow> kstate \<Rightarrow> bool" where
  "meeting u s \<longleftrightarrow> trees_ok s \<and> syns s (su_syn u) = Some (su_ad u) \<and>
     search_rb_listner (listners s) (listner_root s) (mark (su_ad u)) = Some (Some (su_lis u)) \<and>
     listners s (su_lis u) \<noteq> None \<and> su_q1 u \<noteq> su_q2 u \<and> qps s (su_q2 u) = Some (su_qp2 u) \<and>
     qp_wf (su_qp2 u) \<and> ref_cnt (su_qp2 u) = 0 \<and> rx (su_qp2 u) = PTR (su_r u) \<and> listner (su_qp2 u) = Some (su_lis u) \<and>
     qp_home s (su_q1 u) = {} \<and> qp_home s (su_q2 u) = {} \<and> unpaired s (su_lis u) (su_core u) (su_ad u)"

text \<open>The calls on the two sockets, up to the relay loops, and their end.\<close>

definition tx_calls :: "kstate \<Rightarrow> scenario \<Rightarrow> kcall list" where
  "tx_calls s u = connect_calls (ip_transparent s) (su_t u) (su_ad u)"

definition rx_calls :: "scenario \<Rightarrow> kcall list" where
  "rx_calls u = [kernel_setsockopt (su_r u) SO_MARK (tid (su_qp2 u)), kernel_getsockopt (su_r u),
     kernel_setsockopt (su_r u) TCP_NODELAY 1, kernel_getpeername (su_r u)]"

definition end_calls :: "sock \<Rightarrow> kcall list" where
  "end_calls k = [kernel_sock_shutdown k, sock_release k]"

text \<open>The half towards the server opens its own socket with a new QP \<open>su_q1\<close>.\<close>

definition setup_env :: "scenario \<Rightarrow> env \<Rightarrow> env \<Rightarrow> bool" where
  "setup_env u et er \<longleftrightarrow> calls_succeed et \<and> rx_env u er \<and>
     new_qp et = Some (su_q1 u) \<and> qp_wf (qp_mem et) \<and> new_sock et = su_t u \<and> pages_ok (hd_env_of et)"

text \<open>The two sockets are up, and stay so until the relay loops end.\<close>

definition sockets_up :: "scenario \<Rightarrow> kstate \<Rightarrow> bool" where
  "sockets_up u s \<longleftrightarrow> still_up (su_t u) s \<and> still_up (su_r u) s \<and> kernel_sock_shutdown (su_t u) \<notin> set (su_calls u)"

definition setup_state :: "scenario \<Rightarrow> kstate \<Rightarrow> bool" where
  "setup_state u s \<longleftrightarrow> meeting u s \<and> qps s (su_q1 u) = None \<and> su_calls u = tx_calls s u \<and>
     still_up (su_t u) s \<and> still_up (su_r u) s"

lemma setup_up: "setup_state u s \<Longrightarrow> sockets_up u s"
  by (simp add: setup_state_def sockets_up_def tx_calls_def connect_calls_def)

section \<open>The states on the way\<close>

definition shared :: "scenario \<Rightarrow> sock kptr \<Rightarrow> sock kptr \<Rightarrow> s32 \<Rightarrow> cbn_qp" where
  "shared u t r n = \<lparr>key = conn_of (su_ad u), ref_cnt = n, listner = Some (su_lis u), tx = t, rx = r\<rparr>"

lemma shared_sel [simp]: "key (shared u t r n) = conn_of (su_ad u)" "ref_cnt (shared u t r n) = n"
  "listner (shared u t r n) = Some (su_lis u)" "tx (shared u t r n) = t" "rx (shared u t r n) = r"
  "(shared u t r n)\<lparr>ref_cnt := n'\<rparr> = shared u t r n'" "(shared u t r n)\<lparr>tx := t'\<rparr> = shared u t' r n"
  "(shared u t r n)\<lparr>rx := r'\<rparr> = shared u t r' n"
  by (simp_all add: shared_def)

text \<open>The shared state after the start: which QPs there are, which of the two is linked, and what was
  called on the two sockets.\<close>

definition on_way :: "scenario \<Rightarrow> kstate \<Rightarrow> (addr \<rightharpoonup> cbn_qp) \<Rightarrow> (addr \<rightharpoonup> addresses) \<Rightarrow> addr option \<Rightarrow>
    kcall list \<Rightarrow> kcall list \<Rightarrow> kstate \<Rightarrow> bool" where
  "on_way u s0 m sy home ct cr s \<longleftrightarrow> trees_ok s \<and> same_listners s0 s \<and> ip_transparent s = ip_transparent s0 \<and>
     qps s = m \<and> syns s = sy \<and>
     (\<forall>z. qp_home s z = (if home = Some z then {(su_lis u, su_core u)} else qp_home s0 z)) \<and>
     (\<exists>cs. calls s = calls s0 @ cs \<and> calls_on (su_t u) cs = ct \<and> calls_on (su_r u) cs = cr)"

inductive pair_at :: "scenario \<Rightarrow> kstate \<Rightarrow> pair \<Rightarrow> bool" for u s0 where
  start: "on_way u s0 (qps s0) (syns s0) None [] [] s \<Longrightarrow>
    pair_at u s0 \<lparr>p_tx = Tx_start (su_core u) (su_syn u), p_rx = Rx_start (su_q2 u), p_st = s, tx_its = ti, rx_its = ri, delivered = []\<rparr>"
| connecting: "on_way u s0 ((qps s0)(su_q1 u \<mapsto> shared u (ERR_PTR (- EINVAL)) NULL 0)) (syns s0) (Some (su_q1 u)) [] [] s \<Longrightarrow>
    pair_at u s0 \<lparr>p_tx = Tx_connect (su_core u) (su_syn u) (su_q1 u), p_rx = Rx_start (su_q2 u), p_st = s, tx_its = ti, rx_its = ri, delivered = []\<rparr>"
| connected: "on_way u s0 ((qps s0)(su_q1 u \<mapsto> shared u (PTR (su_t u)) NULL 1)) ((syns s0)(su_syn u := None))
      (Some (su_q1 u)) (su_calls u) [] s \<Longrightarrow>
    pair_at u s0 \<lparr>p_tx = Tx_wait (su_core u) (su_q1 u), p_rx = Rx_start (su_q2 u), p_st = s, tx_its = ti, rx_its = ri, delivered = []\<rparr>"
| accepted: "on_way u s0 ((qps s0)(su_q2 u \<mapsto> shared u NULL (PTR (su_r u)) 1)) (syns s0) (Some (su_q2 u)) [] (rx_calls u) s \<Longrightarrow>
    pair_at u s0 \<lparr>p_tx = Tx_start (su_core u) (su_syn u), p_rx = Rx_wait (su_core u) (su_q2 u), p_st = s, tx_its = ti, rx_its = ri, delivered = []\<rparr>"
| half: "q = su_q1 u \<or> q = su_q2 u \<Longrightarrow>
    on_way u s0 ((qps s0)(su_q1 u := None, su_q2 u := None, q \<mapsto> shared u (ERR_PTR (- EINVAL)) (PTR (su_r u)) 1)) (syns s0)
      (Some q) [] (rx_calls u) s \<Longrightarrow>
    pair_at u s0 \<lparr>p_tx = Tx_connect (su_core u) (su_syn u) q, p_rx = Rx_wait (su_core u) q, p_st = s, tx_its = ti, rx_its = ri, delivered = []\<rparr>"
| met: "q = su_q1 u \<or> q = su_q2 u \<Longrightarrow>
    on_way u s0 ((qps s0)(su_q1 u := None, su_q2 u := None, q \<mapsto> shared u (PTR (su_t u)) (PTR (su_r u)) 2))
      ((syns s0)(su_syn u := None)) None (su_calls u) (rx_calls u) s \<Longrightarrow>
    pc \<in> {Tx_wait (su_core u) q, Tx_relay q \<lparr>sock_rx = PTR (su_t u), sock_tx = PTR (su_r u), sock_dir = 1\<rparr>} \<Longrightarrow>
    rp \<in> {Rx_wait (su_core u) q, Rx_relay q \<lparr>sock_rx = PTR (su_r u), sock_tx = PTR (su_t u), sock_dir = 0\<rparr>} \<Longrightarrow>
    pair_at u s0 \<lparr>p_tx = pc, p_rx = rp, p_st = s, tx_its = ti, rx_its = ri, delivered = []\<rparr>"
| server_closed: "q = su_q1 u \<or> q = su_q2 u \<Longrightarrow>
    on_way u s0 ((qps s0)(su_q1 u := None, su_q2 u := None, q \<mapsto> shared u (PTR (su_t u)) (PTR (su_r u)) 1))
      ((syns s0)(su_syn u := None)) None (su_calls u @ [kernel_sock_shutdown (su_t u)])
      (rx_calls u @ [kernel_sock_shutdown (su_r u)]) s \<Longrightarrow>
    rp \<in> {Rx_wait (su_core u) q, Rx_relay q \<lparr>sock_rx = PTR (su_r u), sock_tx = PTR (su_t u), sock_dir = 0\<rparr>} \<Longrightarrow>
    pair_at u s0 \<lparr>p_tx = Tx_done rc, p_rx = rp, p_st = s, tx_its = ti, rx_its = ri, delivered = [(PTR (su_r u), from_server u)]\<rparr>"
| client_closed: "q = su_q1 u \<or> q = su_q2 u \<Longrightarrow>
    on_way u s0 ((qps s0)(su_q1 u := None, su_q2 u := None, q \<mapsto> shared u (PTR (su_t u)) (PTR (su_r u)) 1))
      ((syns s0)(su_syn u := None)) None (su_calls u @ [kernel_sock_shutdown (su_t u)])
      (rx_calls u @ [kernel_sock_shutdown (su_r u)]) s \<Longrightarrow>
    pc \<in> {Tx_wait (su_core u) q, Tx_relay q \<lparr>sock_rx = PTR (su_t u), sock_tx = PTR (su_r u), sock_dir = 1\<rparr>} \<Longrightarrow>
    pair_at u s0 \<lparr>p_tx = pc, p_rx = Rx_done 0, p_st = s, tx_its = ti, rx_its = ri, delivered = [(PTR (su_t u), from_client u)]\<rparr>"
| over: "on_way u s0 ((qps s0)(su_q1 u := None, su_q2 u := None)) ((syns s0)(su_syn u := None)) None
      (su_calls u @ end_calls (su_t u)) (rx_calls u @ end_calls (su_r u)) s \<Longrightarrow>
    xs = from_server u \<or> ys = from_client u \<Longrightarrow> (\<exists>zs. from_server u = xs @ zs) \<Longrightarrow> (\<exists>zs. from_client u = ys @ zs) \<Longrightarrow>
    mset d = {#(PTR (su_r u), xs), (PTR (su_t u), ys)#} \<Longrightarrow>
    pair_at u s0 \<lparr>p_tx = Tx_done rc, p_rx = Rx_done 0, p_st = s, tx_its = ti, rx_its = ri, delivered = d\<rparr>"

fun tx_rank :: "tx_pc \<Rightarrow> nat" where
  "tx_rank (Tx_start c a) = 0"
| "tx_rank (Tx_connect c a q) = 1"
| "tx_rank (Tx_wait c q) = 2"
| "tx_rank (Tx_relay q so) = 3"
| "tx_rank (Tx_done rc) = 4"

fun rx_rank :: "rx_pc \<Rightarrow> nat" where
  "rx_rank (Rx_start q) = 0"
| "rx_rank (Rx_wait c q) = 1"
| "rx_rank (Rx_relay q so) = 2"
| "rx_rank (Rx_done rc) = 3"

definition pair_rank :: "pair \<Rightarrow> nat" where
  "pair_rank p = tx_rank (p_tx p) + rx_rank (p_rx p) + length (stream_of (tx_its p)) + length (stream_of (rx_its p))"

text \<open>The iterations made so far are whole, and relayed a prefix of the stream.\<close>

definition relayed_of :: "u8 list \<Rightarrow> io list \<Rightarrow> bool" where
  "relayed_of bs is \<longleftrightarrow> (\<forall>i \<in> set is. whole_io i) \<and> (\<exists>zs. bs = stream_of is @ zs)"

lemma relayed_of_Nil [simp]: "relayed_of bs []"
  by (simp add: relayed_of_def stream_of_def)

text \<open>The rest of a step of each thread, from the point where it looks for the other half.\<close>

definition tx_joins :: "rbtree_lib \<Rightarrow> scenario \<Rightarrow> addr \<Rightarrow> kstate \<Rightarrow> (tx_pc \<times> kstate) option" where
  "tx_joins L u q s = do {
     (asleep, s) \<leftarrow> wait_qp_enter L (su_core u) q TX_QP s;
     if asleep then Some (Tx_wait (su_core u) q, s) else syn_ready q s }"

definition rx_joins :: "rbtree_lib \<Rightarrow> scenario \<Rightarrow> kstate \<Rightarrow> (rx_pc \<times> kstate) option" where
  "rx_joins L u s = do {
     (qp, s) \<leftarrow> qp_exists L (su_core u) (su_q2 u) RX_QP s;
     q \<leftarrow> qp;
     (asleep, s) \<leftarrow> wait_qp_enter L (su_core u) q RX_QP s;
     if asleep then Some (Rx_wait (su_core u) q, s) else conn_ready q s }"

section \<open>The steps\<close>

text \<open>Opening the socket of the half towards the server when every call succeeds.\<close>

lemma syn_socket_succeeds:
  assumes "calls_succeed e"
  shows "\<exists>ad'. syn_socket e ad s = (Inr (), PTR (new_sock e), ad', s\<lparr>calls := calls s @ sock_create_kern #
      [kernel_setsockopt (new_sock e) TCP_NODELAY 1, kernel_setsockopt (new_sock e) SO_MARK (mark ad)] @
      (if ip_transparent s = 0 then [] else [kernel_setsockopt (new_sock e) IP_TRANSPARENT 1,
        kernel_bind (new_sock e) ((src ad)\<lparr>sin_family := AF_INET, sin_port := 0\<rparr>)]) @
      [kernel_connect (new_sock e) ((dest ad)\<lparr>sin_family := AF_INET\<rparr>)]\<rparr>)"
  using assms by (cases s) (simp add: calls_succeed_def syn_socket_def do_call_def log_call_def Let_def)

lemma accepted_socket_succeeds:
  assumes "calls_succeed e"
  shows "accepted_socket e r m s = (Inr (), s\<lparr>calls := calls s @
    [kernel_setsockopt r SO_MARK m, kernel_getsockopt r, kernel_setsockopt r TCP_NODELAY 1, kernel_getpeername r]\<rparr>)"
  using assms by (cases s) (simp add: calls_succeed_def accepted_socket_def do_call_def log_call_def Let_def)

text \<open>A relay loop runs to its end and puts the QP.\<close>

lemma half_duplex_part:
  assumes "relays_part e xs" and "put_qp q (log_call (sched_setaffinity None) s) = Some (n, s')"
  shows "\<exists>r. half_duplex (hd_env_of e) q s = Some (r, s') \<and> relayed e q so s = [(sock_tx so, xs)]"
proof -
  obtain "is" i js where e: "pages_ok (hd_env_of e)" "script (hd_env_of e) = is @ i # js" "io_ok (VEC_SZ * PAGE_SIZE) i"
    "rcv i \<le> 0 \<or> snt i \<le> 0" "\<forall>i \<in> set is. whole_io i" "xs = stream_of is"
    using assms(1) by (auto simp: relays_part_def)
  have eq: "map (\<lambda>i. take (nat (snt i)) (rdata i)) is = map rdata is"
    using e(5) by (intro map_cong) (auto simp: whole_io_def io_ok_def io_cont_def)
  have cont: "\<forall>i \<in> set is. io_ok (VEC_SZ * PAGE_SIZE) i \<and> io_cont i" using e(5) by (simp add: whole_io_def)
  show ?thesis using half_duplex_ends [OF e(1,2) cont e(3,4) assms(2)] unfolding eq e(6) stream_of_def
    by (auto simp: relayed_def)
qed

lemma relaying_part:
  assumes "pages_ok (hd_env_of e)" and "relayed_of bs is" and "comes_to_end bs is i dn"
  shows "relays_part (relaying e (is @ [i])) (stream_of is)" and "\<not> dn \<Longrightarrow> stream_of is = bs"
proof -
  have "pages_ok (hd_env_of (relaying e (is @ [i])))" "script (hd_env_of (relaying e (is @ [i]))) = is @ i # []"
    using assms(1) by (simp_all add: relaying_def pages_ok_def)
  moreover have "io_ok (VEC_SZ * PAGE_SIZE) i" "rcv i \<le> 0 \<or> snt i \<le> 0" "\<forall>i \<in> set is. whole_io i"
    using assms(2,3) by (simp_all add: relayed_of_def comes_to_end_def)
  ultimately show "relays_part (relaying e (is @ [i])) (stream_of is)" unfolding relays_part_def by blast
  show "stream_of is = bs" if "\<not> dn" using assms(3) that by (simp add: comes_to_end_def)
qed

text \<open>Steps of the two threads on a state that is on the way. \<open>qp_exists\<close> on the first half links it; on the
  second half it finds the first one.\<close>

lemma on_way_home:
  assumes "meeting u s0" and "on_way u s0 m sy home ct cr s"
  shows "qp_home s0 (su_q1 u) = {}" "qp_home s0 (su_q2 u) = {}" "trees_ok s"
    "\<exists>li. listners s (su_lis u) = Some li"
proof -
  show "qp_home s0 (su_q1 u) = {}" using assms(1) by (simp add: meeting_def)
  show "qp_home s0 (su_q2 u) = {}" using assms(1) by (simp add: meeting_def)
  show "trees_ok s" using assms(2) by (simp add: on_way_def)
  have "same_listners s0 s" using assms(2) by (simp add: on_way_def)
  then show "\<exists>li. listners s (su_lis u) = Some li"
    using same_listners_dom [of s0 s "su_lis u"] assms(1) by (auto simp: meeting_def)
qed

lemma link_first:
  assumes L: "rbtree_lib_ok L" and su: "meeting u s0" and w: "on_way u s0 m sy None ct cr s"
    and p: "p = su_q1 u \<or> p = su_q2 u" and m: "\<forall>z. z \<noteq> su_q1 u \<and> z \<noteq> su_q2 u \<longrightarrow> m z = qps s0 z"
  shows "\<exists>s'. qp_exists L (su_core u) p d (s\<lparr>qps := m(p \<mapsto> shared u t r n)\<rparr>) = Some (Some p, s') \<and>
    on_way u s0 (m(p \<mapsto> shared u t r n)) sy (Some p) ct cr s'"
proof -
  let ?s = "s\<lparr>qps := m(p \<mapsto> shared u t r n)\<rparr>"
  note h = on_way_home [OF su w]
  have hz: "qp_home s z = qp_home s0 z" for z using w by (simp add: on_way_def)
  have np: "qp_home ?s p = {}" using hz h(1,2) p by auto
  have tr: "trees_ok ?s" by (rule trees_ok_cong [OF h(3)]) (use hz h(1,2) p w in \<open>auto simp: on_way_def\<close>)
  obtain li where li: "listners ?s (su_lis u) = Some li" using h(4) by auto
  have x: "qps ?s p = Some (shared u t r n)" "qp_wf (shared u t r n)" "listner (shared u t r n) = Some (su_lis u)"
    by (simp_all add: conn_of_def)
  show ?thesis
  proof (cases rule: qp_exists_cases [OF L tr x li np, where c = "su_core u" and d = d, case_names linked found])
    case (linked s')
    obtain ls where s': "s' = ?s\<lparr>listners := ls\<rparr>" using linked(4) by blast
    have "same_listners s0 s'" using linked(3) w by (simp add: on_way_def same_listners_def)
    moreover have "qp_home s' z = (if Some p = Some z then {(su_lis u, su_core u)} else qp_home s0 z)" for z
      using linked(5) hz by simp
    ultimately have "on_way u s0 (m(p \<mapsto> shared u t r n)) sy (Some p) ct cr s'"
      using linked(2) w unfolding on_way_def s' by simp
    then show ?thesis using linked(1) by blast
  next
    case (found q y)
    have q: "(su_lis u, su_core u) \<in> qp_home s0 q" using found(1) hz [of q] by simp
    then have "q \<noteq> su_q1 u" "q \<noteq> su_q2 u" using h(1,2) by auto
    then have "qps s0 q = Some y" using found(2,3) m by simp
    moreover have "unpaired s0 (su_lis u) (su_core u) (su_ad u)" using su by (simp add: meeting_def)
    ultimately have False using q found(4) unfolding unpaired_def by simp
    then show ?thesis ..
  qed
qed

lemma find_first:
  assumes L: "rbtree_lib_ok L" and su: "meeting u s0" and w: "on_way u s0 m sy (Some q) ct cr s"
    and p: "p = su_q1 u \<or> p = su_q2 u" "p \<noteq> q" and m: "m q = Some (shared u t r n)"
    and d: "qp_dir (shared u t r n) d = NULL"
  shows "qp_exists L (su_core u) p d (s\<lparr>qps := m(p \<mapsto> shared u t' r' n')\<rparr>) = Some (Some q,
    s\<lparr>qps := m(q \<mapsto> set_qp_dir d (qp_dir (shared u t' r' n') d) (shared u t r n), p := None)\<rparr>)"
proof -
  let ?s = "s\<lparr>qps := m(p \<mapsto> shared u t' r' n')\<rparr>"
  note h = on_way_home [OF su w]
  have hz: "qp_home s z = (if q = z then {(su_lis u, su_core u)} else qp_home s0 z)" for z using w by (simp add: on_way_def)
  have np: "qp_home ?s p = {}" using hz h(1,2) p by auto
  have tr: "trees_ok ?s" by (rule trees_ok_cong [OF h(3)]) (use hz h(1,2) p w in \<open>auto simp: on_way_def\<close>)
  obtain li where li: "listners ?s (su_lis u) = Some li" using h(4) by auto
  have x: "qps ?s p = Some (shared u t' r' n')" "qp_wf (shared u t' r' n')" "listner (shared u t' r' n') = Some (su_lis u)"
    by (simp_all add: conn_of_def)
  have q: "(su_lis u, su_core u) \<in> qp_home ?s q" "qps ?s q = Some (shared u t r n)" using hz m p(2) by auto
  show ?thesis
  proof (cases rule: qp_exists_cases [OF L tr x li np, where c = "su_core u" and d = d, case_names linked found])
    case (linked s')
    then show ?thesis using q by (metis shared_sel(1))
  next
    case (found z y)
    then have "z = q" using q by (metis shared_sel(1))
    then show ?thesis using found(2,5) q(2) d p(2) by (simp add: fun_upd_twist [of q p])
  qed
qed

text \<open>Writing QPs, SYN records and the log without touching the trees; and the second half unlinking the QP.\<close>

lemma on_way_write:
  assumes su: "meeting u s0" and w: "on_way u s0 m sy home ct cr s"
    and s': "listners s' = listners s" "listner_root s' = listner_root s" "ip_transparent s' = ip_transparent s"
      "qps s' = m'" "syns s' = sy'" "calls s' = calls s @ cs"
    and other: "\<forall>z. z \<noteq> su_q1 u \<and> z \<noteq> su_q2 u \<longrightarrow> m' z = m z"
    and linked: "\<forall>z. home = Some z \<longrightarrow> map_option key (m' z) = map_option key (m z)"
  shows "on_way u s0 m' sy' home (ct @ calls_on (su_t u) cs) (cr @ calls_on (su_r u) cs) s'"
proof -
  note h = on_way_home [OF su w]
  have hz: "qp_home s z = (if home = Some z then {(su_lis u, su_core u)} else qp_home s0 z)" for z using w by (simp add: on_way_def)
  have hs: "qp_home s' = qp_home s" by (rule qp_home_cong [OF s'(1)])
  have "trees_ok s'"
  proof (rule trees_ok_cong [OF h(3) s'(1)])
    fix z assume z: "qp_home s z \<noteq> {}"
    have "m' z = m z" if "home \<noteq> Some z"
    proof -
      have "z \<noteq> su_q1 u" "z \<noteq> su_q2 u" using z that hz h(1,2) by auto
      then show ?thesis using other by simp
    qed
    then show "map_option key (qps s' z) = map_option key (qps s z)"
      using linked w s'(4) by (cases "home = Some z") (simp_all add: on_way_def)
  qed
  moreover obtain cs0 where "calls s = calls s0 @ cs0" "calls_on (su_t u) cs0 = ct" "calls_on (su_r u) cs0 = cr"
    using w by (auto simp: on_way_def)
  ultimately show ?thesis
    using w s' hz hs unfolding on_way_def by (auto simp: same_listners_def intro!: exI [of _ "cs0 @ cs"])
qed

lemma on_way_meet:
  assumes L: "rbtree_lib_ok L" and w: "on_way u s0 m sy (Some q) ct cr s" and hq: "qp_home s0 q = {}"
    and m: "m q = Some (shared u t r 1)" and d: "\<not> IS_ERR_OR_NULL (qp_dir (shared u t r 1) (d XOR 1))"
  shows "\<exists>s'. wait_qp_enter L (su_core u) q d s = Some (False, s') \<and> on_way u s0 (m(q \<mapsto> shared u t r 2)) sy None ct cr s'"
proof -
  have tr: "trees_ok s" and home: "qp_home s q = {(su_lis u, su_core u)}" and mq: "qps s q = Some (shared u t r 1)"
    using w m by (simp_all add: on_way_def)
  obtain s' ls where s': "wait_qp_enter L (su_core u) q d s = Some (False, s')" "trees_ok s'" "same_listners s s'"
    "s' = s\<lparr>listners := ls, calls := calls s @ [wake_up q], qps := (qps s)(q \<mapsto> shared u t r 2)\<rparr>"
    "\<forall>q'. qp_home s' q' = (if q' = q then {} else qp_home s q')"
    using wait_qp_enter_meets [OF L tr home mq _ _ d] by auto
  obtain cs where cs: "calls s = calls s0 @ cs" "calls_on (su_t u) cs = ct" "calls_on (su_r u) cs = cr"
    using w by (auto simp: on_way_def)
  have "same_listners s0 s'" using s'(3) w by (simp add: on_way_def same_listners_def)
  moreover have "qp_home s' z = qp_home s0 z" for z using s'(5) w hq by (simp add: on_way_def)
  moreover have "calls s' = calls s0 @ cs @ [wake_up q]" using s'(4) cs(1) by simp
  ultimately have "on_way u s0 (m(q \<mapsto> shared u t r 2)) sy None ct cr s'"
    using s'(2,4) w cs(2,3) unfolding on_way_def by (intro conjI exI [of _ "cs @ [wake_up q]"]) simp_all
  then show ?thesis using s'(1) by blast
qed

text \<open>The thread of the SYN.\<close>

lemma tx_starts:
  assumes su: "meeting u s0" and en: "setup_env u et er" and w: "on_way u s0 m (syns s0) home ct cr s"
    and ex: "qp_exists L (su_core u) (su_q1 u) TX_QP (s\<lparr>qps := m(su_q1 u \<mapsto> shared u (ERR_PTR (- EINVAL)) NULL 0)\<rparr>) = Some (Some q, s')"
  shows "start_new_connection_syn L et (Tx_start (su_core u) (su_syn u)) s = Some (Tx_connect (su_core u) (su_syn u) q, s')"
proof -
  let ?ad = "su_ad u"
  have "(set_conn (sin_addr (dest ?ad)) (sin_port (src ?ad)) (sin_port (dest ?ad)) (sin_addr (src ?ad)) (qp_mem et))
      \<lparr>ref_cnt := 0, rx := NULL, tx := ERR_PTR (- EINVAL), listner := Some (su_lis u)\<rparr> = shared u (ERR_PTR (- EINVAL)) NULL 0"
    using en by (simp add: setup_env_def set_conn_eq conn_of_def shared_def)
  moreover have "same_listners s0 s" "syns s (su_syn u) = Some ?ad" "qps s = m" using w su by (simp_all add: on_way_def meeting_def)
  moreover have "search_rb_listner (listners s) (listner_root s) (mark ?ad) = Some (Some (su_lis u))"
    using search_same_listners [OF \<open>same_listners s0 s\<close>] su by (simp add: meeting_def)
  ultimately show ?thesis using en ex by (simp add: setup_env_def Let_def)
qed

lemma tx_connects:
  assumes su: "meeting u s0" and en: "setup_env u et er" and w: "on_way u s0 m (syns s0) (Some q) [] cr s"
    and tc: "su_calls u = tx_calls s0 u" and m: "m q = Some (shared u (ERR_PTR (- EINVAL)) r n)" and q: "q = su_q1 u \<or> q = su_q2 u"
  shows "\<exists>s'. on_way u s0 (m(q \<mapsto> shared u (PTR (su_t u)) r n)) ((syns s0)(su_syn u := None)) (Some q) (su_calls u) cr s' \<and>
    start_new_connection_syn L et (Tx_connect (su_core u) (su_syn u) q) s = tx_joins L u q s'"
proof -
  have t: "new_sock et = su_t u" "calls_succeed et" "su_t u \<noteq> su_r u" using en by (simp_all add: setup_env_def rx_env_def)
  have s: "syns s (su_syn u) = Some (su_ad u)" "qps s q = Some (shared u (ERR_PTR (- EINVAL)) r n)" "qps s = m"
    "ip_transparent s = ip_transparent s0" "syns s = syns s0"
    using w su m by (simp_all add: on_way_def meeting_def)
  let ?cs = "sock_create_kern # su_calls u"
  obtain ad' where so: "syn_socket et (su_ad u) s = (Inr (), PTR (su_t u), ad', s\<lparr>calls := calls s @ ?cs\<rparr>)"
    using syn_socket_succeeds [OF t(2), of "su_ad u" s] s(4) unfolding t(1) tc tx_calls_def connect_calls_def by auto
  define s' where "s' = s\<lparr>calls := calls s @ ?cs, qps := m(q \<mapsto> shared u (PTR (su_t u)) r n), syns := (syns s0)(su_syn u := None)\<rparr>"
  have "on_way u s0 (m(q \<mapsto> shared u (PTR (su_t u)) r n)) ((syns s0)(su_syn u := None)) (Some q)
      ([] @ calls_on (su_t u) ?cs) (cr @ calls_on (su_r u) ?cs) s'"
    by (rule on_way_write [OF su w]) (use q m in \<open>auto simp: s'_def\<close>)
  moreover have "calls_on (su_t u) ?cs = su_calls u" "calls_on (su_r u) ?cs = []" using t(3) by (simp_all add: tc tx_calls_def connect_calls_def)
  moreover have "start_new_connection_syn L et (Tx_connect (su_core u) (su_syn u) q) s = tx_joins L u q s'"
    using s so by (cases s) (simp add: upd_qp_def s'_def tx_joins_def)
  ultimately show ?thesis by auto
qed

text \<open>The thread of the accepted socket.\<close>

lemma rx_starts:
  assumes su: "meeting u s0" and en: "rx_env u er" and w: "on_way u s0 m sy home ct [] s"
    and m: "m (su_q2 u) = Some (su_qp2 u)" and home: "home \<noteq> Some (su_q2 u)"
  shows "\<exists>s1. on_way u s0 m sy home ct (rx_calls u) s1 \<and> start_new_connection L er (Rx_start (su_q2 u)) s =
      rx_joins L u (s1\<lparr>qps := m(su_q2 u \<mapsto> shared u NULL (PTR (su_r u)) 0)\<rparr>)"
proof -
  let ?ad = "su_ad u" let ?q = "su_q2 u" let ?x = "su_qp2 u"
  define y where "y = set_conn (sin_addr (dest ?ad)) (sin_port (src ?ad)) (sin_port (dest ?ad)) (sin_addr (src ?ad)) ?x"
  have x: "qp_wf ?x" "ref_cnt ?x = 0" "rx ?x = PTR (su_r u)" "listner ?x = Some (su_lis u)" using su by (simp_all add: meeting_def)
  have y: "y\<lparr>tx := NULL\<rparr> = shared u NULL (PTR (su_r u)) 0" "key y = conn_of ?ad"
    using x by (simp_all add: y_def set_conn_eq conn_of_def shared_def)
  have e: "calls_succeed er" "sin_addr (orig_dst er) = sin_addr (dest ?ad)" "sin_port (orig_dst er) = sin_port (dest ?ad)"
    "sin_addr (peer er) = sin_addr (src ?ad)" "sin_port (peer er) = sin_port (src ?ad)" "su_t u \<noteq> su_r u"
    "su_core u = unat (qp2cpu (num_online_cpus er) y)"
    using en y(2) by (simp_all add: rx_env_def xor_key_div_mod)
  let ?cs = "rx_calls u @ [sched_setaffinity (Some (su_core u))]"
  have "on_way u s0 m sy home (ct @ calls_on (su_t u) ?cs) ([] @ calls_on (su_r u) ?cs) (s\<lparr>calls := calls s @ ?cs\<rparr>)"
    by (rule on_way_write [OF su w]) (use w in \<open>auto simp: on_way_def\<close>)
  moreover have "calls_on (su_t u) ?cs = []" "calls_on (su_r u) ?cs = rx_calls u" using e(6) by (simp_all add: rx_calls_def)
  moreover have "qps s = m" using w by (simp add: on_way_def)
  then have "start_new_connection L er (Rx_start ?q) s = rx_joins L u (s\<lparr>calls := calls s @ ?cs, qps := m(?q \<mapsto> y\<lparr>tx := NULL\<rparr>)\<rparr>)"
    unfolding rx_joins_def e(7) using e(1-5) x(3) m accepted_socket_succeeds [OF e(1), of "su_r u" "tid ?x" s]
    by (cases s) (simp add: sock_of_def calls_succeed_def do_call_def log_call_def upd_qp_def y_def [symmetric] rx_calls_def Let_def)
  ultimately show ?thesis
    unfolding y(1) by (intro exI [of _ "s\<lparr>calls := calls s @ ?cs\<rparr>"]) simp
qed

text \<open>A relay loop drops its reference: the first one shuts the sockets down, the second one releases
  them and frees the QP.\<close>

lemma on_way_put:
  assumes su: "meeting u s0" and q: "q = su_q1 u \<or> q = su_q2 u" and ne: "su_t u \<noteq> su_r u"
    and w: "on_way u s0 m sy None ct cr s" and m: "m q = Some (shared u (PTR (su_t u)) (PTR (su_r u)) n)"
  defines "k \<equiv> if n = 1 then sock_release else kernel_sock_shutdown"
  shows "\<exists>s'. put_qp q (log_call (sched_setaffinity None) s) = Some (n - 1, s') \<and>
    on_way u s0 (m(q := if n = 1 then None else Some (shared u (PTR (su_t u)) (PTR (su_r u)) (n - 1)))) sy None
      (ct @ [k (su_t u)]) (cr @ [k (su_r u)]) s'"
proof -
  let ?m = "m(q := if n = 1 then None else Some (shared u (PTR (su_t u)) (PTR (su_r u)) (n - 1)))"
  let ?cs = "[sched_setaffinity None, k (su_t u), k (su_r u)] @ (if n = 1 then [unlock_freed q] else [])"
  define s' where "s' = s\<lparr>calls := calls s @ ?cs, qps := ?m\<rparr>"
  have "qps s = m" using w by (simp add: on_way_def)
  then have "put_qp q (log_call (sched_setaffinity None) s) = Some (n - 1, s')"
    using m by (cases s) (simp add: put_qp_def upd_qp_def sock_call_def log_call_def Let_def s'_def k_def)
  moreover have "on_way u s0 ?m sy None (ct @ calls_on (su_t u) ?cs) (cr @ calls_on (su_r u) ?cs) s'"
    by (rule on_way_write [OF su w]) (use q w in \<open>auto simp: s'_def on_way_def\<close>)
  moreover have "calls_on (su_t u) ?cs = [k (su_t u)]" "calls_on (su_r u) ?cs = [k (su_r u)]" using ne by (simp_all add: k_def)
  ultimately show ?thesis by auto
qed

text \<open>The sockets are up until the first relay loop ends.\<close>

lemma on_way_up:
  assumes "sockets_up u s0" and "on_way u s0 m sy home (su_calls u) (rx_calls u) s"
    and "sock_rx so \<in> {PTR (su_t u), PTR (su_r u)}" and "sock_tx so \<in> {PTR (su_t u), PTR (su_r u)}"
  shows "\<not> down so s"
proof -
  obtain cs where cs: "calls s = calls s0 @ cs" "calls_on (su_t u) cs = su_calls u" "calls_on (su_r u) cs = rx_calls u"
    using assms(2) by (auto simp: on_way_def)
  have in_calls: "kernel_sock_shutdown k \<in> set cs \<Longrightarrow> kernel_sock_shutdown k \<in> set (calls_on k cs)" for k by (simp add: calls_on_def)
  have "kernel_sock_shutdown (su_t u) \<notin> set cs" using in_calls [of "su_t u"] assms(1) cs(2) by (auto simp: sockets_up_def)
  moreover have "kernel_sock_shutdown (su_r u) \<notin> set cs" using in_calls [of "su_r u"] cs(3) by (auto simp: rx_calls_def)
  ultimately have "still_up (su_t u) s" "still_up (su_r u) s" using assms(1) cs(1) by (simp_all add: sockets_up_def still_up_def)
  then show ?thesis using assms(3,4) unfolding down_def by auto
qed

lemma on_way_down:
  assumes "on_way u s0 m sy home (ct @ [kernel_sock_shutdown (su_t u)]) cr s" and "sock_rx so = PTR (su_t u) \<or> sock_tx so = PTR (su_t u)"
  shows "down so s"
proof -
  obtain cs where cs: "calls s = calls s0 @ cs" "calls_on (su_t u) cs = ct @ [kernel_sock_shutdown (su_t u)]"
    using assms(1) by (auto simp: on_way_def)
  have "kernel_sock_shutdown (su_t u) \<in> set (calls_on (su_t u) cs)" using cs(2) by simp
  then have "kernel_sock_shutdown (su_t u) \<in> set cs" by (simp add: calls_on_def)
  then show ?thesis using assms(2) cs(1) unfolding down_def still_up_def by auto
qed

section \<open>Every step moves the connection on\<close>

text \<open>What holds after a step of one thread: the pair is still on its way, and further. The iterations of the
  relay loops do not matter for where it is.\<close>

definition tx_moves :: "scenario \<Rightarrow> kstate \<Rightarrow> rbtree_lib \<Rightarrow> env \<Rightarrow> pair \<Rightarrow> bool" where
  "tx_moves u s0 L et p \<longleftrightarrow> (\<exists>pc s. start_new_connection_syn L et (p_tx p) (p_st p) = Some (pc, s) \<and> tx_rank (p_tx p) < tx_rank pc \<and>
     pair_at u s0 (p\<lparr>p_tx := pc, p_st := s\<rparr>))"

definition rx_moves :: "scenario \<Rightarrow> kstate \<Rightarrow> rbtree_lib \<Rightarrow> env \<Rightarrow> pair \<Rightarrow> bool" where
  "rx_moves u s0 L er p \<longleftrightarrow> (\<exists>pc s. start_new_connection L er (p_rx p) (p_st p) = Some (pc, s) \<and> rx_rank (p_rx p) < rx_rank pc \<and>
     pair_at u s0 (p\<lparr>p_rx := pc, p_st := s\<rparr>))"

lemma pair_at_its:
  assumes "pair_at u s0 p"
  shows "pair_at u s0 (p\<lparr>tx_its := ti\<rparr>)" and "pair_at u s0 (p\<lparr>rx_its := ri\<rparr>)"
  using assms by (cases; auto intro: pair_at.intros)+

declare start_new_connection_syn.simps [simp del] start_new_connection.simps [simp del]

lemma tx_moves_start:
  assumes L: "rbtree_lib_ok L" and su: "meeting u s0" and en: "setup_env u et er"
    and p: "pair_at u s0 p" "p_tx p = Tx_start c a"
  shows "tx_moves u s0 L et p"
  using p(1)
proof cases
  case (start s)
  from link_first [OF L su start(2), of "su_q1 u"] obtain s' where
    "qp_exists L (su_core u) (su_q1 u) TX_QP (s\<lparr>qps := (qps s0)(su_q1 u \<mapsto> shared u (ERR_PTR (- EINVAL)) NULL 0)\<rparr>) = Some (Some (su_q1 u), s')"
    and w: "on_way u s0 ((qps s0)(su_q1 u \<mapsto> shared u (ERR_PTR (- EINVAL)) NULL 0)) (syns s0) (Some (su_q1 u)) [] [] s'"
    by blast
  from tx_starts [OF su en start(2) this(1)] pair_at.connecting [OF w] show ?thesis by (simp add: start(1) tx_moves_def tx_joins_def)
next
  case (accepted s)
  have ne: "su_q1 u \<noteq> su_q2 u" using su by (auto simp: meeting_def)
  let ?m = "(qps s0)(su_q2 u \<mapsto> shared u NULL (PTR (su_r u)) 1)"
  let ?m' = "(qps s0)(su_q1 u := None, su_q2 u := None, su_q2 u \<mapsto> shared u (ERR_PTR (- EINVAL)) (PTR (su_r u)) 1)"
  have m': "?m(su_q2 u \<mapsto> set_qp_dir TX_QP (qp_dir (shared u (ERR_PTR (- EINVAL)) NULL 0) TX_QP) (shared u NULL (PTR (su_r u)) 1),
      su_q1 u := None) = ?m'"
    using ne by (auto simp: set_qp_dir_def qp_dir_def)
  have "qp_exists L (su_core u) (su_q1 u) TX_QP (s\<lparr>qps := ?m(su_q1 u \<mapsto> shared u (ERR_PTR (- EINVAL)) NULL 0)\<rparr>) =
      Some (Some (su_q2 u), s\<lparr>qps := ?m'\<rparr>)"
    using find_first [OF L su accepted(2), of "su_q1 u" NULL "PTR (su_r u)" 1 TX_QP "ERR_PTR (- EINVAL)" NULL 0] ne
    unfolding m' by (simp add: qp_dir_def)
  moreover have "on_way u s0 ?m' (syns s0) (Some (su_q2 u)) ([] @ calls_on (su_t u) []) (rx_calls u @ calls_on (su_r u) []) (s\<lparr>qps := ?m'\<rparr>)"
    by (rule on_way_write [OF su accepted(2)]) (use accepted(2) in \<open>auto simp: on_way_def\<close>)
  ultimately show ?thesis
    using tx_starts [OF su en accepted(2)] pair_at.half [of "su_q2 u" u s0 "s\<lparr>qps := ?m'\<rparr>"] by (simp add: accepted(1) tx_moves_def tx_joins_def)
qed (use p(2) in auto)

lemma tx_moves_connect:
  assumes L: "rbtree_lib_ok L" and su: "meeting u s0" and en: "setup_env u et er"
    and tc: "su_calls u = tx_calls s0 u" and p: "pair_at u s0 p" "p_tx p = Tx_connect c a q"
  shows "tx_moves u s0 L et p"
  using p(1)
proof cases
  case (connecting s)
  obtain s' where s': "on_way u s0 ((qps s0)(su_q1 u \<mapsto> shared u (PTR (su_t u)) NULL 0)) ((syns s0)(su_syn u := None)) (Some (su_q1 u))
      (su_calls u) [] s'" "start_new_connection_syn L et (Tx_connect (su_core u) (su_syn u) (su_q1 u)) s = tx_joins L u (su_q1 u) s'"
    using tx_connects [OF su en connecting(2) tc, of NULL 0 L] by auto
  let ?m' = "(qps s0)(su_q1 u \<mapsto> shared u (PTR (su_t u)) NULL 1)"
  have "wait_qp_enter L (su_core u) (su_q1 u) TX_QP s' = Some (True, s'\<lparr>qps := ?m'\<rparr>)"
    using wait_qp_enter_first [of s' "su_q1 u" "shared u (PTR (su_t u)) NULL 0" TX_QP] s'(1) by (simp add: on_way_def qp_dir_def)
  moreover have "on_way u s0 ?m' ((syns s0)(su_syn u := None)) (Some (su_q1 u)) (su_calls u @ calls_on (su_t u) [])
      ([] @ calls_on (su_r u) []) (s'\<lparr>qps := ?m'\<rparr>)"
    by (rule on_way_write [OF su s'(1)]) (use s'(1) in \<open>auto simp: on_way_def\<close>)
  ultimately show ?thesis
    using s'(2) pair_at.connected [of u s0 "s'\<lparr>qps := ?m'\<rparr>"] by (simp add: connecting(1) tx_moves_def tx_joins_def)
next
  case (half q s)
  let ?m = "\<lambda>t n. (qps s0)(su_q1 u := None, su_q2 u := None, q \<mapsto> shared u t (PTR (su_r u)) n)"
  obtain s1 where s1: "on_way u s0 (?m (PTR (su_t u)) 1) ((syns s0)(su_syn u := None)) (Some q) (su_calls u) (rx_calls u) s1"
    "start_new_connection_syn L et (Tx_connect (su_core u) (su_syn u) q) s = tx_joins L u q s1"
    using tx_connects [OF su en half(3) tc _ half(2), of "PTR (su_r u)" 1 L] by auto
  have "qp_home s0 q = {}" using on_way_home(1,2) [OF su half(3)] half(2) by auto
  then obtain s2 where s2: "wait_qp_enter L (su_core u) q TX_QP s1 = Some (False, s2)"
    "on_way u s0 (?m (PTR (su_t u)) 2) ((syns s0)(su_syn u := None)) None (su_calls u) (rx_calls u) s2"
    using on_way_meet [OF L s1(1), of "PTR (su_t u)" "PTR (su_r u)" TX_QP] by (auto simp: qp_dir_def)
  then have "qps s2 q = Some (shared u (PTR (su_t u)) (PTR (su_r u)) 2)" by (simp add: on_way_def)
  then show ?thesis
    using s1(2) s2(1) pair_at.met [OF half(2) s2(2)] by (simp add: half(1) tx_moves_def tx_joins_def syn_ready_def)
qed (use p(2) in auto)

text \<open>The half towards the server wakes up, and relays; this holds however it was connected.\<close>

lemma tx_wakes:
  assumes "pair_at u s0 p" and "p_tx p = Tx_wait c q" and "tx_runs (p_tx p) (p_st p)"
  shows "\<exists>x. qps (p_st p) q = Some x \<and> tx x = PTR (su_t u) \<and> rx x = PTR (su_r u) \<and>
    pair_at u s0 (p\<lparr>p_tx := Tx_relay q \<lparr>sock_rx = PTR (su_t u), sock_tx = PTR (su_r u), sock_dir = 1\<rparr>\<rparr>)"
  using assms(1)
proof cases
  case (connected s)
  then have "qps s q = Some (shared u (PTR (su_t u)) NULL 1)" using assms(2) by (simp add: on_way_def)
  then show ?thesis using assms(2,3) connected(1) by (simp add: half_there_def)
next
  case (met q s pc rp)
  then have "qps s q = Some (shared u (PTR (su_t u)) (PTR (su_r u)) 2)" by (simp add: on_way_def)
  then show ?thesis using pair_at.met [OF met(2,3) _ met(5)] met(4) assms(2) by (auto simp: met(1))
next
  case (client_closed q s pc)
  then have "qps s q = Some (shared u (PTR (su_t u)) (PTR (su_r u)) 1)" by (simp add: on_way_def)
  then show ?thesis using pair_at.client_closed [OF client_closed(2,3)] client_closed(4) assms(2) by (auto simp: client_closed(1))
qed (use assms(2) in auto)

lemma tx_relays:
  assumes su: "meeting u s0" and up: "sockets_up u s0" and ne: "su_t u \<noteq> su_r u" and rel: "relays_part e xs"
    and xs: "\<exists>zs. from_server u = xs @ zs" "\<not> down so (p_st p) \<Longrightarrow> xs = from_server u"
    and p: "pair_at u s0 p" "p_tx p = Tx_relay q so"
  shows "\<exists>r s'. half_duplex (hd_env_of e) q (p_st p) = Some (r, s') \<and> relayed e q so (p_st p) = [(sock_tx so, xs)] \<and>
    (\<forall>rc. pair_at u s0 (p\<lparr>p_tx := Tx_done rc, p_st := s', delivered := delivered p @ [(sock_tx so, xs)]\<rparr>))"
  using p(1)
proof cases
  case (met q s pc rp)
  have "\<not> down so s" using on_way_up [OF up met(3), of so] met(1,4) p(2) by auto
  then have f: "xs = from_server u" using xs(2) by (simp add: met(1))
  obtain s' where s': "put_qp q (log_call (sched_setaffinity None) s) = Some (1, s')"
    "on_way u s0 ((qps s0)(su_q1 u := None, su_q2 u := None, q \<mapsto> shared u (PTR (su_t u)) (PTR (su_r u)) 1))
      ((syns s0)(su_syn u := None)) None (su_calls u @ [kernel_sock_shutdown (su_t u)]) (rx_calls u @ [kernel_sock_shutdown (su_r u)]) s'"
    using on_way_put [OF su met(2) ne met(3), of 2] by auto
  obtain r where "half_duplex (hd_env_of e) q s = Some (r, s')" "relayed e q so s = [(sock_tx so, xs)]"
    using half_duplex_part [OF rel s'(1), of so] by blast
  then show ?thesis using pair_at.server_closed [OF met(2) s'(2) met(5)] met(4) p(2) f by (auto simp: met(1))
next
  case (client_closed q s pc)
  obtain s' where s': "put_qp q (log_call (sched_setaffinity None) s) = Some (0, s')"
    "on_way u s0 ((qps s0)(su_q1 u := None, su_q2 u := None)) ((syns s0)(su_syn u := None)) None
      (su_calls u @ end_calls (su_t u)) (rx_calls u @ end_calls (su_r u)) s'"
    using on_way_put [OF su client_closed(2) ne client_closed(3), of 1] client_closed(2) by (auto simp: end_calls_def fun_upd_twist)
  obtain r where "half_duplex (hd_env_of e) q s = Some (r, s')" "relayed e q so s = [(sock_tx so, xs)]"
    using half_duplex_part [OF rel s'(1), of so] by blast
  then show ?thesis using pair_at.over [OF s'(2), of xs "from_client u"] xs(1) client_closed(4) p(2)
    by (auto simp: client_closed(1) add_mset_commute)
qed (use p(2) in auto)

text \<open>The half towards the client ends its relay loop.\<close>

lemma rx_relays:
  assumes su: "meeting u s0" and up: "sockets_up u s0" and ne: "su_t u \<noteq> su_r u" and rel: "relays_part e ys"
    and ys: "\<exists>zs. from_client u = ys @ zs" "\<not> down so (p_st p) \<Longrightarrow> ys = from_client u"
    and p: "pair_at u s0 p" "p_rx p = Rx_relay q so"
  shows "\<exists>r s'. half_duplex (hd_env_of e) q (p_st p) = Some (r, s') \<and> relayed e q so (p_st p) = [(sock_tx so, ys)] \<and>
    pair_at u s0 (p\<lparr>p_rx := Rx_done 0, p_st := s', delivered := delivered p @ [(sock_tx so, ys)]\<rparr>)"
  using p(1)
proof cases
  case (met q s pc rp)
  have "\<not> down so s" using on_way_up [OF up met(3), of so] met(1,5) p(2) by auto
  then have f: "ys = from_client u" using ys(2) by (simp add: met(1))
  obtain s' where s': "put_qp q (log_call (sched_setaffinity None) s) = Some (1, s')"
    "on_way u s0 ((qps s0)(su_q1 u := None, su_q2 u := None, q \<mapsto> shared u (PTR (su_t u)) (PTR (su_r u)) 1))
      ((syns s0)(su_syn u := None)) None (su_calls u @ [kernel_sock_shutdown (su_t u)]) (rx_calls u @ [kernel_sock_shutdown (su_r u)]) s'"
    using on_way_put [OF su met(2) ne met(3), of 2] by auto
  obtain r where "half_duplex (hd_env_of e) q s = Some (r, s')" "relayed e q so s = [(sock_tx so, ys)]"
    using half_duplex_part [OF rel s'(1), of so] by blast
  then show ?thesis using pair_at.client_closed [OF met(2) s'(2) met(4)] met(5) p(2) f by (auto simp: met(1))
next
  case (server_closed q s rp rc)
  obtain s' where s': "put_qp q (log_call (sched_setaffinity None) s) = Some (0, s')"
    "on_way u s0 ((qps s0)(su_q1 u := None, su_q2 u := None)) ((syns s0)(su_syn u := None)) None
      (su_calls u @ end_calls (su_t u)) (rx_calls u @ end_calls (su_r u)) s'"
    using on_way_put [OF su server_closed(2) ne server_closed(3), of 1] server_closed(2) by (auto simp: end_calls_def fun_upd_twist)
  obtain r where "half_duplex (hd_env_of e) q s = Some (r, s')" "relayed e q so s = [(sock_tx so, ys)]"
    using half_duplex_part [OF rel s'(1), of so] by blast
  then show ?thesis using pair_at.over [OF s'(2), of "from_server u" ys] ys(1) server_closed(4) p(2)
    by (auto simp: server_closed(1))
qed (use p(2) in auto)

lemma tx_moves_wait:
  assumes en: "setup_env u et er" and p: "pair_at u s0 p" "p_tx p = Tx_wait c q" and r: "tx_runs (p_tx p) (p_st p)"
  shows "tx_moves u s0 L et p"
proof -
  have "wait_qp_leave L c q (wait_rc et) s = Some (0, s)" for s
    using en by (simp add: setup_env_def calls_succeed_def)
  then show ?thesis using tx_wakes [OF p r] p(2)
    by (cases p) (auto simp: tx_moves_def start_new_connection_syn.simps(3) syn_ready_def)
qed

text \<open>When the accepted half finds the SYN's half.\<close>

lemma rx_finds:
  assumes L: "rbtree_lib_ok L" and su: "meeting u s0" and w: "on_way u s0 ((qps s0)(su_q1 u \<mapsto> shared u t NULL n)) sy (Some (su_q1 u)) ct cr s"
  shows "\<exists>s'. qp_exists L (su_core u) (su_q2 u) RX_QP
      (s\<lparr>qps := (qps s0)(su_q1 u \<mapsto> shared u t NULL n, su_q2 u \<mapsto> shared u NULL (PTR (su_r u)) 0)\<rparr>) = Some (Some (su_q1 u), s') \<and>
    on_way u s0 ((qps s0)(su_q1 u := None, su_q2 u := None, su_q1 u \<mapsto> shared u t (PTR (su_r u)) n)) sy (Some (su_q1 u)) ct cr s'"
proof -
  have ne: "su_q2 u \<noteq> su_q1 u" using su by (auto simp: meeting_def)
  let ?m = "(qps s0)(su_q1 u \<mapsto> shared u t NULL n)"
  let ?m' = "(qps s0)(su_q1 u := None, su_q2 u := None, su_q1 u \<mapsto> shared u t (PTR (su_r u)) n)"
  have m': "?m(su_q1 u \<mapsto> set_qp_dir RX_QP (qp_dir (shared u NULL (PTR (su_r u)) 0) RX_QP) (shared u t NULL n), su_q2 u := None) = ?m'"
    using ne by (auto simp: set_qp_dir_def qp_dir_def)
  have "on_way u s0 ?m' sy (Some (su_q1 u)) (ct @ calls_on (su_t u) []) (cr @ calls_on (su_r u) []) (s\<lparr>qps := ?m'\<rparr>)"
    by (rule on_way_write [OF su w]) (use w in \<open>auto simp: on_way_def\<close>)
  then show ?thesis
    using find_first [OF L su w, of "su_q2 u" t NULL n RX_QP NULL "PTR (su_r u)" 0] ne unfolding m' by (simp add: qp_dir_def)
qed

lemma setup_qps: "meeting u s0 \<Longrightarrow> qps s0 (su_q2 u) = Some (su_qp2 u)" "meeting u s0 \<Longrightarrow> su_q1 u \<noteq> su_q2 u"
  by (auto simp: meeting_def)

lemma rx_moves_first:
  assumes L: "rbtree_lib_ok L" and su: "meeting u s0" and en: "rx_env u er" and w: "on_way u s0 (qps s0) (syns s0) None [] [] s"
  shows "rx_moves u s0 L er \<lparr>p_tx = Tx_start (su_core u) (su_syn u), p_rx = Rx_start (su_q2 u), p_st = s, tx_its = ti, rx_its = ri, delivered = []\<rparr>"
proof -
  let ?m = "\<lambda>n. (qps s0)(su_q2 u \<mapsto> shared u NULL (PTR (su_r u)) n)"
  obtain s1 where s1: "on_way u s0 (qps s0) (syns s0) None [] (rx_calls u) s1"
    "start_new_connection L er (Rx_start (su_q2 u)) s = rx_joins L u (s1\<lparr>qps := ?m 0\<rparr>)"
    using rx_starts [OF su en w _, of L] setup_qps [OF su] by auto
  obtain s2 where s2: "qp_exists L (su_core u) (su_q2 u) RX_QP (s1\<lparr>qps := ?m 0\<rparr>) = Some (Some (su_q2 u), s2)"
    "on_way u s0 (?m 0) (syns s0) (Some (su_q2 u)) [] (rx_calls u) s2"
    using link_first [OF L su s1(1), of "su_q2 u"] by blast
  have "wait_qp_enter L (su_core u) (su_q2 u) RX_QP s2 = Some (True, s2\<lparr>qps := ?m 1\<rparr>)"
    using wait_qp_enter_first [of s2 "su_q2 u" "shared u NULL (PTR (su_r u)) 0" RX_QP] s2(2) by (simp add: on_way_def qp_dir_def)
  moreover have "on_way u s0 (?m 1) (syns s0) (Some (su_q2 u)) ([] @ calls_on (su_t u) []) (rx_calls u @ calls_on (su_r u) []) (s2\<lparr>qps := ?m 1\<rparr>)"
    by (rule on_way_write [OF su s2(2)]) (use s2(2) in \<open>auto simp: on_way_def\<close>)
  ultimately show ?thesis
    using s1(2) s2(1) pair_at.accepted [of u s0 "s2\<lparr>qps := ?m 1\<rparr>"] by (simp add: rx_moves_def rx_joins_def)
qed

lemma rx_moves_connecting:
  assumes L: "rbtree_lib_ok L" and su: "meeting u s0" and en: "rx_env u er"
    and w: "on_way u s0 ((qps s0)(su_q1 u \<mapsto> shared u (ERR_PTR (- EINVAL)) NULL 0)) (syns s0) (Some (su_q1 u)) [] [] s"
  shows "rx_moves u s0 L er \<lparr>p_tx = Tx_connect (su_core u) (su_syn u) (su_q1 u), p_rx = Rx_start (su_q2 u), p_st = s, tx_its = ti, rx_its = ri, delivered = []\<rparr>"
proof -
  let ?m1 = "(qps s0)(su_q1 u \<mapsto> shared u (ERR_PTR (- EINVAL)) NULL 0)"
  let ?m = "\<lambda>n. (qps s0)(su_q1 u := None, su_q2 u := None, su_q1 u \<mapsto> shared u (ERR_PTR (- EINVAL)) (PTR (su_r u)) n)"
  obtain s1 where s1: "on_way u s0 ?m1 (syns s0) (Some (su_q1 u)) [] (rx_calls u) s1"
    "start_new_connection L er (Rx_start (su_q2 u)) s = rx_joins L u (s1\<lparr>qps := ?m1(su_q2 u \<mapsto> shared u NULL (PTR (su_r u)) 0)\<rparr>)"
    using rx_starts [OF su en w, of L] setup_qps [OF su] by auto
  obtain s2 where s2: "qp_exists L (su_core u) (su_q2 u) RX_QP (s1\<lparr>qps := ?m1(su_q2 u \<mapsto> shared u NULL (PTR (su_r u)) 0)\<rparr>) =
      Some (Some (su_q1 u), s2)" "on_way u s0 (?m 0) (syns s0) (Some (su_q1 u)) [] (rx_calls u) s2"
    using rx_finds [OF L su s1(1)] by blast
  have "wait_qp_enter L (su_core u) (su_q1 u) RX_QP s2 = Some (True, s2\<lparr>qps := ?m 1\<rparr>)"
    using wait_qp_enter_first [of s2 "su_q1 u" "shared u (ERR_PTR (- EINVAL)) (PTR (su_r u)) 0" RX_QP] s2(2)
    by (simp add: on_way_def qp_dir_def)
  moreover have "on_way u s0 (?m 1) (syns s0) (Some (su_q1 u)) ([] @ calls_on (su_t u) []) (rx_calls u @ calls_on (su_r u) []) (s2\<lparr>qps := ?m 1\<rparr>)"
    by (rule on_way_write [OF su s2(2)]) (use s2(2) in \<open>auto simp: on_way_def\<close>)
  ultimately show ?thesis
    using s1(2) s2(1) pair_at.half [of "su_q1 u" u s0 "s2\<lparr>qps := ?m 1\<rparr>"] by (simp add: rx_moves_def rx_joins_def)
qed

lemma rx_moves_connected:
  assumes L: "rbtree_lib_ok L" and su: "meeting u s0" and en: "rx_env u er"
    and w: "on_way u s0 ((qps s0)(su_q1 u \<mapsto> shared u (PTR (su_t u)) NULL 1)) ((syns s0)(su_syn u := None)) (Some (su_q1 u))
      (su_calls u) [] s"
  shows "rx_moves u s0 L er \<lparr>p_tx = Tx_wait (su_core u) (su_q1 u), p_rx = Rx_start (su_q2 u), p_st = s, tx_its = ti, rx_its = ri, delivered = []\<rparr>"
proof -
  let ?m1 = "(qps s0)(su_q1 u \<mapsto> shared u (PTR (su_t u)) NULL 1)" let ?sy = "(syns s0)(su_syn u := None)"
  let ?m = "\<lambda>n. (qps s0)(su_q1 u := None, su_q2 u := None, su_q1 u \<mapsto> shared u (PTR (su_t u)) (PTR (su_r u)) n)"
  obtain s1 where s1: "on_way u s0 ?m1 ?sy (Some (su_q1 u)) (su_calls u) (rx_calls u) s1"
    "start_new_connection L er (Rx_start (su_q2 u)) s = rx_joins L u (s1\<lparr>qps := ?m1(su_q2 u \<mapsto> shared u NULL (PTR (su_r u)) 0)\<rparr>)"
    using rx_starts [OF su en w, of L] setup_qps [OF su] by auto
  obtain s2 where s2: "qp_exists L (su_core u) (su_q2 u) RX_QP (s1\<lparr>qps := ?m1(su_q2 u \<mapsto> shared u NULL (PTR (su_r u)) 0)\<rparr>) =
      Some (Some (su_q1 u), s2)" "on_way u s0 (?m 1) ?sy (Some (su_q1 u)) (su_calls u) (rx_calls u) s2"
    using rx_finds [OF L su s1(1)] by blast
  obtain s3 where s3: "wait_qp_enter L (su_core u) (su_q1 u) RX_QP s2 = Some (False, s3)"
    "on_way u s0 (?m 2) ?sy None (su_calls u) (rx_calls u) s3"
    using on_way_meet [OF L s2(2) on_way_home(1) [OF su s2(2)], of "PTR (su_t u)" "PTR (su_r u)" RX_QP] by (auto simp: qp_dir_def)
  then have "qps s3 (su_q1 u) = Some (shared u (PTR (su_t u)) (PTR (su_r u)) 2)" by (simp add: on_way_def)
  then show ?thesis
    using s1(2) s2(1) s3(1) pair_at.met [of "su_q1 u" u s0 s3] s3(2) by (simp add: rx_moves_def rx_joins_def conn_ready_def)
qed

lemma rx_moves_wait:
  assumes en: "rx_env u er" and p: "pair_at u s0 p" "p_rx p = Rx_wait c q" and r: "rx_runs (p_rx p) (p_st p)"
  shows "rx_moves u s0 L er p"
proof -
  have wait: "wait_qp_leave L c q (wait_rc er) s = Some (0, s)" for s
    using en by (simp add: rx_env_def calls_succeed_def)
  note op = start_new_connection.simps(2) conn_ready_def
  from p(1) show ?thesis
  proof cases
    case (accepted s)
    then have "qps s q = Some (shared u NULL (PTR (su_r u)) 1)" using p(2) by (simp add: on_way_def)
    then show ?thesis using r accepted(1) p(2) by (simp add: half_there_def)
  next
    case (half q s)
    then have "qps s q = Some (shared u (ERR_PTR (- EINVAL)) (PTR (su_r u)) 1)" by (simp add: on_way_def)
    then show ?thesis using r half(1) p(2) by (simp add: half_there_def)
  next
    case (met q s pc rp)
    then have "qps s q = Some (shared u (PTR (su_t u)) (PTR (su_r u)) 2)" by (simp add: on_way_def)
    then show ?thesis using pair_at.met [OF met(2,3,4)] met(5) p(2) wait by (simp add: met(1) rx_moves_def op)
  next
    case (server_closed q s rp rc)
    then have "qps s q = Some (shared u (PTR (su_t u)) (PTR (su_r u)) 1)" by (simp add: on_way_def)
    then show ?thesis using pair_at.server_closed [OF server_closed(2,3)] server_closed(4) p(2) wait by (simp add: server_closed(1) rx_moves_def op)
  qed (use p(2) in auto)
qed

text \<open>Together: every thread that may run does, and the pair gets further.\<close>

lemma rx_moves_any:
  assumes "rbtree_lib_ok L" and "meeting u s0" and "rx_env u er" and "pair_at u s0 p" and r: "rx_runs (p_rx p) (p_st p)"
  shows "rx_moves u s0 L er p"
proof (cases "p_rx p")
  case (Rx_start q)
  show ?thesis using assms(4)
    by cases (use Rx_start rx_moves_first [OF assms(1-3)] rx_moves_connecting [OF assms(1-3)] rx_moves_connected [OF assms(1-3)] in auto)
qed (use r rx_moves_wait [OF assms(3,4)] in auto)

lemma tx_moves_any:
  assumes "rbtree_lib_ok L" and "setup_state u s0" and "setup_env u et er" and "pair_at u s0 p" and r: "tx_runs (p_tx p) (p_st p)"
  shows "tx_moves u s0 L et p"
proof -
  have su: "meeting u s0" "su_calls u = tx_calls s0 u" using assms(2) by (simp_all add: setup_state_def)
  show ?thesis
    using r tx_moves_start [OF assms(1) su(1) assms(3,4)] tx_moves_connect [OF assms(1) su(1) assms(3) su(2) assms(4)]
      tx_moves_wait [OF assms(3,4)] by (cases "p_tx p") auto
qed

text \<open>The start of the pair and its end: each half delivered a prefix of its stream, and the one that ended first
  all of it.\<close>

definition pair_start :: "scenario \<Rightarrow> kstate \<Rightarrow> pair" where
  "pair_start u s = \<lparr>p_tx = Tx_start (su_core u) (su_syn u), p_rx = Rx_start (su_q2 u), p_st = s, tx_its = [], rx_its = [],
     delivered = []\<rparr>"

definition pair_finished :: "scenario \<Rightarrow> kstate \<Rightarrow> pair \<Rightarrow> bool" where
  "pair_finished u s0 p \<longleftrightarrow> (\<exists>rc. p_tx p = Tx_done rc) \<and> p_rx p = Rx_done 0 \<and>
     (\<exists>xs ys. mset (delivered p) = {#(PTR (su_r u), xs), (PTR (su_t u), ys)#} \<and> (\<exists>zs. from_server u = xs @ zs) \<and>
       (\<exists>zs. from_client u = ys @ zs) \<and> (xs = from_server u \<or> ys = from_client u)) \<and>
     qps (p_st p) = (qps s0)(su_q1 u := None, su_q2 u := None) \<and> syns (p_st p) = (syns s0)(su_syn u := None) \<and>
     (\<forall>z. qp_home (p_st p) z = qp_home s0 z) \<and>
     (\<exists>cs. calls (p_st p) = calls s0 @ cs \<and> calls_on (su_t u) cs = su_calls u @ end_calls (su_t u) \<and>
       calls_on (su_r u) cs = rx_calls u @ end_calls (su_r u))"

text \<open>A pair that cannot move is over: a relay loop can always make an iteration or end.\<close>

lemma relay_goes_on:
  assumes "relayed_of bs is"
  shows "\<exists>i. \<not> dn \<and> moves_on bs is i \<or> comes_to_end bs is i dn"
proof -
  obtain zs where zs: "bs = stream_of is @ zs" using assms by (auto simp: relayed_of_def)
  let ?last = "\<lparr>rcv = 0, rdata = [], snt = 0, stop = False\<rparr>"
  show ?thesis
  proof (cases zs)
    case Nil
    then have "comes_to_end bs is ?last dn" using zs by (simp add: comes_to_end_def io_ok_def)
    then show ?thesis by blast
  next
    case (Cons z zs')
    have "moves_on bs is \<lparr>rcv = 1, rdata = [z], snt = 1, stop = False\<rparr>"
      using zs Cons by (simp add: moves_on_def whole_io_def io_ok_def io_cont_def stream_of_def)
    moreover have "comes_to_end bs is ?last True" by (simp add: comes_to_end_def io_ok_def)
    ultimately show ?thesis by (cases dn) auto
  qed
qed

lemma pair_at_over:
  assumes "pair_at u s0 p" and "\<not> tx_runs (p_tx p) (p_st p)" and "\<not> rx_runs (p_rx p) (p_st p)"
    and "\<forall>q so. p_tx p \<noteq> Tx_relay q so" and "\<forall>q so. p_rx p \<noteq> Rx_relay q so"
  shows "pair_finished u s0 p"
proof -
  have m: "on_way u s0 m sy home ct cr s \<Longrightarrow> qps s = m" for m sy home ct cr s by (simp add: on_way_def)
  show ?thesis using assms(1)
  proof cases
    case (over s xs ys d rc ti ri)
    then show ?thesis unfolding pair_finished_def on_way_def by (simp add: over(1)) blast
  qed (use assms(2-5) in \<open>auto simp: half_there_def dest: m\<close>)
qed

text \<open>The good states, for any two threads that move as above.\<close>

definition pair_good :: "rbtree_lib \<Rightarrow> scenario \<Rightarrow> kstate \<Rightarrow> env \<Rightarrow> env \<Rightarrow> pair \<Rightarrow> bool" where
  "pair_good L u s0 et er p \<longleftrightarrow> rbtree_lib_ok L \<and> setup_state u s0 \<and> setup_env u et er \<and> pair_at u s0 p \<and>
     relayed_of (from_server u) (tx_its p) \<and> relayed_of (from_client u) (rx_its p)"

definition pair_bound :: "scenario \<Rightarrow> nat" where
  "pair_bound u = 7 + length (from_server u) + length (from_client u)"

lemma pair_rank_le:
  assumes "relayed_of (from_server u) (tx_its p)" and "relayed_of (from_client u) (rx_its p)"
  shows "pair_rank p \<le> pair_bound u"
proof -
  have "length (stream_of (tx_its p)) \<le> length (from_server u)" "length (stream_of (rx_its p)) \<le> length (from_client u)"
    using assms by (auto simp: relayed_of_def)
  moreover have "tx_rank (p_tx p) \<le> 4" "rx_rank (p_rx p) \<le> 3" by (cases "p_tx p"; simp) (cases "p_rx p"; simp)
  ultimately show ?thesis by (simp add: pair_rank_def pair_bound_def)
qed

lemma moves_on_relayed:
  assumes "relayed_of bs is" and "moves_on bs is i"
  shows "relayed_of bs (is @ [i])" and "length (stream_of is) < length (stream_of (is @ [i]))"
  using assms by (auto simp: relayed_of_def moves_on_def whole_io_def io_ok_def io_cont_def stream_of_def)

lemma ends_part:
  assumes "pages_ok (hd_env_of e)" and "relayed_of bs is" and "comes_to_end bs is i (down so s)"
  shows "relays_part (relaying e (is @ [i])) (stream_of is)" and "\<exists>zs. bs = stream_of is @ zs" and "\<not> down so s \<Longrightarrow> stream_of is = bs"
  using relaying_part [OF assms] assms(2) by (simp_all add: relayed_of_def)

text \<open>The end of a relay loop.\<close>

lemma tx_ends:
  assumes g: "pair_good L u s0 et er p" and p: "p_tx p = Tx_relay q so" and i: "comes_to_end (from_server u) (tx_its p) i (down so (p_st p))"
  defines "e \<equiv> relaying et (tx_its p @ [i])"
  shows "\<exists>rc s. start_new_connection_syn L e (p_tx p) (p_st p) = Some (Tx_done rc, s) \<and>
    pair_at u s0 (p\<lparr>p_tx := Tx_done rc, p_st := s, delivered := delivered p @ relayed e q so (p_st p)\<rparr>) \<and>
    relayed e q so (p_st p) = [(sock_tx so, stream_of (tx_its p))]"
proof -
  have h: "meeting u s0" "sockets_up u s0" "su_t u \<noteq> su_r u" "pages_ok (hd_env_of et)" "relayed_of (from_server u) (tx_its p)" "pair_at u s0 p"
    using g setup_up [of u s0] by (simp_all add: pair_good_def setup_state_def setup_env_def rx_env_def)
  note r = ends_part [OF h(4,5) i]
  show ?thesis using tx_relays [OF h(1-3) r(1,2) _ h(6) p] r(3) p
    unfolding e_def by (auto simp: start_new_connection_syn.simps(4))
qed

lemma rx_ends_at:
  assumes h: "meeting u s0" "sockets_up u s0" "rx_env u er" "relayed_of (from_client u) (rx_its p)" "pair_at u s0 p"
    and p: "p_rx p = Rx_relay q so" and i: "comes_to_end (from_client u) (rx_its p) i (down so (p_st p))"
  defines "e \<equiv> relaying er (rx_its p @ [i])"
  shows "\<exists>s. start_new_connection L e (p_rx p) (p_st p) = Some (Rx_done 0, s) \<and>
    pair_at u s0 (p\<lparr>p_rx := Rx_done 0, p_st := s, delivered := delivered p @ relayed e q so (p_st p)\<rparr>) \<and>
    relayed e q so (p_st p) = [(sock_tx so, stream_of (rx_its p))]"
proof -
  have e: "su_t u \<noteq> su_r u" "pages_ok (hd_env_of er)" using h(3) by (simp_all add: rx_env_def)
  note r = ends_part [OF e(2) h(4) i]
  show ?thesis using rx_relays [OF h(1,2) e(1) r(1,2) _ h(5) p] r(3) p
    unfolding e_def by (auto simp: start_new_connection.simps(3))
qed

lemma rx_ends:
  assumes g: "pair_good L u s0 et er p" and "p_rx p = Rx_relay q so" and "comes_to_end (from_client u) (rx_its p) i (down so (p_st p))"
  shows "\<exists>s. start_new_connection L (relaying er (rx_its p @ [i])) (p_rx p) (p_st p) = Some (Rx_done 0, s) \<and>
    pair_at u s0 (p\<lparr>p_rx := Rx_done 0, p_st := s, delivered := delivered p @ relayed (relaying er (rx_its p @ [i])) q so (p_st p)\<rparr>) \<and>
    relayed (relaying er (rx_its p @ [i])) q so (p_st p) = [(sock_tx so, stream_of (rx_its p))]"
  using rx_ends_at [of u s0 er p q so i L] setup_up [of u s0] assms by (simp add: pair_good_def setup_state_def setup_env_def)

lemma pair_gains:
  assumes g: "pair_good L u s0 et er p" and st: "pair_step L et er (from_server u) (from_client u) p p'"
  shows "pair_good L u s0 et er p' \<and> pair_rank p < pair_rank p'"
proof -
  have h: "rbtree_lib_ok L" "setup_state u s0" "setup_env u et er" "pair_at u s0 p" "meeting u s0" "rx_env u er"
    "relayed_of (from_server u) (tx_its p)" "relayed_of (from_client u) (rx_its p)"
    using g by (simp_all add: pair_good_def setup_state_def setup_env_def)
  from st show ?thesis
  proof cases
    case (tx_goes pc s)
    then show ?thesis using tx_moves_any [OF h(1-4)] h by (auto simp: tx_moves_def pair_good_def pair_rank_def)
  next
    case (tx_iterates q so i)
    then show ?thesis using moves_on_relayed [OF h(7)] pair_at_its(1) [OF h(4)] h by (auto simp: pair_good_def pair_rank_def)
  next
    case (tx_ends q so i e pc s)
    then show ?thesis using End_To_End.tx_ends [OF g tx_ends(2,3)] h by (auto simp: pair_good_def pair_rank_def)
  next
    case (rx_goes pc s)
    then show ?thesis using rx_moves_any [OF h(1,5,6,4)] h by (auto simp: rx_moves_def pair_good_def pair_rank_def)
  next
    case (rx_iterates q so i)
    then show ?thesis using moves_on_relayed [OF h(8)] pair_at_its(2) [OF h(4)] h by (auto simp: pair_good_def pair_rank_def)
  next
    case (rx_ends q so i e pc s)
    then show ?thesis using End_To_End.rx_ends [OF g rx_ends(2,3)] h by (auto simp: pair_good_def pair_rank_def)
  qed
qed

lemma pair_safe:
  assumes g: "pair_good L u s0 et er p"
  shows "\<not> pair_oops L et er (from_server u) (from_client u) p"
proof -
  have h: "rbtree_lib_ok L" "setup_state u s0" "setup_env u et er" "pair_at u s0 p" "meeting u s0" "rx_env u er"
    using g by (simp_all add: pair_good_def setup_state_def setup_env_def)
  show ?thesis
    using tx_moves_any [OF h(1-4)] rx_moves_any [OF h(1,5,6,4)] tx_ends [OF g] rx_ends [OF g]
    unfolding pair_oops_def tx_moves_def rx_moves_def by fastforce
qed

lemma pair_stuck_over:
  assumes g: "pair_good L u s0 et er p" and n: "\<forall>p'. \<not> pair_step L et er (from_server u) (from_client u) p p'"
  shows "pair_finished u s0 p"
proof -
  have h: "rbtree_lib_ok L" "setup_state u s0" "setup_env u et er" "pair_at u s0 p" "meeting u s0" "rx_env u er"
    "relayed_of (from_server u) (tx_its p)" "relayed_of (from_client u) (rx_its p)"
    using g by (simp_all add: pair_good_def setup_state_def setup_env_def)
  show ?thesis
  proof (rule pair_at_over [OF h(4)])
    show "\<not> tx_runs (p_tx p) (p_st p)"
      using tx_moves_any [OF h(1-4)] n pair_step.tx_goes unfolding tx_moves_def by blast
    show "\<not> rx_runs (p_rx p) (p_st p)"
      using rx_moves_any [OF h(1,5,6,4)] n pair_step.rx_goes unfolding rx_moves_def by blast
    show "\<forall>q so. p_tx p \<noteq> Tx_relay q so"
    proof (intro allI notI)
      fix q so assume t: "p_tx p = Tx_relay q so"
      have "\<exists>i. \<not> down so (p_st p) \<and> moves_on (from_server u) (tx_its p) i \<or> comes_to_end (from_server u) (tx_its p) i (down so (p_st p))"
        by (rule relay_goes_on [OF h(7)])
      then show False using n t tx_ends [OF g t] pair_step.tx_iterates [OF t] pair_step.tx_ends [OF t _ refl] by metis
    qed
    show "\<forall>q so. p_rx p \<noteq> Rx_relay q so"
    proof (intro allI notI)
      fix q so assume t: "p_rx p = Rx_relay q so"
      have "\<exists>i. \<not> down so (p_st p) \<and> moves_on (from_client u) (rx_its p) i \<or> comes_to_end (from_client u) (rx_its p) i (down so (p_st p))"
        by (rule relay_goes_on [OF h(8)])
      then show False using n t rx_ends [OF g t] pair_step.rx_iterates [OF t] pair_step.rx_ends [OF t _ refl] by metis
    qed
  qed
qed

interpretation pairs: ranked_system "pair_step L et er (from_server u) (from_client u)" "pair_good L u s0 et er" pair_rank
    "pair_bound u" "pair_finished u s0" for L et er u s0
proof
  show "pair_rank p \<le> pair_bound u" if "pair_good L u s0 et er p" for p
    using pair_rank_le that by (simp add: pair_good_def)
qed (use pair_gains pair_stuck_over in auto)

lemma pair_start_at:
  assumes "meeting u s0"
  shows "pair_at u s0 (pair_start u s0)"
proof -
  have "on_way u s0 (qps s0) (syns s0) None [] [] s0" using assms by (simp add: meeting_def on_way_def)
  then show ?thesis unfolding pair_start_def by (rule pair_at.start)
qed

lemma pair_start_good:
  assumes "rbtree_lib_ok L" and "setup_state u s0" and "setup_env u et er"
  shows "pair_good L u s0 et er (pair_start u s0)"
  using assms pair_start_at by (simp add: pair_good_def setup_state_def pair_start_def relayed_of_def stream_of_def)

section \<open>A half-closed connection\<close>

text \<open>The runs in which the half towards the client has made no iteration when the server closes.\<close>

definition idle_step :: "rbtree_lib \<Rightarrow> env \<Rightarrow> env \<Rightarrow> scenario \<Rightarrow> pair \<Rightarrow> pair \<Rightarrow> bool" where
  "idle_step L et er u p p' \<longleftrightarrow> pair_step L et er (from_server u) (from_client u) p p' \<and> rx_its p' = []"

definition idle_good :: "rbtree_lib \<Rightarrow> scenario \<Rightarrow> kstate \<Rightarrow> env \<Rightarrow> env \<Rightarrow> pair \<Rightarrow> bool" where
  "idle_good L u s0 et er p \<longleftrightarrow> pair_good L u s0 et er p \<and> rx_its p = [] \<and> from_client u \<noteq> [] \<and>
     (\<forall>ys. (PTR (su_t u), ys) \<in> set (delivered p) \<longrightarrow> ys = [])"

definition idle_lost :: "scenario \<Rightarrow> kstate \<Rightarrow> pair \<Rightarrow> bool" where
  "idle_lost u s0 p \<longleftrightarrow> pair_finished u s0 p \<and> (PTR (su_t u), []) \<in> set (delivered p)"

text \<open>The sockets that the two loops send to, and when only the other thread can go on.\<close>

lemma relay_socks:
  assumes "pair_at u s0 p"
  shows "p_tx p = Tx_relay q so \<Longrightarrow> sock_tx so = PTR (su_r u)" and "p_rx p = Rx_relay q so \<Longrightarrow> sock_tx so = PTR (su_t u)"
  using assms by (cases; auto)+

lemma rx_up_tx_goes:
  assumes p: "pair_at u s0 p" "p_rx p = Rx_relay q so" "\<not> down so (p_st p)"
  shows "tx_runs (p_tx p) (p_st p) \<or> (\<exists>q so. p_tx p = Tx_relay q so)"
  using p(1)
proof cases
  case (met q s pc rp)
  then have "qps s q = Some (shared u (PTR (su_t u)) (PTR (su_r u)) 2)" by (simp add: on_way_def)
  then show ?thesis using met(1,4) by (auto simp: half_there_def)
next
  case (server_closed q s rp)
  have "down so s" using on_way_down [OF server_closed(3), of so] server_closed(1,4) p(2) by auto
  then show ?thesis using p(3) server_closed(1) by simp
qed (use p(2) in auto)

lemma idle_gains:
  assumes g: "idle_good L u s0 et er p" and st: "idle_step L et er u p p'"
  shows "idle_good L u s0 et er p' \<and> pair_rank p < pair_rank p'"
proof -
  have h: "pair_good L u s0 et er p" "rx_its p = []" "pair_at u s0 p" "su_t u \<noteq> su_r u"
    and s: "pair_step L et er (from_server u) (from_client u) p p'" "rx_its p' = []"
    using g st by (simp_all add: idle_good_def idle_step_def pair_good_def setup_env_def rx_env_def)
  have "delivered p' = delivered p \<or> (\<exists>x. delivered p' = delivered p @ [(PTR (su_r u), x)]) \<or>
      delivered p' = delivered p @ [(PTR (su_t u), [])]"
    using s(1)
  proof cases
    case (tx_ends q so i e pc s)
    then show ?thesis using End_To_End.tx_ends [OF h(1) tx_ends(2,3)] relay_socks(1) [OF h(3) tx_ends(2)] by auto
  next
    case (rx_ends q so i e pc s)
    then show ?thesis using End_To_End.rx_ends [OF h(1) rx_ends(2,3)] relay_socks(2) [OF h(3) rx_ends(2)] h(2)
      by (auto simp: stream_of_def)
  qed simp_all
  then show ?thesis using pair_gains [OF h(1) s(1)] g s(2) h(4) by (auto simp: idle_good_def)
qed

lemma idle_stuck:
  assumes g: "idle_good L u s0 et er p" and n: "\<forall>p'. \<not> idle_step L et er u p p'"
  shows "idle_lost u s0 p"
proof -
  have h: "pair_good L u s0 et er p" "rx_its p = []" "pair_at u s0 p" "relayed_of (from_server u) (tx_its p)" "from_client u \<noteq> []"
    "\<forall>ys. (PTR (su_t u), ys) \<in> set (delivered p) \<longrightarrow> ys = []"
    using g by (simp_all add: idle_good_def pair_good_def)
  have m: "rbtree_lib_ok L" "setup_state u s0" "setup_env u et er" "meeting u s0" "rx_env u er"
    using h(1) by (simp_all add: pair_good_def setup_state_def setup_env_def)
  have no: "\<not> pair_step L et er (from_server u) (from_client u) p p'" if "rx_its p' = []" for p'
    using n that unfolding idle_step_def by blast
  let ?st = "pair_step L et er (from_server u) (from_client u)"
  have tx: "\<not> tx_runs (p_tx p) (p_st p)"
  proof
    assume r: "tx_runs (p_tx p) (p_st p)"
    then obtain pc s where t: "start_new_connection_syn L et (p_tx p) (p_st p) = Some (pc, s)"
      using tx_moves_any [OF m(1-3) h(3)] unfolding tx_moves_def by blast
    have "?st p (p\<lparr>p_tx := pc, p_st := s\<rparr>)" by (rule pair_step.tx_goes [OF r t])
    then show False using no h(2) by simp
  qed
  have txr: "p_tx p \<noteq> Tx_relay q so" for q so
  proof
    assume t: "p_tx p = Tx_relay q so"
    obtain i where i: "\<not> down so (p_st p) \<and> moves_on (from_server u) (tx_its p) i \<or> comes_to_end (from_server u) (tx_its p) i (down so (p_st p))"
      using relay_goes_on [OF h(4)] by blast
    show False
    proof (cases "comes_to_end (from_server u) (tx_its p) i (down so (p_st p))")
      case True
      obtain rc s where e: "start_new_connection_syn L (relaying et (tx_its p @ [i])) (p_tx p) (p_st p) = Some (Tx_done rc, s)"
        using tx_ends [OF h(1) t True] by blast
      have "?st p (p\<lparr>p_tx := Tx_done rc, p_st := s,
          delivered := delivered p @ relayed (relaying et (tx_its p @ [i])) q so (p_st p)\<rparr>)"
        by (rule pair_step.tx_ends [OF t True refl e])
      then show False using no h(2) by simp
    next
      case False
      then have "?st p (p\<lparr>tx_its := tx_its p @ [i]\<rparr>)" using pair_step.tx_iterates [OF t] i by blast
      then show False using no h(2) by simp
    qed
  qed
  have rxr: "p_rx p \<noteq> Rx_relay q so" for q so
  proof
    assume t: "p_rx p = Rx_relay q so"
    then have "down so (p_st p)" using rx_up_tx_goes [OF h(3) t] tx txr by blast
    then have i: "comes_to_end (from_client u) (rx_its p) \<lparr>rcv = 0, rdata = [], snt = 0, stop = False\<rparr> (down so (p_st p))"
      by (simp add: comes_to_end_def io_ok_def)
    let ?e = "relaying er (rx_its p @ [\<lparr>rcv = 0, rdata = [], snt = 0, stop = False\<rparr>])"
    obtain s where e: "start_new_connection L ?e (p_rx p) (p_st p) = Some (Rx_done 0, s)" using rx_ends [OF h(1) t i] by blast
    have "?st p (p\<lparr>p_rx := Rx_done 0, p_st := s, delivered := delivered p @ relayed ?e q so (p_st p)\<rparr>)"
      by (rule pair_step.rx_ends [OF t i refl e])
    then show False using no h(2) by simp
  qed
  have rx: "\<not> rx_runs (p_rx p) (p_st p)"
  proof
    assume r: "rx_runs (p_rx p) (p_st p)"
    then obtain pc s where t: "start_new_connection L er (p_rx p) (p_st p) = Some (pc, s)"
      using rx_moves_any [OF m(1,4,5) h(3)] unfolding rx_moves_def by blast
    have "?st p (p\<lparr>p_rx := pc, p_st := s\<rparr>)" by (rule pair_step.rx_goes [OF r t])
    then show False using no h(2) by simp
  qed
  have f: "pair_finished u s0 p" by (rule pair_at_over [OF h(3) tx rx]) (use txr rxr in auto)
  then obtain xs ys where "mset (delivered p) = {#(PTR (su_r u), xs), (PTR (su_t u), ys)#}" by (auto simp: pair_finished_def)
  then have "(PTR (su_t u), ys) \<in> set (delivered p)" by (metis insert_iff set_mset_add_mset_insert set_mset_mset)
  then show ?thesis using f h(6) by (auto simp: idle_lost_def)
qed

interpretation idles: ranked_system "idle_step L et er u" "idle_good L u s0 et er" pair_rank "pair_bound u" "idle_lost u s0" for L et er u s0
proof
  show "pair_rank p \<le> pair_bound u" if "idle_good L u s0 et er p" for p
    using pairs.rank_le that by (auto simp: idle_good_def)
qed (use idle_gains idle_stuck in auto)

lemma half_close_loses:
  assumes "rbtree_lib_ok L" and "setup_state u s0" and "setup_env u et er" and "from_client u \<noteq> []"
  shows "\<exists>p. (pair_step L et er (from_server u) (from_client u))\<^sup>*\<^sup>* (pair_start u s0) p \<and> pair_finished u s0 p \<and>
    (PTR (su_t u), []) \<in> set (delivered p)"
proof -
  have "idle_good L u s0 et er (pair_start u s0)"
    using pair_start_good [OF assms(1-3)] assms(4) by (simp add: idle_good_def pair_start_def)
  then obtain p where p: "(idle_step L et er u)\<^sup>*\<^sup>* (pair_start u s0) p" "idle_lost u s0 p" using idles.reaches_final by blast
  have "(pair_step L et er (from_server u) (from_client u))\<^sup>*\<^sup>* (pair_start u s0) p"
    by (rule rtranclp_mono [THEN predicate2D, OF _ p(1)]) (auto simp: idle_step_def)
  then show ?thesis using p(2) unfolding idle_lost_def by blast
qed

section \<open>From the SYN to the pair\<close>

definition syn_packet :: "sk_buff \<Rightarrow> bool" where
  "syn_packet skb \<longleftrightarrow> skb_mark skb \<noteq> 0 \<and> protocol (ip_hdr skb) = IPPROTO_TCP \<and> syn (tcp_hdr skb) \<and> \<not> ack (tcp_hdr skb)"

text \<open>The tenant has a listener with a raw socket.\<close>

definition tenant_ready :: "s32 \<Rightarrow> kstate \<Rightarrow> s32 \<Rightarrow> addr \<Rightarrow> sock \<Rightarrow> bool" where
  "tenant_ready b s t l rs \<longleftrightarrow> tenants_ok b s \<and> window b t \<and> tenants s t = Some l \<and>
     (\<exists>li. listners s l = Some li \<and> raw li = Some rs)"

lemma ingress_syn:
  assumes "syn_packet skb" and "tenant_ready b s (skb_mark skb) l rs" and "new_probe e = Some p"
  shows "cbn_ingress_hook e ''RX'' skb s = Some (NF_ACCEPT, log_call (run_in_pool (Start_probe_syn p) None)
    (s\<lparr>probes := (probes s)(p \<mapsto> \<lparr>probe_iph = ip_hdr skb, probe_tcph = tcp_hdr skb, probe_listner = l\<rparr>)\<rparr>))"
  using assms search_listner_map [of b "listners s" "listner_root s" "skb_mark skb"]
  by (simp add: syn_packet_def tenant_ready_def cbn_ingress_hook_def trace_iph_def Let_def)

lemma conn_of_syn_record: "conn_of (syn_record e skb) = skb_key skb"
  by (simp add: conn_of_def syn_record_def skb_key_def Let_def)

text \<open>The QP that the server makes for the accepted socket.\<close>

definition accepted_qp :: "sv_env \<Rightarrow> u32 \<Rightarrow> addr \<Rightarrow> cbn_qp" where
  "accepted_qp e t l = (set_tid t ((sv_qp_mem e)\<lparr>rx := PTR (accepted e)\<rparr>))\<lparr>listner := Some l, ref_cnt := 0\<rparr>"

lemma accepted_qp_sel [simp]: "rx (accepted_qp e t l) = PTR (accepted e)" "listner (accepted_qp e t l) = Some l"
  "ref_cnt (accepted_qp e t l) = 0" "qp_wf (sv_qp_mem e) \<Longrightarrow> qp_wf (accepted_qp e t l)"
  by (simp_all add: accepted_qp_def set_tid_def) (simp add: put_bytes_def byte_simps)

text \<open>The connection of a captured SYN: its record \<open>ad\<close> in the object \<open>a\<close>, the QP \<open>q2\<close> that the server of the
  listener \<open>l\<close> makes, the QP \<open>q1\<close> of the other half with the socket \<open>t\<close> and the calls \<open>ct\<close> that connect it.\<close>

definition syn_scenario :: "nf_env \<Rightarrow> sv_env \<Rightarrow> sk_buff \<Rightarrow> addresses \<Rightarrow> addr \<Rightarrow> addr \<Rightarrow> addr \<Rightarrow> addr \<Rightarrow> sock \<Rightarrow> kcall list \<Rightarrow>
    u8 list \<Rightarrow> u8 list \<Rightarrow> scenario" where
  "syn_scenario e sv skb ad a l q1 q2 t ct bs bc = \<lparr>su_core = skb_core (nf_cpus e) skb, su_syn = a, su_ad = ad,
     su_lis = l, su_q1 = q1, su_q2 = q2, su_qp2 = accepted_qp sv (skb_mark skb) l, su_t = t, su_r = accepted sv, su_calls = ct,
     from_server = bs, from_client = bc\<rparr>"

text \<open>The server of the tenant accepts the connection.\<close>

definition accepts :: "sv_env \<Rightarrow> sock \<Rightarrow> addr \<Rightarrow> bool" where
  "accepts sv k q \<longleftrightarrow> sv_rc sv (kernel_accept k) = 0 \<and> sv_qp sv = Some q \<and> qp_wf (sv_qp_mem sv) \<and> \<not> should_stop sv"

lemma accept_step:
  assumes "accepts sv k q"
  shows "split_server L sv (Sv_accept m l k) s = Some (Sv_accept m l k,
    s\<lparr>qps := (qps s)(q \<mapsto> accepted_qp sv m l), calls := calls s @ [kernel_accept k, run_in_pool (Start_new_connection q) None]\<rparr>)"
  using assms by (cases s) (simp add: accepts_def sv_call_def log_call_def accepted_qp_def Let_def)

lemma syn_meeting:
  assumes ten: "tenant_ready b s (skb_mark skb) l rs" and tr: "trees_ok s" and sv: "accepts sv k q2"
    and q: "qp_home s q1 = {}" "qps s q2 = None" "q1 \<noteq> q2" and un: "unpaired s l (skb_core (nf_cpus e) skb) ad"
    and s': "qps s' = (qps s)(q2 \<mapsto> accepted_qp sv (skb_mark skb) l)" "syns s' a = Some ad" "mark ad = skb_mark skb"
      "listners s' = listners s" "listner_root s' = listner_root s"
  shows "meeting (syn_scenario e sv skb ad a l q1 q2 t ct bs bc) s'"
proof -
  have home: "qp_home s' = qp_home s" by (rule qp_home_cong [OF s'(4)])
  have h2: "qp_home s q2 = {}" using home_live [OF tr] q(2) by fastforce
  moreover have "trees_ok s'" by (rule trees_ok_cong [OF tr s'(4)]) (use s'(1) h2 in auto)
  moreover have "search_rb_listner (listners s') (listner_root s') (skb_mark skb) = Some (Some l)"
    using ten search_listner_map [of b "listners s" "listner_root s" "skb_mark skb"] s'(4,5) by (simp add: tenant_ready_def)
  moreover have "unpaired s' l (skb_core (nf_cpus e) skb) ad"
    using un h2 unfolding unpaired_def home s'(1) by (auto split: if_splits)
  moreover have "listners s l \<noteq> None" using ten by (auto simp: tenant_ready_def)
  ultimately show ?thesis using sv q s' home by (simp add: meeting_def syn_scenario_def accepts_def)
qed

lemma capture_and_accept:
  assumes skb: "syn_packet skb" and ten: "tenant_ready b s (skb_mark skb) l rs" and tr: "trees_ok s"
    and e1: "new_probe e = Some p" and e2: "routed skb skb'" "\<not> is_out_gue skb'" "new_syn e = Some a" "qp_wf (stack_qp e)"
    and sv: "accepts sv k q2" and q: "qps s q1 = None" "qps s q2 = None" "q1 \<noteq> q2"
    and un: "unpaired s l (skb_core (nf_cpus e) skb) (syn_record e skb)" and up: "still_up t s" "still_up (accepted sv) s"
  shows "\<exists>s1 s2 s3 s4 n. cbn_ingress_hook e ''RX'' skb s = Some (NF_ACCEPT, s1) \<and>
    start_probe_syn rcp p s1 = Some (n, s2) \<and> cbn_egress_hook e skb' s2 = Some (NF_DROP, skb', s3) \<and>
    split_server L sv (Sv_accept (skb_mark skb) l k) s3 = Some (Sv_accept (skb_mark skb) l k, s4) \<and>
    calls s4 = calls s @ [run_in_pool (Start_probe_syn p) None,
      sendmsg_headers rs \<lparr>sin_family = AF_INET, sin_port = 0, sin_addr = daddr (ip_hdr skb)\<rparr> (ip_hdr skb) (probe_header (tcp_hdr skb)),
      run_in_pool (Start_new_connection_syn a) (Some (skb_core (nf_cpus e) skb)),
      kernel_accept k, run_in_pool (Start_new_connection q2) None] \<and>
    setup_state (syn_scenario e sv skb (syn_record e skb) a l q1 q2 t (connect_calls (ip_transparent s) t (syn_record e skb)) bs bc) s4"
    (is "\<exists>s1 s2 s3 s4 n. _ \<and> _ \<and> _ \<and> _ \<and> _ \<and> setup_state ?u s4")
proof -
  let ?pr = "\<lparr>probe_iph = ip_hdr skb, probe_tcph = tcp_hdr skb, probe_listner = l\<rparr>"
  define s1 where "s1 = log_call (run_in_pool (Start_probe_syn p) None) (s\<lparr>probes := (probes s)(p \<mapsto> ?pr)\<rparr>)"
  define c where "c = sendmsg_headers rs \<lparr>sin_family = AF_INET, sin_port = 0, sin_addr = daddr (ip_hdr skb)\<rparr> (ip_hdr skb) (probe_header (tcp_hdr skb))"
  define s2 where "s2 = (log_call c s1)\<lparr>probes := (probes s1)(p := None)\<rparr>"
  define s3 where "s3 = log_call (run_in_pool (Start_new_connection_syn a) (Some (skb_core (nf_cpus e) skb)))
    (s2\<lparr>syns := (syns s2)(a \<mapsto> syn_record e skb)\<rparr>)"
  define s4 where "s4 = s3\<lparr>qps := (qps s3)(q2 \<mapsto> accepted_qp sv (skb_mark skb) l),
    calls := calls s3 @ [kernel_accept k, run_in_pool (Start_new_connection q2) None]\<rparr>"
  obtain li where li: "listners s l = Some li" "raw li = Some rs" using ten by (auto simp: tenant_ready_def)
  have "cbn_ingress_hook e ''RX'' skb s = Some (NF_ACCEPT, s1)" using ingress_syn [OF skb ten e1] by (simp add: s1_def)
  moreover have "start_probe_syn rcp p s1 = Some (rcp c, s2)"
    using start_probe_syn_ok [of s1 p ?pr li rs rcp] li by (simp add: s1_def s2_def c_def)
  moreover have "cbn_egress_hook e skb' s2 = Some (NF_DROP, skb', s3)"
    using egress_probe [OF e2(1) _ _ e2(4,3), of s2] skb e2(2) by (simp add: syn_packet_def s3_def)
  moreover have "split_server L sv (Sv_accept (skb_mark skb) l k) s3 = Some (Sv_accept (skb_mark skb) l k, s4)"
    using accept_step [OF sv] by (simp add: s4_def)
  moreover have "calls s4 = calls s @ [run_in_pool (Start_probe_syn p) None, c,
      run_in_pool (Start_new_connection_syn a) (Some (skb_core (nf_cpus e) skb)), kernel_accept k, run_in_pool (Start_new_connection q2) None]"
    by (simp add: s4_def s3_def s2_def s1_def)
  moreover have "setup_state ?u s4"
  proof -
    have s4: "qps s4 = (qps s)(q2 \<mapsto> accepted_qp sv (skb_mark skb) l)" "syns s4 a = Some (syn_record e skb)"
      "listners s4 = listners s" "listner_root s4 = listner_root s" "ip_transparent s4 = ip_transparent s"
      by (simp_all add: s4_def s3_def s2_def s1_def)
    have m: "mark (syn_record e skb) = skb_mark skb" by (simp add: syn_record_def Let_def)
    have "qp_home s q1 = {}" using home_live [OF tr] q(1) by fastforce
    note meet = syn_meeting [OF ten tr sv this q(2,3) un s4(1,2) m s4(3,4)]
    have "still_up t s4" "still_up (accepted sv) s4"
      using up by (simp_all add: still_up_def s4_def s3_def s2_def s1_def c_def)
    with meet show ?thesis
      using q(1,3) s4(1,5) by (simp add: setup_state_def tx_calls_def) (simp add: syn_scenario_def)
  qed
  ultimately show ?thesis unfolding c_def by blast
qed

section \<open>Properties\<close>

text \<open>C2. However the two threads of a connection and the iterations of their relay loops interleave, the
  connection is served, if the QPs can be allocated and the loops get their pages, every call on the sockets
  before the loops succeeds, no wait runs out of time, and the sockets fail in no other way than by being
  shut down (a receive returns 0 only when there is nothing more to come, and a send takes all it is given,
  until one of the two sockets is shut down). The threads take at most seven steps and one for every byte
  that the two peers send, none of which oopses; from every state on the way they get to the end, and they
  can stop only there. At the end both threads are done, the client got a prefix of what the server sent and
  the server a prefix of what the client sent, and one of the two is all of it: the loop that ends first
  shuts both sockets down, and what the other one has not relayed by then is lost. So a server that closes
  first can cost the client all it sent: there is a run in which nothing of it arrives. Both QPs and the
  SYN's record are freed, the trees are as before, and each socket saw its own sequence of calls: the options,
  the connection to the destination of the SYN, one shutdown and one release.\<close>

theorem connection_served:
  assumes "rbtree_lib_ok L" and "setup_state u s0" and "setup_env u et er"
    and "(pair_step L et er (from_server u) (from_client u) ^^ n) (pair_start u s0) p"
  shows "n \<le> 7 + length (from_server u) + length (from_client u) \<and> \<not> pair_oops L et er (from_server u) (from_client u) p \<and>
    (\<exists>p'. (pair_step L et er (from_server u) (from_client u))\<^sup>*\<^sup>* p p' \<and> pair_finished u s0 p') \<and>
    ((\<nexists>p'. pair_step L et er (from_server u) (from_client u) p p') \<longrightarrow> pair_finished u s0 p) \<and>
    (from_client u \<noteq> [] \<longrightarrow> (\<exists>p'. (pair_step L et er (from_server u) (from_client u))\<^sup>*\<^sup>* (pair_start u s0) p' \<and>
      pair_finished u s0 p' \<and> (PTR (su_t u), []) \<in> set (delivered p')))"
proof -
  have g: "pair_good L u s0 et er p" and n: "n \<le> pair_bound u"
    using pairs.run_good [OF assms(4) pair_start_good [OF assms(1-3)]] pairs.run_short [OF assms(4) pair_start_good [OF assms(1-3)]]
    by simp_all
  then show ?thesis using pair_safe [OF g] pairs.reaches_final [OF g] pairs.stuck_final [OF g] half_close_loses [OF assms(1-3)]
    by (simp add: pair_bound_def)
qed

text \<open>An example: tenant 7, its listener at 9, the SYN of \<open>ex_syn\<close> in the record 3.\<close>

definition ex_host :: kstate where
  "ex_host = ex_tenant ((bare_listner 7)\<lparr>raw := Some 33\<rparr>)"

definition ex_hooks :: nf_env where
  "ex_hooks = ex_nf_env\<lparr>nf_cpus := 1\<rparr>"

definition ex_server :: sv_env where
  "ex_server = \<lparr>sv_rc = (\<lambda>_. 0), new_listner = None, listner_mem = bare_listner 0, percpu_roots = None, percpu_lists = None,
     possible_cpus = [], sv_sock = 30, raw_sock = 33, accepted = 60, sv_qp = Some 2, sv_qp_mem = bare_qp (replicate 12 0),
     should_stop = False\<rparr>"

definition ex_thread :: "u8 list \<Rightarrow> env" where
  "ex_thread bs = \<lparr>rc_of = (\<lambda>_. 0), new_qp = Some 1, qp_mem = bare_qp (replicate 12 0), new_sock = 50,
     orig_dst = \<lparr>sin_family = 2, sin_port = 0x5000, sin_addr = 0x0100000a\<rparr>,
     peer = \<lparr>sin_family = 2, sin_port = 0x3412, sin_addr = 0x0200000a\<rparr>, num_online_cpus = 1, wait_rc = 5,
     hd_env_of = hd_env_ex\<lparr>script := [\<lparr>rcv = int (length bs), rdata = bs, snt = int (length bs), stop = False\<rparr>,
       \<lparr>rcv = 0, rdata = [], snt = 0, stop = False\<rparr>]\<rparr>\<rparr>"

definition ex_scenario :: scenario where
  "ex_scenario = syn_scenario ex_hooks ex_server ex_syn (syn_record ex_hooks ex_syn) 3 9 1 2 50
    (connect_calls (ip_transparent ex_host) 50 (syn_record ex_hooks ex_syn)) [1, 2, 3] [4, 5]"

definition ex_served :: kstate where
  "ex_served = ex_host\<lparr>syns := [3 \<mapsto> syn_record ex_hooks ex_syn], qps := [2 \<mapsto> accepted_qp ex_server 7 9]\<rparr>"

lemma ex_relays: "bs \<noteq> [] \<Longrightarrow> length bs \<le> 9 \<Longrightarrow> relays_all (ex_thread bs) bs"
  unfolding relays_all_def
  by (intro conjI exI [of _ "[\<lparr>rcv = int (length bs), rdata = bs, snt = int (length bs), stop = False\<rparr>]"]
      exI [of _ "\<lparr>rcv = 0, rdata = [], snt = 0, stop = False\<rparr>"] exI [of _ "[]"])
    (simp_all add: ex_thread_def pages_ok_ex io_ok_def io_cont_def)

lemma ex_pages: "pages_ok (hd_env_of (ex_thread bs))"
  by (simp add: ex_thread_def pages_ok_ex)

lemma ex_setup_env: "setup_env ex_scenario (ex_thread bs) (ex_thread bc)"
  using ex_pages [of bs] ex_pages [of bc]
  by (simp add: setup_env_def rx_env_def ex_scenario_def syn_scenario_def calls_succeed_def ex_thread_def ex_server_def syn_record_def
      ex_syn_def skb_core_def ex_hooks_def xor_key_div_mod Let_def)

lemma ex_host_ready: "tenant_ready 0 ex_host 7 9 33" "trees_ok ex_host" "qp_home ex_host q = {}"
proof -
  have "lkey ((bare_listner 7)\<lparr>raw := Some 33\<rparr>) = 7" by (simp add: bare_listner_def)
  from ex_tenant_tree [OF this] show "tenant_ready 0 ex_host 7 9 33"
    by (simp add: tenant_ready_def ex_host_def) (simp add: ex_tenant_def)
  show "trees_ok ex_host" "qp_home ex_host q = {}"
    by (auto simp: trees_ok_def qp_home_def qp_tree_def rb_ordered_def ex_host_def ex_tenant_def bare_listner_def split: if_splits)
qed

lemma ex_setup_state: "setup_state ex_scenario ex_served"
proof -
  have "qp_home ex_served q = {}" for q using ex_host_ready(3) by (simp add: ex_served_def)
  moreover have "still_up k ex_served" for k by (simp add: still_up_def ex_served_def ex_host_def ex_tenant_def kstate0_def)
  moreover have "trees_ok ex_served" by (rule trees_ok_cong [OF ex_host_ready(2)]) (simp_all add: ex_served_def ex_host_ready(3))
  moreover have "search_rb_listner (listners ex_host) (listner_root ex_host) 7 = Some (Some 9)" "listners ex_host 9 \<noteq> None"
    using ex_host_ready(1) search_listner_map [of 0 "listners ex_host" "listner_root ex_host" 7] by (auto simp: tenant_ready_def)
  ultimately show ?thesis
    by (simp add: setup_state_def meeting_def tx_calls_def ex_scenario_def syn_scenario_def ex_served_def unpaired_def syn_record_def ex_server_def Let_def)
qed

theorem connection_served_witness:
  "\<not> pair_oops plain_lib (ex_thread []) (ex_thread []) [1, 2, 3] [4, 5] (pair_start ex_scenario ex_served) \<and>
   (\<exists>p'. (pair_step plain_lib (ex_thread []) (ex_thread []) [1, 2, 3] [4, 5])\<^sup>*\<^sup>* (pair_start ex_scenario ex_served) p' \<and>
     pair_finished ex_scenario ex_served p' \<and> (PTR 50, []) \<in> set (delivered p'))"
proof -
  have "from_server ex_scenario = [1, 2, 3]" "from_client ex_scenario = [4, 5]" "su_t ex_scenario = 50" by (simp_all add: ex_scenario_def syn_scenario_def)
  with connection_served [OF plain_lib_ok ex_setup_state ex_setup_env, of 0 "[]" "[]" "pair_start ex_scenario ex_served"]
  show ?thesis by simp
qed

text \<open>C3. A client's connection from its SYN to its end. If the tenant is registered with a raw socket (its
  id within one half-range window of all tenants' ids), the objects for the probe and the record can be
  allocated, the probe that comes back through the raw socket has kept the protocol, the addresses and the TCP
  header it was sent with, the route it takes is no tunnel, and the accept succeeds: the SYN passes the
  ingress hook unharmed, the probe made of it is sent through the tenant's raw socket and dropped by the
  egress hook, and the server accepts the connection. This starts one thread for each half, the first on the
  core of the connection. Under the conditions of \<open>connection_served\<close> on their calls, the two can only end as
  stated there, with the connection between the client and the destination that its SYN named: one direction
  relayed completely, of the other a prefix, everything released.\<close>

theorem split_end_to_end:
  assumes "rbtree_lib_ok L" and "syn_packet skb" and "tenant_ready b s (skb_mark skb) l rs" and "trees_ok s"
    and "new_probe e = Some p" and "routed skb skb'" and "\<not> is_out_gue skb'" and "new_syn e = Some a" and "qp_wf (stack_qp e)"
    and "accepts sv k q2" and "qps s q1 = None" and "qps s q2 = None" and "q1 \<noteq> q2"
    and "unpaired s l (skb_core (nf_cpus e) skb) (syn_record e skb)" and "still_up t s" and "still_up (accepted sv) s"
    and "u = syn_scenario e sv skb (syn_record e skb) a l q1 q2 t (connect_calls (ip_transparent s) t (syn_record e skb)) bs bc" and "setup_env u et er"
  shows "\<exists>s1 s2 s3 s4 n. cbn_ingress_hook e ''RX'' skb s = Some (NF_ACCEPT, s1) \<and>
    start_probe_syn rcp p s1 = Some (n, s2) \<and> cbn_egress_hook e skb' s2 = Some (NF_DROP, skb', s3) \<and>
    split_server L sv (Sv_accept (skb_mark skb) l k) s3 = Some (Sv_accept (skb_mark skb) l k, s4) \<and>
    calls s4 = calls s @ [run_in_pool (Start_probe_syn p) None,
      sendmsg_headers rs \<lparr>sin_family = AF_INET, sin_port = 0, sin_addr = daddr (ip_hdr skb)\<rparr> (ip_hdr skb) (probe_header (tcp_hdr skb)),
      run_in_pool (Start_new_connection_syn a) (Some (skb_core (nf_cpus e) skb)),
      kernel_accept k, run_in_pool (Start_new_connection q2) None] \<and>
    sin_addr (dest (su_ad u)) = daddr (ip_hdr skb) \<and> sin_port (dest (su_ad u)) = tdest (tcp_hdr skb) \<and>
    (\<exists>p'. (pair_step L et er bs bc)\<^sup>*\<^sup>* (pair_start u s4) p' \<and> pair_finished u s4 p') \<and>
    (\<forall>p'. (pair_step L et er bs bc)\<^sup>*\<^sup>* (pair_start u s4) p' \<and> (\<nexists>p''. pair_step L et er bs bc p' p'') \<longrightarrow> pair_finished u s4 p')"
proof -
  obtain s1 s2 s3 s4 n where s: "cbn_ingress_hook e ''RX'' skb s = Some (NF_ACCEPT, s1)"
    "start_probe_syn rcp p s1 = Some (n, s2)" "cbn_egress_hook e skb' s2 = Some (NF_DROP, skb', s3)"
    "split_server L sv (Sv_accept (skb_mark skb) l k) s3 = Some (Sv_accept (skb_mark skb) l k, s4)"
    "calls s4 = calls s @ [run_in_pool (Start_probe_syn p) None,
      sendmsg_headers rs \<lparr>sin_family = AF_INET, sin_port = 0, sin_addr = daddr (ip_hdr skb)\<rparr> (ip_hdr skb) (probe_header (tcp_hdr skb)),
      run_in_pool (Start_new_connection_syn a) (Some (skb_core (nf_cpus e) skb)),
      kernel_accept k, run_in_pool (Start_new_connection q2) None]" "setup_state u s4"
    using capture_and_accept [OF assms(2-16)] unfolding assms(17) by blast
  have f: "from_server u = bs" "from_client u = bc" by (simp_all add: assms(17) syn_scenario_def)
  note g = pair_start_good [OF assms(1) s(6) assms(18)]
  have "pair_finished u s4 p'" if "(pair_step L et er bs bc)\<^sup>*\<^sup>* (pair_start u s4) p'" "\<nexists>p''. pair_step L et er bs bc p' p''" for p'
    using pairs.stuck_final [OF pairs.runs_good [OF _ g]] that unfolding f by blast
  moreover have "sin_addr (dest (su_ad u)) = daddr (ip_hdr skb)" "sin_port (dest (su_ad u)) = tdest (tcp_hdr skb)"
    by (simp_all add: assms(17) syn_scenario_def syn_record_def Let_def)
  ultimately show ?thesis using s(1-5) pairs.reaches_final [OF g] unfolding f by blast
qed

theorem split_end_to_end_witness:
  "\<exists>s1 s4 p'. cbn_ingress_hook ex_hooks ''RX'' ex_syn ex_host = Some (NF_ACCEPT, s1) \<and>
    (pair_step plain_lib (ex_thread []) (ex_thread []) [1, 2, 3] [4, 5])\<^sup>*\<^sup>* (pair_start ex_scenario s4) p' \<and> pair_finished ex_scenario s4 p'"
proof -
  have "syn_packet ex_syn" "new_probe ex_hooks = Some 4" "new_syn ex_hooks = Some 3" "qp_wf (stack_qp ex_hooks)"
    "\<not> is_out_gue (ex_probe ''eth1'')" "accepts ex_server 30 2" "qps ex_host 1 = None" "qps ex_host 2 = None" "(1::addr) \<noteq> 2"
    "unpaired ex_host 9 (skb_core (nf_cpus ex_hooks) ex_syn) (syn_record ex_hooks ex_syn)"
    "still_up 50 ex_host" "still_up (accepted ex_server) ex_host"
    using ex_probe_routed(2) ex_host_ready(3)
    by (simp_all add: syn_packet_def ex_hooks_def ex_nf_env_def accepts_def ex_server_def ex_host_def ex_tenant_def kstate0_def
        unpaired_def still_up_def)
  moreover have "skb_mark ex_syn = 7" by simp
  ultimately show ?thesis
    using split_end_to_end [OF plain_lib_ok _ _ ex_host_ready(2) _ ex_probe_routed(1) _ _ _ _ _ _ _ _ _ _ ex_scenario_def ex_setup_env,
        of 0 33 4 "''eth1''" 30 "\<lambda>_. 0"] ex_host_ready(1) by (simp only:) blast
qed

end
