(* ===== verification/Tunnel.thy ===== *)
theory Tunnel
  imports End_To_End
begin

unbundle bit_operations_syntax

text \<open>
  A split connection that crosses a tunnel to another hop. On the near hop the SYN's record travels inside
  the tunnelled probe and comes back with the address of the next hop; the thread
  \<open>start_new_pre_connection_syn\<close> takes a prepared connection to that hop, sends the record over it and
  relays. On the far hop \<open>start_new_pending_connection\<close> receives the record, connects to the destination,
  and relays together with a thread of the pool.

  The near side is the machine of \<open>End_To_End\<close> with another thread for the half towards the server, which
  links the prepared QP in one step and sends the record in the next. The main result is about the runs
  in which the accepted half takes no step between the two; the last section shows what happens otherwise.
\<close>

section \<open>The near side\<close>

record hop =
  h_ps :: ps_pc
  h_rx :: rx_pc
  h_st :: cp_state
  h_tx_its :: "io list"
  h_rx_its :: "io list"
  h_out :: "(sock kptr \<times> u8 list) list"





text \<open>The pair of threads that it is an instance of.\<close>

fun tx_of :: "ps_pc \<Rightarrow> tx_pc" where
  "tx_of (Ps_start c a) = Tx_start c a"
| "tx_of (Ps_forward c a q) = Tx_connect c a q"
| "tx_of (Ps_wait rc c q) = Tx_wait c q"
| "tx_of (Ps_relay q so) = Tx_relay q (so\<lparr>sock_dir := 1\<rparr>)"
| "tx_of (Ps_syn rc pc) = pc"
| "tx_of (Ps_done rc) = Tx_done rc"


definition pair_of :: "hop \<Rightarrow> pair" where
  "pair_of h = \<lparr>p_tx = tx_of (h_ps h), p_rx = h_rx h, p_st = base (h_st h), tx_its = h_tx_its h, rx_its = h_rx_its h, delivered = h_out h\<rparr>"

lemma pair_of_sel [simp]: "p_tx (pair_of h) = tx_of (h_ps h)" "p_rx (pair_of h) = h_rx h" "p_st (pair_of h) = base (h_st h)"
  "tx_its (pair_of h) = h_tx_its h" "rx_its (pair_of h) = h_rx_its h" "delivered (pair_of h) = h_out h"
  by (simp_all add: pair_of_def)

lemma pair_of_upd [simp]: "pair_of (h\<lparr>h_ps := pc\<rparr>) = (pair_of h)\<lparr>p_tx := tx_of pc\<rparr>" "pair_of (h\<lparr>h_rx := rp\<rparr>) = (pair_of h)\<lparr>p_rx := rp\<rparr>"
  "pair_of (h\<lparr>h_st := s\<rparr>) = (pair_of h)\<lparr>p_st := base s\<rparr>" "pair_of (h\<lparr>h_tx_its := ti\<rparr>) = (pair_of h)\<lparr>tx_its := ti\<rparr>"
  "pair_of (h\<lparr>h_rx_its := ri\<rparr>) = (pair_of h)\<lparr>rx_its := ri\<rparr>" "pair_of (h\<lparr>h_out := d\<rparr>) = (pair_of h)\<lparr>delivered := d\<rparr>"
  by (simp_all add: pair_of_def)


text \<open>The prepared connection on top of the stack, and the pool when it has been taken.\<close>

definition hop_state :: "s32 \<Rightarrow> cpu set \<Rightarrow> scenario \<Rightarrow> cp_state \<Rightarrow> bool" where
  "hop_state b C u s \<longleftrightarrow> meeting u (base s) \<and> su_calls u = [sendmsg_addresses (su_t u) (su_ad u)] \<and>
     preconn_inv b C (preconn s) \<and> su_core u \<in> C \<and> window b (hop_addr (su_ad u)) \<and>
     (\<exists>rest. pool_at s (hop_addr (su_ad u)) (su_core u) = su_q1 u # rest) \<and>
     (\<exists>x. qps (base s) (su_q1 u) = Some x \<and> qp_wf x \<and> tx x = PTR (su_t u) \<and> rx x = NULL \<and> ref_cnt x = 0)"

definition taken :: "s32 \<Rightarrow> cpu set \<Rightarrow> scenario \<Rightarrow> cp_state \<Rightarrow> cp_state \<Rightarrow> bool" where
  "taken b C u s0 s \<longleftrightarrow> preconn_inv b C (preconn s) \<and> pool_at s = (pool_at s0)(hop_addr (su_ad u) :=
     (pool_at s0 (hop_addr (su_ad u)))(su_core u := tl (pool_at s0 (hop_addr (su_ad u)) (su_core u))))"

definition hop_env :: "scenario \<Rightarrow> cp_env \<Rightarrow> env \<Rightarrow> bool" where
  "hop_env u e er \<longleftrightarrow> rx_env u er \<and> 0 < rc_of (kenv e) (sendmsg_addresses (su_t u) (su_ad u)) \<and>
     wait_rc (kenv e) \<noteq> 0 \<and> pages_ok (hd_env_of (kenv e))"






subsection \<open>The first step of the half towards the next hop\<close>

lemma shared_prepared:
  assumes "tx x = PTR (su_t u)" and "rx x = NULL" and "ref_cnt x = 0"
  shows "x\<lparr>key := conn_of (su_ad u), listner := Some (su_lis u)\<rparr> = shared u (PTR (su_t u)) NULL 0"
  using assms by (cases x) (simp add: shared_def)

lemma hop_takes:
  assumes hs: "hop_state b C u s0" and w: "on_way u (base s0) m (syns (base s0)) home ct cr (base s)"
    and pc: "preconn s = preconn s0" and m: "m (su_q1 u) = qps (base s0) (su_q1 u)"
  defines "refill \<equiv> run_in_pool (Prealloc_connection_pool (ucast (hop_addr (su_ad u)))) None"
  assumes ex: "qp_exists L (su_core u) (su_q1 u) TX_QP ((base s)\<lparr>calls := calls (base s) @ [refill],
      qps := m(su_q1 u \<mapsto> shared u (PTR (su_t u)) NULL 0)\<rparr>) = Some (Some q, b1)"
  shows "\<exists>pc. start_new_pre_connection_syn L e (Ps_start (su_core u) (su_syn u)) s =
      Some (Ps_forward (su_core u) (su_syn u) q, s\<lparr>preconn := pc, base := b1\<rparr>) \<and> taken b C u s0 (s\<lparr>preconn := pc, base := b1\<rparr>)"
proof -
  let ?ad = "su_ad u" let ?k = "hop_addr ?ad" let ?b = "log_call refill (base s)"
  note h = hs [unfolded hop_state_def]
  obtain x rest where x: "m (su_q1 u) = Some x" "qp_wf x" "tx x = PTR (su_t u)" "rx x = NULL" "ref_cnt x = 0"
    and rest: "pool_at s ?k (su_core u) = su_q1 u # rest" using h m pc by auto
  obtain pc where pc': "alloc_prexeisting_conn (su_core u) ?k s = Some (Some (su_q1 u), s\<lparr>preconn := pc, base := ?b\<rparr>)"
    "preconn_inv b C pc" "stacks pc = (pool_at s)(?k := (pool_at s ?k)(su_core u := tl (pool_at s ?k (su_core u))))"
    using alloc_ok [of b C s ?k "su_core u"] h rest pc unfolding refill_def by auto
  have s: "qps (base s) = m" "syns (base s) (su_syn u) = Some ?ad" "same_listners (base s0) (base s)"
    using w h by (simp_all add: on_way_def meeting_def)
  have li: "search_rb_listner (listners (base s)) (listner_root (base s)) (mark ?ad) = Some (Some (su_lis u))"
    using search_same_listners [OF s(3)] h by (simp add: meeting_def)
  define b0 where "b0 = ?b\<lparr>qps := m(su_q1 u \<mapsto> x\<lparr>key := conn_of ?ad\<rparr>)\<rparr>"
  define b2 where "b2 = (base s)\<lparr>calls := calls (base s) @ [refill], qps := m(su_q1 u \<mapsto> shared u (PTR (su_t u)) NULL 0)\<rparr>"
  have "upd_qp (su_q1 u) (set_conn (sin_addr (dest ?ad)) (sin_port (src ?ad)) (sin_port (dest ?ad)) (sin_addr (src ?ad))) ?b = Some b0"
    using x(1,2) s(1) by (simp add: upd_qp_def set_conn_eq conn_of_def b0_def)
  moreover have "upd_qp (su_q1 u) (\<lambda>x. x\<lparr>listner := Some (su_lis u)\<rparr>) b0 = Some b2"
    using shared_prepared [OF x(3-5)] by (cases "base s") (simp add: upd_qp_def log_call_def b0_def b2_def)
  moreover have "search_rb_listner (listners b0) (listner_root b0) (mark ?ad) = Some (Some (su_lis u))"
    using li by (simp add: b0_def)
  ultimately have "start_new_pre_connection_syn L e (Ps_start (su_core u) (su_syn u)) s =
      Some (Ps_forward (su_core u) (su_syn u) q, s\<lparr>preconn := pc, base := b1\<rparr>)"
    using s(2) pc'(1) ex [folded b2_def] by simp
  then show ?thesis using pc'(2,3) pc by (intro exI [of _ pc]) (simp add: taken_def)
qed



subsection \<open>Every step moves the connection on\<close>



declare start_new_pre_connection_syn.simps [simp del]

lemma ps_links:
  assumes L: "rbtree_lib_ok L" and hs: "hop_state b C u s0"
    and w: "on_way u (base s0) (qps (base s0)) (syns (base s0)) None [] [] (base s)" and pc: "preconn s = preconn s0"
  shows "\<exists>pc b1. start_new_pre_connection_syn L e (Ps_start (su_core u) (su_syn u)) s =
      Some (Ps_forward (su_core u) (su_syn u) (su_q1 u), s\<lparr>preconn := pc, base := b1\<rparr>) \<and> taken b C u s0 (s\<lparr>preconn := pc, base := b1\<rparr>) \<and>
    on_way u (base s0) ((qps (base s0))(su_q1 u \<mapsto> shared u (PTR (su_t u)) NULL 0)) (syns (base s0)) (Some (su_q1 u)) [] [] b1"
proof -
  let ?m = "(qps (base s0))(su_q1 u \<mapsto> shared u (PTR (su_t u)) NULL 0)"
  let ?refill = "run_in_pool (Prealloc_connection_pool (ucast (hop_addr (su_ad u)))) None"
  have su: "meeting u (base s0)" using hs by (simp add: hop_state_def)
  have "on_way u (base s0) (qps (base s0)) (syns (base s0)) None ([] @ calls_on (su_t u) [?refill]) ([] @ calls_on (su_r u) [?refill])
      ((base s)\<lparr>calls := calls (base s) @ [?refill]\<rparr>)"
    by (rule on_way_write [OF su w]) (use w in \<open>auto simp: on_way_def\<close>)
  from link_first [OF L su this, of "su_q1 u" TX_QP "PTR (su_t u)" NULL 0] obtain b1 where b1:
    "qp_exists L (su_core u) (su_q1 u) TX_QP ((base s)\<lparr>calls := calls (base s) @ [?refill], qps := ?m\<rparr>) = Some (Some (su_q1 u), b1)"
    "on_way u (base s0) ?m (syns (base s0)) (Some (su_q1 u)) [] [] b1" by auto
  then show ?thesis using hop_takes [OF hs w pc refl b1(1), of e] by blast
qed




















section \<open>The accepted half before the record is sent\<close>

text \<open>
  The prepared QP is linked with its socket in place, so an accepted half that finds it does not wait. It has
  the first reference, relays to the prepared socket, and drops the last reference.
\<close>

lemma wait_qp_enter_early:
  assumes "qps s q = Some x" and "ref_cnt x = 0" and "\<not> IS_ERR_OR_NULL (qp_dir x (d XOR 1))"
  shows "wait_qp_enter L c q d s = Some (False, log_call (wake_up q) (s\<lparr>qps := (qps s)(q \<mapsto> x\<lparr>ref_cnt := 1\<rparr>)\<rparr>))"
  using assms by (simp add: wait_qp_enter_def get_qp_first)

lemma early_rx:
  assumes L: "rbtree_lib_ok L" and su: "meeting u s0" and en: "rx_env u er"
    and w: "on_way u s0 ((qps s0)(su_q1 u \<mapsto> shared u (PTR (su_t u)) NULL 0)) (syns s0) (Some (su_q1 u)) [] [] b1"
  shows "\<exists>b2. start_new_connection L er (Rx_start (su_q2 u)) b1 =
      Some (Rx_relay (su_q1 u) \<lparr>sock_rx = PTR (su_r u), sock_tx = PTR (su_t u), sock_dir = 0\<rparr>, b2) \<and>
    on_way u s0 ((qps s0)(su_q1 u := None, su_q2 u := None, su_q1 u \<mapsto> shared u (PTR (su_t u)) (PTR (su_r u)) 1)) (syns s0)
      (Some (su_q1 u)) [] (rx_calls u) b2"
proof -
  let ?m1 = "(qps s0)(su_q1 u \<mapsto> shared u (PTR (su_t u)) NULL 0)"
  let ?m = "\<lambda>n. (qps s0)(su_q1 u := None, su_q2 u := None, su_q1 u \<mapsto> shared u (PTR (su_t u)) (PTR (su_r u)) n)"
  obtain s1 where s1: "on_way u s0 ?m1 (syns s0) (Some (su_q1 u)) [] (rx_calls u) s1"
    "start_new_connection L er (Rx_start (su_q2 u)) b1 = rx_joins L u (s1\<lparr>qps := ?m1(su_q2 u \<mapsto> shared u NULL (PTR (su_r u)) 0)\<rparr>)"
    using rx_starts [OF su en w, of L] setup_qps [OF su] by auto
  obtain s2 where s2: "qp_exists L (su_core u) (su_q2 u) RX_QP (s1\<lparr>qps := ?m1(su_q2 u \<mapsto> shared u NULL (PTR (su_r u)) 0)\<rparr>) =
      Some (Some (su_q1 u), s2)" "on_way u s0 (?m 0) (syns s0) (Some (su_q1 u)) [] (rx_calls u) s2"
    using rx_finds [OF L su s1(1)] by blast
  define b2 where "b2 = log_call (wake_up (su_q1 u)) (s2\<lparr>qps := ?m 1\<rparr>)"
  have q: "qps s2 = ?m 0" "syns s2 = syns s0" using s2(2) by (simp_all add: on_way_def)
  have "wait_qp_enter L (su_core u) (su_q1 u) RX_QP s2 = Some (False, b2)"
    using wait_qp_enter_early [of s2 "su_q1 u" "shared u (PTR (su_t u)) (PTR (su_r u)) 0" RX_QP] q by (simp add: qp_dir_def b2_def)
  then have "start_new_connection L er (Rx_start (su_q2 u)) b1 =
      Some (Rx_relay (su_q1 u) \<lparr>sock_rx = PTR (su_r u), sock_tx = PTR (su_t u), sock_dir = 0\<rparr>, b2)"
    using s1(2) s2(1) by (simp add: rx_joins_def conn_ready_def b2_def)
  moreover have "on_way u s0 (?m 1) (syns s0) (Some (su_q1 u)) ([] @ calls_on (su_t u) [wake_up (su_q1 u)])
      (rx_calls u @ calls_on (su_r u) [wake_up (su_q1 u)]) b2"
    by (rule on_way_write [OF su s2(2)]) (use q in \<open>auto simp: b2_def\<close>)
  ultimately show ?thesis by auto
qed

section \<open>The far side\<close>

text \<open>
  A hop accepts a prepared connection on its listening socket \<open>k\<close>, and the thread it starts waits for a record.
  The thread connects to the destination of the record and relays towards it; a thread of the pool, which
  gets pointers to its stack, relays back and must be done before it returns.
\<close>

definition far_listens :: "cp_env \<Rightarrow> sock \<Rightarrow> addr \<Rightarrow> bool" where
  "far_listens el k q \<longleftrightarrow> rc_of (kenv el) (kernel_accept k) = 0 \<and> new_qp (kenv el) = Some q \<and> \<not> cp_stop el"

definition far_qp :: "cp_env \<Rightarrow> cbn_qp" where
  "far_qp el = (set_tid 0 ((qp_mem (kenv el))\<lparr>ref_cnt := 0, rx := PTR (new_sock (kenv el))\<rparr>))\<lparr>listner := None\<rparr>"

lemma far_qp_sel [simp]: "rx (far_qp el) = PTR (new_sock (kenv el))" "ref_cnt (far_qp el) = 0" "listner (far_qp el) = None"
  by (simp_all add: far_qp_def set_tid_def)


lemma put_relayed:
  assumes "relays_part e xs" and "qps s q = Some x" and "tx x = PTR t" and "rx x = PTR r"
  defines "k \<equiv> if ref_cnt x = 1 then sock_release else kernel_sock_shutdown"
  shows "\<exists>n. half_duplex (hd_env_of e) q s = Some (n, s\<lparr>calls := calls s @ [sched_setaffinity None, k t, k r] @
        (if ref_cnt x = 1 then [unlock_freed q] else []),
      qps := (qps s)(q := if ref_cnt x = 1 then None else Some (x\<lparr>ref_cnt := ref_cnt x - 1\<rparr>))\<rparr>) \<and>
    relayed e q so s = [(sock_tx so, xs)]"
proof (rule half_duplex_part [OF assms(1)])
  show "put_qp q (log_call (sched_setaffinity None) s) = Some (ref_cnt x - 1, s\<lparr>calls := calls s @ [sched_setaffinity None, k t, k r] @
        (if ref_cnt x = 1 then [unlock_freed q] else []),
      qps := (qps s)(q := if ref_cnt x = 1 then None else Some (x\<lparr>ref_cnt := ref_cnt x - 1\<rparr>))\<rparr>)"
    using assms(2-) by (cases s) (auto simp: put_qp_def upd_qp_def sock_call_def log_call_def Let_def)
qed


lemma calls_on_connect [simp]: "calls_on t (connect_calls i t a) = connect_calls i t a"
  "t \<noteq> r \<Longrightarrow> calls_on r (connect_calls i t a) = []"
  by (auto simp: connect_calls_def)


section \<open>From the SYN to the near side\<close>

text \<open>The record that comes out of the tunnel, and a prepared connection to the hop it names.\<close>

definition hop_record :: "nf_env \<Rightarrow> sk_buff \<Rightarrow> u32 \<Rightarrow> addresses" where
  "hop_record e skb h = (syn_record e skb)\<lparr>hop_addr := h\<rparr>"

lemma hop_record_sel [simp]: "hop_addr (hop_record e skb h) = h" "mark (hop_record e skb h) = skb_mark skb"
  "sin_addr (dest (hop_record e skb h)) = daddr (ip_hdr skb)" "sin_port (dest (hop_record e skb h)) = tdest (tcp_hdr skb)"
  by (simp_all add: hop_record_def syn_record_def Let_def)

definition hop_ready :: "s32 \<Rightarrow> cpu set \<Rightarrow> cp_state \<Rightarrow> cpu \<Rightarrow> u32 \<Rightarrow> addr \<Rightarrow> sock \<Rightarrow> bool" where
  "hop_ready b C s c h q t \<longleftrightarrow> preconn_inv b C (preconn s) \<and> c \<in> C \<and> window b h \<and> (\<exists>rest. pool_at s h c = q # rest) \<and>
     qp_home (base s) q = {} \<and> (\<exists>x. qps (base s) q = Some x \<and> qp_wf x \<and> tx x = PTR t \<and> rx x = NULL \<and> ref_cnt x = 0)"

definition hop_scenario :: "nf_env \<Rightarrow> sv_env \<Rightarrow> sk_buff \<Rightarrow> u32 \<Rightarrow> addr \<Rightarrow> addr \<Rightarrow> addr \<Rightarrow> addr \<Rightarrow> sock \<Rightarrow> u8 list \<Rightarrow> u8 list \<Rightarrow> scenario" where
  "hop_scenario e sv skb h a l q1 q2 t bs bc =
     syn_scenario e sv skb (hop_record e skb h) a l q1 q2 t [sendmsg_addresses t (hop_record e skb h)] bs bc"

text \<open>The whole way of the SYN through the near host.\<close>

definition tunnelled :: "rbtree_lib \<Rightarrow> nf_env \<Rightarrow> sv_env \<Rightarrow> (kcall \<Rightarrow> int) \<Rightarrow> sk_buff \<Rightarrow> sk_buff \<Rightarrow> sk_buff \<Rightarrow> addr \<Rightarrow> addr \<Rightarrow> addr \<Rightarrow> sock \<Rightarrow>
    kstate \<Rightarrow> kstate \<Rightarrow> bool" where
  "tunnelled L e sv rcp skb skb' skb'' p a l k s s5 \<longleftrightarrow> (\<exists>s1 s2 s3 s4 n. cbn_ingress_hook e ''RX'' skb s = Some (NF_ACCEPT, s1) \<and>
     start_probe_syn rcp p s1 = Some (n, s2) \<and>
     cbn_egress_hook e skb' s2 = Some (NF_ACCEPT, skb'\<lparr>payload := [Some a]\<rparr>, s3) \<and>
     cbn_egress_hook e skb'' s3 = Some (NF_DROP, skb'', s4) \<and>
     last (calls s4) = run_in_pool (Start_new_pre_connection_syn a) (Some (skb_core (nf_cpus e) skb)) \<and>
     split_server L sv (Sv_accept (skb_mark skb) l k) s4 = Some (Sv_accept (skb_mark skb) l k, s5))"

lemma tunnel_and_accept:
  fixes s :: cp_state
  assumes skb: "syn_packet skb" and ten: "tenant_ready b0 (base s) (skb_mark skb) l rs" and tr: "trees_ok (base s)"
    and e1: "new_probe e = Some p" and e2: "routed skb skb'" "is_out_gue skb'" "new_syn e = Some a" "qp_wf (stack_qp e)"
    and enc: "encapsulated (skb'\<lparr>payload := [Some a]\<rparr>) skb''"
    and sv: "accepts sv k q2" and q: "qps (base s) q2 = None"
    and rdy: "hop_ready b C s (skb_core (nf_cpus e) skb) (daddr (ip_hdr skb'')) q1 t"
    and un: "unpaired (base s) l (skb_core (nf_cpus e) skb) (hop_record e skb (daddr (ip_hdr skb'')))"
  shows "\<exists>s5. tunnelled L e sv rcp skb skb' skb'' p a l k (base s) s5 \<and> syns s5 = (syns (base s))(a \<mapsto> hop_record e skb (daddr (ip_hdr skb''))) \<and>
    hop_state b C (hop_scenario e sv skb (daddr (ip_hdr skb'')) a l q1 q2 t bs bc) (s\<lparr>base := s5\<rparr>) \<and>
    (\<forall>k. still_up k s5 = still_up k (base s))"
proof -
  let ?h = "daddr (ip_hdr skb'')" let ?ad = "hop_record e skb ?h" let ?c = "skb_core (nf_cpus e) skb"
  let ?pr = "\<lparr>probe_iph = ip_hdr skb, probe_tcph = tcp_hdr skb, probe_listner = l\<rparr>"
  define s1 where "s1 = log_call (run_in_pool (Start_probe_syn p) None) ((base s)\<lparr>probes := (probes (base s))(p \<mapsto> ?pr)\<rparr>)"
  define c where "c = sendmsg_headers rs \<lparr>sin_family = AF_INET, sin_port = 0, sin_addr = daddr (ip_hdr skb)\<rparr> (ip_hdr skb) (probe_header (tcp_hdr skb))"
  define s2 where "s2 = (log_call c s1)\<lparr>probes := (probes s1)(p := None)\<rparr>"
  define s3 where "s3 = s2\<lparr>syns := (syns s2)(a \<mapsto> syn_record e skb)\<rparr>"
  define s4 where "s4 = log_call (run_in_pool (Start_new_pre_connection_syn a) (Some ?c)) (s3\<lparr>syns := (syns s3)(a \<mapsto> ?ad)\<rparr>)"
  define s5 where "s5 = s4\<lparr>qps := (qps s4)(q2 \<mapsto> accepted_qp sv (skb_mark skb) l),
    calls := calls s4 @ [kernel_accept k, run_in_pool (Start_new_connection q2) None]\<rparr>"
  obtain li where li: "listners (base s) l = Some li" "raw li = Some rs" using ten by (auto simp: tenant_ready_def)
  have pk: "skb_mark skb \<noteq> 0" "protocol (ip_hdr skb) = IPPROTO_TCP" using skb by (simp_all add: syn_packet_def)
  have r: "protocol (ip_hdr skb') = protocol (ip_hdr skb)" "source (tcp_hdr skb') = htons CBN_PROBE_PORT" "skb_mark skb' = skb_mark skb"
    using e2(1) by (simp_all add: routed_def same_flow_def)
  have "cbn_ingress_hook e ''RX'' skb (base s) = Some (NF_ACCEPT, s1)" using ingress_syn [OF skb ten e1] by (simp add: s1_def)
  moreover have "start_probe_syn rcp p s1 = Some (rcp c, s2)"
    using start_probe_syn_ok [of s1 p ?pr li rs rcp] li by (simp add: s1_def s2_def c_def)
  moreover have "cbn_egress_hook e skb' s2 = Some (NF_ACCEPT, skb'\<lparr>payload := [Some a]\<rparr>, s3)"
    using egress_probe [OF e2(1) pk e2(4,3), of s2] e2(2) by (simp add: s3_def)
  moreover have "cbn_egress_hook e skb'' s3 = Some (NF_DROP, skb'', s4)"
    using egress_encapsulated [OF enc _ _ e2(4) _ _ _ captured_syn_record, of a s3 e] pk r by (simp add: s3_def s4_def hop_record_def)
  moreover have "split_server L sv (Sv_accept (skb_mark skb) l k) s4 = Some (Sv_accept (skb_mark skb) l k, s5)"
    using accept_step [OF sv] by (simp add: s5_def)
  ultimately have "tunnelled L e sv rcp skb skb' skb'' p a l k (base s) s5" unfolding tunnelled_def by (fastforce simp: s4_def)
  moreover have "syns s5 = (syns (base s))(a \<mapsto> ?ad)" by (simp add: s5_def s4_def s3_def s2_def s1_def)
  moreover have "\<forall>k. still_up k s5 = still_up k (base s)" by (simp add: still_up_def s5_def s4_def s3_def s2_def s1_def c_def)
  moreover have "hop_state b C (hop_scenario e sv skb ?h a l q1 q2 t bs bc) (s\<lparr>base := s5\<rparr>)"
  proof -
    have s5: "qps s5 = (qps (base s))(q2 \<mapsto> accepted_qp sv (skb_mark skb) l)" "syns s5 a = Some ?ad" "mark ?ad = skb_mark skb"
      "listners s5 = listners (base s)" "listner_root s5 = listner_root (base s)"
      by (simp_all add: s5_def s4_def s3_def s2_def s1_def)
    have q12: "q1 \<noteq> q2" using rdy q by (auto simp: hop_ready_def)
    have h: "qp_home (base s) q1 = {}" using rdy by (simp add: hop_ready_def)
    note m = syn_meeting [OF ten tr sv h q q12 un s5]
    show ?thesis
      unfolding hop_state_def using m rdy q12
      by (auto simp: hop_scenario_def hop_ready_def s5(1)) (simp_all add: syn_scenario_def)
  qed
  ultimately show ?thesis by blast
qed

section \<open>Properties\<close>


text \<open>C19. A prepared QP is linked in the tree with its socket in place before the record is sent over that
  socket, so if sending sleeps, or the accepted half runs first for another reason, that half does not
  wait for it: it relays the client's data to the next hop ahead of the record that this hop expects
  first, drops the only reference, and releases the sockets and frees the QP, which stays linked in the
  tree; when the other half goes on, it dereferences the freed QP.\<close>

theorem forward_race:
  assumes "rbtree_lib_ok L" and "hop_state b C u s" and "rx_env u er" and "relays_all er (from_client u)"
  shows "\<exists>s1 b2 b3. let so = \<lparr>sock_rx = PTR (su_r u), sock_tx = PTR (su_t u), sock_dir = 0\<rparr>; relay = Rx_relay (su_q1 u) so in
    start_new_pre_connection_syn L e (Ps_start (su_core u) (su_syn u)) s = Some (Ps_forward (su_core u) (su_syn u) (su_q1 u), s1) \<and>
    start_new_connection L er (Rx_start (su_q2 u)) (base s1) = Some (relay, b2) \<and>
    start_new_connection L er relay b2 = Some (Rx_done 0, b3) \<and> relayed er (su_q1 u) so b2 = [(PTR (su_t u), from_client u)] \<and>
    (\<exists>cs. calls b3 = calls (base s) @ cs \<and> calls_on (su_t u) cs = [sock_release (su_t u)]) \<and>
    qps b3 (su_q1 u) = None \<and> (su_lis u, su_core u) \<in> qp_home b3 (su_q1 u) \<and>
    start_new_pre_connection_syn L e' (Ps_forward (su_core u) (su_syn u) (su_q1 u)) (s1\<lparr>base := b3\<rparr>) = None"
proof -
  have su: "meeting u (base s)" using assms(2) by (simp add: hop_state_def)
  have w: "on_way u (base s) (qps (base s)) (syns (base s)) None [] [] (base s)" using su by (simp add: meeting_def on_way_def)
  have en: "su_t u \<noteq> su_r u" using assms(3) by (simp add: rx_env_def)
  obtain pc b1 where s1: "start_new_pre_connection_syn L e (Ps_start (su_core u) (su_syn u)) s =
      Some (Ps_forward (su_core u) (su_syn u) (su_q1 u), s\<lparr>preconn := pc, base := b1\<rparr>)"
    "on_way u (base s) ((qps (base s))(su_q1 u \<mapsto> shared u (PTR (su_t u)) NULL 0)) (syns (base s)) (Some (su_q1 u)) [] [] b1"
    using ps_links [OF assms(1,2) w refl, of e] by blast
  let ?so = "\<lparr>sock_rx = PTR (su_r u), sock_tx = PTR (su_t u), sock_dir = 0\<rparr>"
  obtain b2 where b2: "start_new_connection L er (Rx_start (su_q2 u)) b1 = Some (Rx_relay (su_q1 u) ?so, b2)"
    "on_way u (base s) ((qps (base s))(su_q1 u := None, su_q2 u := None, su_q1 u \<mapsto> shared u (PTR (su_t u)) (PTR (su_r u)) 1))
      (syns (base s)) (Some (su_q1 u)) [] (rx_calls u) b2"
    using early_rx [OF assms(1) su assms(3) s1(2)] by blast
  let ?cs = "[sched_setaffinity None, sock_release (su_t u), sock_release (su_r u), unlock_freed (su_q1 u)]"
  define b3 where "b3 = b2\<lparr>calls := calls b2 @ ?cs, qps := (qps b2)(su_q1 u := None)\<rparr>"
  have q: "qps b2 (su_q1 u) = Some (shared u (PTR (su_t u)) (PTR (su_r u)) 1)" using b2(2) by (simp add: on_way_def)
  then obtain n where r: "half_duplex (hd_env_of er) (su_q1 u) b2 = Some (n, b3)"
    "relayed er (su_q1 u) ?so b2 = [(PTR (su_t u), from_client u)]"
    using put_relayed [OF relays_all_part [OF assms(4)], of b2 "su_q1 u" "shared u (PTR (su_t u)) (PTR (su_r u)) 1" "su_t u" "su_r u" ?so] by (auto simp: b3_def)
  obtain cs where cs: "calls b2 = calls (base s) @ cs" "calls_on (su_t u) cs = []" using b2(2) by (auto simp: on_way_def)
  have "calls b3 = calls (base s) @ cs @ ?cs" "calls_on (su_t u) (cs @ ?cs) = [sock_release (su_t u)]"
    using cs en by (simp_all add: b3_def)
  moreover have "qp_home b3 = qp_home b2" by (rule qp_home_cong) (simp add: b3_def)
  moreover have "qp_home b2 (su_q1 u) = {(su_lis u, su_core u)}" using b2(2) by (simp add: on_way_def)
  moreover have "qps b3 (su_q1 u) = None" by (simp add: b3_def)
  ultimately show ?thesis
    using s1(1) b2(1) r
    by (intro exI [of _ "s\<lparr>preconn := pc, base := b1\<rparr>"] exI [of _ b2] exI [of _ b3])
      (auto simp: start_new_connection.simps(3) start_new_pre_connection_syn.simps(2) Let_def)
qed

text \<open>The example of \<open>End_To_End\<close> with a GUE device, the next hop 3 and the prepared connection 1 to it.\<close>

definition ex_near :: cp_state where
  "ex_near = ex_cp\<lparr>base := ex_host\<lparr>qps := [1 \<mapsto> ex_prep]\<rparr>\<rparr>"

definition ex_hop :: "env \<Rightarrow> cp_env" where
  "ex_hop k = (ex_cpenv (\<lambda>_. 0))\<lparr>kenv := k, recv_addr := hop_record ex_hooks ex_syn 3\<rparr>"

definition ex_far :: env where
  "ex_far = (ex_thread [4, 5])\<lparr>rc_of := \<lambda>k. if k = recvmsg_addresses 50 then 1 else 0, new_sock := 51\<rparr>"

definition ex_hop_scenario :: scenario where
  "ex_hop_scenario = hop_scenario ex_hooks ex_server ex_syn 3 3 9 1 2 40 [1, 2, 3] [4, 5]"

lemma ex_near_ready: "hop_ready 0 {0} ex_near (skb_core (nf_cpus ex_hooks) ex_syn) 3 1 40"
  "tenant_ready 0 (base ex_near) 7 9 33" "trees_ok (base ex_near)" "qps (base ex_near) 2 = None"
  "unpaired (base ex_near) 9 (skb_core (nf_cpus ex_hooks) ex_syn) (hop_record ex_hooks ex_syn 3)"
proof -
  have h: "qp_home (base ex_near) q = {}" for q using ex_host_ready(3) by (simp add: ex_near_def)
  then show "unpaired (base ex_near) 9 (skb_core (nf_cpus ex_hooks) ex_syn) (hop_record ex_hooks ex_syn 3)" by (simp add: unpaired_def)
  show "trees_ok (base ex_near)" by (rule trees_ok_cong [OF ex_host_ready(2)]) (simp_all add: ex_near_def ex_host_ready(3))
  show "qps (base ex_near) 2 = None" by (simp add: ex_near_def)
  show "tenant_ready 0 (base ex_near) 7 9 33" using ex_host_ready(1) by (simp add: ex_near_def tenant_ready_def)
  have "skb_core (nf_cpus ex_hooks) ex_syn = 0" by (simp add: skb_core_def ex_hooks_def skb_key_def xor_key_div_mod)
  moreover have "preconn ex_near = preconn ex_cp" by (simp add: ex_near_def)
  ultimately show "hop_ready 0 {0} ex_near (skb_core (nf_cpus ex_hooks) ex_syn) 3 1 40"
    using ex_cp_pool h by (simp add: hop_ready_def) (simp add: ex_near_def ex_prep_def)
qed

lemma ex_hop_env: "hop_env ex_hop_scenario (ex_hop ((ex_thread bs)\<lparr>rc_of := \<lambda>_. 1\<rparr>)) (ex_thread bc)"
  using ex_setup_env [of bs bc] ex_pages [of bs]
  by (simp add: hop_env_def setup_env_def rx_env_def ex_scenario_def ex_hop_scenario_def hop_scenario_def
      syn_scenario_def ex_hop_def hop_record_def conn_of_def ex_server_def) (simp add: ex_thread_def)

lemma ex_far_env: "far_listens (ex_cpenv (\<lambda>_. 0)) 30 2" "far_connects (ex_hop ex_far) 50" "relays_part (kenv (ex_hop ex_far)) [4, 5]"
  "relays_all (kenv (ex_hop (ex_thread [1, 2, 3]))) [1, 2, 3]" "recv_addr (ex_hop ex_far) = su_ad ex_hop_scenario"
  "new_sock (kenv (ex_cpenv (\<lambda>_. 0))) = 50" "new_sock (kenv (ex_hop ex_far)) = 51"
  using relays_all_part [OF ex_relays [of "[4, 5]"]] ex_relays [of "[1, 2, 3]"]
  by (simp_all add: far_listens_def far_connects_def ex_hop_def ex_far_def ex_cpenv_def ex_kenv_def relays_part_def
      ex_hop_scenario_def hop_scenario_def syn_scenario_def)

lemma ex_tunnel: "syn_packet ex_syn" "new_probe ex_hooks = Some 4" "new_syn ex_hooks = Some 3" "qp_wf (stack_qp ex_hooks)"
  "is_out_gue (ex_probe ''gue1'')" "accepts ex_server 30 2" "daddr (ip_hdr ex_wrapped) = 3" "skb_mark ex_syn = 7"
  "distinct [30, new_sock (kenv (ex_cpenv (\<lambda>_. 0))), new_sock (kenv (ex_hop ex_far))]" "[4, 5 :: u8] = [4, 5] @ []"
  "still_up 40 (base ex_near)" "still_up (accepted ex_server) (base ex_near)"
  using ex_probe_routed(2) ex_far_env(6,7)
  by (simp_all add: syn_packet_def ex_hooks_def ex_nf_env_def accepts_def ex_server_def ex_wrapped_def
      still_up_def ex_near_def ex_host_def ex_tenant_def kstate0_def)

lemma ex_hop_reached: "\<exists>s5. hop_state 0 {0} ex_hop_scenario (ex_near\<lparr>base := s5\<rparr>)"
proof -
  have "tenant_ready 0 (base ex_near) (skb_mark ex_syn) 9 33" using ex_near_ready(2) ex_tunnel(8) by simp
  from tunnel_and_accept [OF ex_tunnel(1) this ex_near_ready(3) ex_tunnel(2) ex_probe_routed(1) ex_tunnel(5,3,4) ex_encapsulated ex_tunnel(6) ex_near_ready(4),
      unfolded ex_tunnel(7), OF ex_near_ready(1,5)]
  show ?thesis unfolding ex_hop_scenario_def by blast
qed


theorem forward_race_witness:
  "\<exists>s0 s1 b3. start_new_pre_connection_syn plain_lib (ex_hop ex_far) (Ps_start 0 3) s0 = Some (Ps_forward 0 3 1, s1) \<and> qps b3 1 = None \<and>
     start_new_pre_connection_syn plain_lib (ex_hop ex_far) (Ps_forward 0 3 1) (s1\<lparr>base := b3\<rparr>) = None"
proof -
  have u: "su_core ex_hop_scenario = 0" "su_syn ex_hop_scenario = 3" "su_q1 ex_hop_scenario = 1"
    by (simp_all add: ex_hop_scenario_def hop_scenario_def syn_scenario_def skb_core_def ex_hooks_def skb_key_def xor_key_div_mod)
  obtain s5 where s5: "hop_state 0 {0} ex_hop_scenario (ex_near\<lparr>base := s5\<rparr>)" using ex_hop_reached by blast
  have "rx_env ex_hop_scenario (ex_thread [4, 5])" "relays_all (ex_thread [4, 5]) (from_client ex_hop_scenario)"
    using ex_hop_env [of "[]" "[4, 5]"] ex_relays [of "[4, 5]"] by (simp_all add: hop_env_def) (simp add: ex_hop_scenario_def hop_scenario_def syn_scenario_def)
  from forward_race [OF plain_lib_ok s5 this] show ?thesis unfolding u Let_def by blast
qed

end
