(* ===== verification/Magazine.thy ===== *)
theory Magazine
  imports Ktcp_Prelude
begin

unbundle bit_operations_syntax

text \<open>
  The per-core magazine allocator of \<^verbatim>\<open>tcpsplit/magazine.c\<close>. Each core owns two pairs of magazines
  (one for softirq context), each magazine is a stack of four pointers, and full and empty magazines
  are exchanged with two lists under a lock.

  A pair is only touched by its own core with interrupts off, and the lists only under the lock, so
  operations on different cores commute; every operation is one atomic function here. Magazines live
  in a memory indexed by their 64-bit address, since the code swaps them by XOR on the addresses. The
  result of each \<open>kzalloc\<close> is an argument, \<open>0\<close> for a failed allocation.

  The abstract view is the multiset of pointers in the allocator (\<open>contents\<close>): freeing adds one,
  allocating takes one out, and the locale \<open>bag_allocator\<close> is what the thread pool relies on.
\<close>

section \<open>Definitions\<close>

abbreviation (input) MAG_DEPTH :: nat where "MAG_DEPTH \<equiv> 4"
abbreviation (input) MAG_COUNT :: nat where "MAG_COUNT \<equiv> 2"

text \<open>\<open>sizeof(struct magazine)\<close>: a list head and \<open>MAG_DEPTH\<close> pointers.\<close>
abbreviation (input) sizeof_magazine :: u64 where "sizeof_magazine \<equiv> 48"

record magazine =
  stack :: "u64 list"

text \<open>\<open>mag_ptr\<close> is the integer view of the union with \<open>mags\<close>.\<close>
record mag_pair =
  mag_ptr :: "u64 list"
  count :: "u32 list"

record percpu_mag_pair =
  pair :: "mag_pair list"

record mag_allocator =
  empty_list :: "u64 list"
  full_list :: "u64 list"
  empty_count :: u16
  full_count :: u16
  pcp_pair :: "percpu_mag_pair list"

type_synonym mag_mem = "u64 \<rightharpoonup> magazine"

record mag_state =
  mem :: mag_mem
  allocator :: mag_allocator

definition ALIGN :: "u64 \<Rightarrow> u64 \<Rightarrow> u64" where
  "ALIGN x a = (x + (a - 1)) AND NOT (a - 1)"

definition zero_magazine :: magazine where
  "zero_magazine = \<lparr>stack = replicate MAG_DEPTH 0\<rparr>"

definition mag_pair_count :: "mag_pair \<Rightarrow> u32" where
  "mag_pair_count p = count p ! 0 + count p ! 1"

definition get_cpu_mag_pair :: "mag_allocator \<Rightarrow> cpu \<Rightarrow> bool \<Rightarrow> mag_pair option" where
  "get_cpu_mag_pair a c in_softirq = do {
     let idx = (if in_softirq then 1 else 0);
     pcp \<leftarrow> arr_get (pcp_pair a) c;
     arr_get (pair pcp) idx }"

text \<open>Storing the pair back: the code works on it in place, through the pointer.\<close>

definition put_cpu_mag_pair :: "mag_allocator \<Rightarrow> cpu \<Rightarrow> bool \<Rightarrow> mag_pair \<Rightarrow> mag_allocator option" where
  "put_cpu_mag_pair a c in_softirq p = do {
     let idx = (if in_softirq then 1 else 0);
     pcp \<leftarrow> arr_get (pcp_pair a) c;
     ps \<leftarrow> arr_set (pair pcp) idx p;
     pcps \<leftarrow> arr_set (pcp_pair a) c (pcp\<lparr>pair := ps\<rparr>);
     Some (a\<lparr>pcp_pair := pcps\<rparr>) }"

definition xor_swap :: "'a::len word list \<Rightarrow> 'a word list" where
  "xor_swap xs =
     (let xs = xs[0 := xs ! 0 XOR xs ! 1];
          xs = xs[1 := xs ! 1 XOR xs ! 0];
          xs = xs[0 := xs ! 0 XOR xs ! 1]
      in xs)"

definition swap_mags :: "mag_pair \<Rightarrow> mag_pair" where
  "swap_mags p = p\<lparr>mag_ptr := xor_swap (mag_ptr p), count := xor_swap (count p)\<rparr>"

definition mag_pair_alloc :: "mag_mem \<Rightarrow> mag_pair \<Rightarrow> (u64 \<times> mag_pair) option" where
  "mag_pair_alloc m p =
     (if count p ! 0 = 0 then Some (0, p)
      else do {
        let p = p\<lparr>count := (count p)[0 := count p ! 0 - 1]\<rparr>;
        g \<leftarrow> m (mag_ptr p ! 0);
        elem \<leftarrow> arr_get (stack g) (unat (count p ! 0));
        Some (elem, if count p ! 0 = 0 then swap_mags p else p) })"

definition mag_pair_free :: "mag_mem \<Rightarrow> mag_pair \<Rightarrow> u64 \<Rightarrow> (mag_mem \<times> mag_pair) option" where
  "mag_pair_free m p elem =
     (if \<not> (count p ! 0 < of_nat MAG_DEPTH \<or> count p ! 1 < of_nat MAG_DEPTH) then None
      else do {
        let idx = (if count p ! 0 = of_nat MAG_DEPTH then 1 else 0);
        g \<leftarrow> m (mag_ptr p ! idx);
        st \<leftarrow> arr_set (stack g) (unat (count p ! idx)) elem;
        Some (m(mag_ptr p ! idx \<mapsto> g\<lparr>stack := st\<rparr>),
              p\<lparr>count := (count p)[idx := count p ! idx + 1]\<rparr>) })"

definition mag_allocator_switch_full :: "u64 \<Rightarrow> mag_allocator \<Rightarrow> mag_mem \<Rightarrow> mag_pair \<Rightarrow>
    (mag_allocator \<times> mag_mem \<times> mag_pair) option" where
  "mag_allocator_switch_full kz a m p = do {
     let idx = (if count p ! 1 = of_nat MAG_DEPTH then 1 else 0);
     if count p ! idx \<noteq> of_nat MAG_DEPTH then None else do {
     _ \<leftarrow> m (mag_ptr p ! idx);
     let a = a\<lparr>full_list := mag_ptr p ! idx # full_list a, full_count := full_count a + 1\<rparr>;
     (a, m, p) \<leftarrow>
       (if empty_count a \<noteq> 0 then
          (case empty_list a of
             [] \<Rightarrow> None
           | e # es \<Rightarrow> Some (a\<lparr>empty_list := es, empty_count := empty_count a - 1\<rparr>, m,
                             p\<lparr>mag_ptr := (mag_ptr p)[idx := e]\<rparr>))
        else
          let ptr = kz
          in Some (a, if ptr = 0 then m else m(ALIGN ptr L1_CACHE_BYTES \<mapsto> zero_magazine),
                   p\<lparr>mag_ptr := (mag_ptr p)[idx := ALIGN ptr L1_CACHE_BYTES]\<rparr>));
     Some (a, m, p\<lparr>count := (count p)[idx := 0]\<rparr>) } }"

definition mag_allocator_switch_empty :: "mag_allocator \<Rightarrow> mag_mem \<Rightarrow> mag_pair \<Rightarrow>
    (mag_allocator \<times> mag_pair) option" where
  "mag_allocator_switch_empty a m p = do {
     let idx = (if count p ! 0 \<noteq> 0 then 1 else 0);
     if full_count a \<noteq> 0 then do {
       _ \<leftarrow> m (mag_ptr p ! idx);
       let a = a\<lparr>empty_list := mag_ptr p ! idx # empty_list a, empty_count := empty_count a + 1\<rparr>;
       (case full_list a of
          [] \<Rightarrow> None
        | f # fs \<Rightarrow> Some (a\<lparr>full_list := fs, full_count := full_count a - 1\<rparr>,
             p\<lparr>mag_ptr := (mag_ptr p)[idx := f], count := (count p)[idx := of_nat MAG_DEPTH]\<rparr>)) }
     else Some (a, p) }"

definition mag_alloc_elem :: "cpu \<Rightarrow> bool \<Rightarrow> mag_state \<Rightarrow> (u64 \<times> mag_state) option" where
  "mag_alloc_elem c in_softirq s = do {
     p \<leftarrow> get_cpu_mag_pair (allocator s) c in_softirq;
     (a, p) \<leftarrow> (if mag_pair_count p = 0
                then mag_allocator_switch_empty (allocator s) (mem s) p
                else Some (allocator s, p));
     (elem, p) \<leftarrow> mag_pair_alloc (mem s) p;
     a \<leftarrow> put_cpu_mag_pair a c in_softirq p;
     Some (elem, s\<lparr>allocator := a\<rparr>) }"

definition mag_free_elem :: "u64 \<Rightarrow> cpu \<Rightarrow> bool \<Rightarrow> u64 \<Rightarrow> mag_state \<Rightarrow> mag_state option" where
  "mag_free_elem kz c in_softirq elem s = do {
     p \<leftarrow> get_cpu_mag_pair (allocator s) c in_softirq;
     (m, p) \<leftarrow> mag_pair_free (mem s) p elem;
     (a, m, p) \<leftarrow> (if mag_pair_count p = push_bit 1 (of_nat MAG_DEPTH)
                   then mag_allocator_switch_full kz (allocator s) m p
                   else Some (allocator s, m, p));
     a \<leftarrow> put_cpu_mag_pair a c in_softirq p;
     Some (s\<lparr>mem := m, allocator := a\<rparr>) }"

text \<open>
  Initialisation. \<open>alloc_percpu\<close> and the static storage of the allocator provide zeroed memory, so
  the counts of a new pair are zero. Both magazines of a pair come from one allocation.
\<close>

definition init_mag_pair :: "u64 \<Rightarrow> mag_mem \<Rightarrow> (mag_pair \<times> mag_mem) option" where
  "init_mag_pair kz m =
     (if kz = 0 then None
      else let mag = ALIGN kz L1_CACHE_BYTES
           in Some (\<lparr>mag_ptr = [mag, mag + sizeof_magazine], count = [0, 0]\<rparr>,
                    m(mag \<mapsto> zero_magazine, mag + sizeof_magazine \<mapsto> zero_magazine)))"

fun init_cpus :: "(cpu \<Rightarrow> bool \<Rightarrow> u64) \<Rightarrow> cpu list \<Rightarrow> mag_mem \<Rightarrow> (percpu_mag_pair list \<times> mag_mem) option" where
  "init_cpus kz [] m = Some ([], m)"
| "init_cpus kz (c # cs) m = do {
     (p0, m) \<leftarrow> init_mag_pair (kz c False) m;
     (p1, m) \<leftarrow> init_mag_pair (kz c True) m;
     (pcps, m) \<leftarrow> init_cpus kz cs m;
     Some (\<lparr>pair = [p0, p1]\<rparr> # pcps, m) }"

definition mag_allocator_init :: "(cpu \<Rightarrow> bool \<Rightarrow> u64) \<Rightarrow> nat \<Rightarrow> mag_state \<Rightarrow> mag_state option" where
  "mag_allocator_init kz nr_cpus s = do {
     (pcps, m) \<leftarrow> init_cpus kz [0..<nr_cpus] (mem s);
     Some (s\<lparr>mem := m,
             allocator := (allocator s)\<lparr>pcp_pair := pcps, empty_list := [], full_list := []\<rparr>\<rparr>) }"

section \<open>Abstraction and invariant\<close>

definition stack_of :: "mag_mem \<Rightarrow> u64 \<Rightarrow> u64 list" where
  "stack_of m p = (case m p of Some g \<Rightarrow> stack g | None \<Rightarrow> [])"

definition pair_list :: "mag_mem \<Rightarrow> mag_pair \<Rightarrow> u64 list" where
  "pair_list m p = take (unat (count p ! 0)) (stack_of m (mag_ptr p ! 0)) @
                   take (unat (count p ! 1)) (stack_of m (mag_ptr p ! 1))"

definition all_pairs :: "mag_allocator \<Rightarrow> mag_pair list" where
  "all_pairs a = concat (map pair (pcp_pair a))"

definition all_mags :: "mag_pair list \<Rightarrow> mag_allocator \<Rightarrow> u64 list" where
  "all_mags ps a = concat (map mag_ptr ps) @ empty_list a @ full_list a"

definition bag :: "mag_mem \<Rightarrow> mag_pair list \<Rightarrow> u64 list \<Rightarrow> u64 multiset" where
  "bag m ps fs = mset (concat (map (pair_list m) ps)) + mset (concat (map (stack_of m) fs))"

definition contents :: "mag_state \<Rightarrow> u64 multiset" where
  "contents s = bag (mem s) (all_pairs (allocator s)) (full_list (allocator s))"

definition pair_ok :: "mag_pair \<Rightarrow> bool" where
  "pair_ok p \<longleftrightarrow> length (mag_ptr p) = MAG_COUNT \<and> length (count p) = MAG_COUNT \<and>
     unat (count p ! 0) \<le> MAG_DEPTH \<and> unat (count p ! 1) \<le> MAG_DEPTH \<and>
     (count p ! 0 = 0 \<longrightarrow> count p ! 1 = 0)"

definition pair_full :: "mag_pair \<Rightarrow> bool" where
  "pair_full p \<longleftrightarrow> unat (count p ! 0) = MAG_DEPTH \<and> unat (count p ! 1) = MAG_DEPTH"

definition mags_ok :: "mag_mem \<Rightarrow> mag_pair list \<Rightarrow> mag_allocator \<Rightarrow> bool" where
  "mags_ok m ps a \<longleftrightarrow>
     (\<forall>p \<in> set ps. pair_ok p) \<and> distinct (all_mags ps a) \<and>
     (\<forall>x \<in> set (all_mags ps a). \<exists>g. m x = Some g \<and> length (stack g) = MAG_DEPTH) \<and>
     of_nat (length (full_list a)) = full_count a \<and> of_nat (length (empty_list a)) = empty_count a"

definition mag_inv :: "mag_state \<Rightarrow> bool" where
  "mag_inv s \<longleftrightarrow>
     (\<forall>pcp \<in> set (pcp_pair (allocator s)). length (pair pcp) = 2) \<and>
     (\<forall>p \<in> set (all_pairs (allocator s)). \<not> pair_full p) \<and>
     mags_ok (mem s) (all_pairs (allocator s)) (allocator s)"

text \<open>The pointer a call of \<open>kzalloc\<close> may return: memory that holds no magazine yet.\<close>

definition kz_fresh :: "u64 \<Rightarrow> mag_state \<Rightarrow> bool" where
  "kz_fresh kz s \<longleftrightarrow> kz \<noteq> 0 \<and> mem s (ALIGN kz L1_CACHE_BYTES) = None"

section \<open>Lemmas on one pair\<close>

lemma xor_swap_two [simp]: "xor_swap [a, b] = [b, a]"
proof -
  have "b XOR (a XOR b) = a" "(a XOR b) XOR a = b"
    by (rule bit_word_eqI; auto simp: bit_simps)+
  then show ?thesis by (simp add: xor_swap_def Let_def)
qed

lemma pair_okE:
  assumes "pair_ok p"
  obtains m0 m1 c0 c1 where "p = \<lparr>mag_ptr = [m0, m1], count = [c0, c1]\<rparr>"
    "unat c0 \<le> MAG_DEPTH" "unat c1 \<le> MAG_DEPTH" "c0 = 0 \<longrightarrow> c1 = 0"
proof -
  from assms obtain m0 m1 c0 c1 where "mag_ptr p = [m0, m1]" "count p = [c0, c1]"
    by (auto simp: pair_ok_def elim!: length_2E)
  with assms show thesis by (intro that [of m0 m1 c0 c1]) (auto simp: pair_ok_def)
qed

lemma stack_of_Some [simp]: "m x = Some g \<Longrightarrow> stack_of m x = stack g"
  by (simp add: stack_of_def)

lemma stack_of_upd_other [simp]: "x \<noteq> y \<Longrightarrow> stack_of (m(y \<mapsto> g)) x = stack_of m x"
  by (simp add: stack_of_def)

definition mag_live :: "mag_mem \<Rightarrow> u64 \<Rightarrow> bool" where
  "mag_live m x \<longleftrightarrow> (\<exists>g. m x = Some g \<and> length (stack g) = MAG_DEPTH)"

lemma mag_live_upd [simp]: "mag_live (m(x \<mapsto> g)) y \<longleftrightarrow> (if x = y then length (stack g) = MAG_DEPTH else mag_live m y)"
  by (auto simp: mag_live_def)

lemma mag_pair_free_ok:
  assumes p: "pair_ok p" "\<not> pair_full p" and live: "\<forall>x \<in> set (mag_ptr p). mag_live m x"
    and dist: "distinct (mag_ptr p)"
  shows "\<exists>x g p'. mag_pair_free m p e = Some (m(x \<mapsto> g), p') \<and> x \<in> set (mag_ptr p) \<and>
    length (stack g) = MAG_DEPTH \<and> pair_ok p' \<and> mag_ptr p' = mag_ptr p \<and>
    mset (pair_list (m(x \<mapsto> g)) p') = add_mset e (mset (pair_list m p))"
proof -
  obtain m0 m1 c0 c1 where q: "p = \<lparr>mag_ptr = [m0, m1], count = [c0, c1]\<rparr>"
    "unat c0 \<le> MAG_DEPTH" "unat c1 \<le> MAG_DEPTH" "c0 = 0 \<longrightarrow> c1 = 0"
    using p(1) by (rule pair_okE)
  with live dist obtain g0 g1 where g: "m m0 = Some g0" "length (stack g0) = MAG_DEPTH"
    "m m1 = Some g1" "length (stack g1) = MAG_DEPTH" and ne: "m0 \<noteq> m1"
    by (auto simp: mag_live_def)
  show ?thesis
  proof (cases "unat c0 = MAG_DEPTH")
    case True
    with p q have c1: "unat c1 < MAG_DEPTH" by (auto simp: pair_full_def)
    with True q g ne show ?thesis
      by (intro exI [of _ m1] exI [of _ "g1\<lparr>stack := (stack g1)[unat c1 := e]\<rparr>"])
         (auto simp: mag_pair_free_def count_simps pair_ok_def pair_list_def take_Suc_update)
  next
    case False
    with q have c0: "unat c0 < MAG_DEPTH" by simp
    then have "unat (c0 + 1) = Suc (unat c0)" "c0 + 1 \<noteq> 0"
      using unat32_inc by fastforce+
    with c0 q g ne show ?thesis
      by (intro exI [of _ m0] exI [of _ "g0\<lparr>stack := (stack g0)[unat c0 := e]\<rparr>"])
         (auto simp: mag_pair_free_def count_simps pair_ok_def pair_list_def take_Suc_update)
  qed
qed

lemma mag_pair_alloc_ok:
  assumes p: "pair_ok p" "\<not> pair_full p" and live: "\<forall>x \<in> set (mag_ptr p). mag_live m x"
    and ne: "mag_pair_count p \<noteq> 0"
  shows "\<exists>e p'. mag_pair_alloc m p = Some (e, p') \<and> pair_ok p' \<and> \<not> pair_full p' \<and>
    mset (mag_ptr p') = mset (mag_ptr p) \<and>
    mset (pair_list m p) = add_mset e (mset (pair_list m p'))"
proof -
  obtain m0 m1 c0 c1 where q: "p = \<lparr>mag_ptr = [m0, m1], count = [c0, c1]\<rparr>"
    "unat c0 \<le> MAG_DEPTH" "unat c1 \<le> MAG_DEPTH" "c0 = 0 \<longrightarrow> c1 = 0"
    using p(1) by (rule pair_okE)
  with ne have c0: "c0 \<noteq> 0" by (auto simp: mag_pair_count_def)
  then have dec: "unat (c0 - 1) = unat c0 - 1" "0 < unat c0"
    by (simp_all add: unat32_dec unat_gt_0)
  from q live obtain g0 where g: "m m0 = Some g0" "length (stack g0) = MAG_DEPTH"
    by (auto simp: mag_live_def)
  have take: "take (unat c0) (stack g0) = take (unat c0 - 1) (stack g0) @ [stack g0 ! (unat c0 - 1)]"
    using g q dec take_Suc_conv_app_nth [of "unat c0 - 1" "stack g0"] by simp
  show ?thesis
  proof (cases "c0 = 1")
    case True
    with q g take show ?thesis
      by (auto simp: mag_pair_alloc_def swap_mags_def pair_ok_def pair_full_def pair_list_def)
  next
    case False
    then have "c0 - 1 \<noteq> 0" by simp
    with False q c0 dec g take show ?thesis
      by (auto simp: mag_pair_alloc_def Let_def pair_ok_def pair_full_def pair_list_def)
  qed
qed

section \<open>Lemmas on the whole allocator\<close>

lemma mags_ok_live: "mags_ok m ps a \<longleftrightarrow>
    (\<forall>p \<in> set ps. pair_ok p) \<and> distinct (all_mags ps a) \<and> (\<forall>x \<in> set (all_mags ps a). mag_live m x) \<and>
    of_nat (length (full_list a)) = full_count a \<and> of_nat (length (empty_list a)) = empty_count a"
  by (simp add: mags_ok_def mag_live_def)

lemma mset_all_mags: "mset (all_mags (ps @ p # qs) a) =
    mset (mag_ptr p) + mset (concat (map mag_ptr (ps @ qs))) + mset (empty_list a) + mset (full_list a)"
  by (simp add: all_mags_def ac_simps)

lemma mags_ok_transfer:
  assumes ok: "mags_ok m ps a" and eq: "mset (all_mags ps' a') = mset (all_mags ps a)"
    and p: "\<forall>p \<in> set ps'. pair_ok p" and live: "\<forall>x \<in> set (all_mags ps a). mag_live m' x"
    and c: "of_nat (length (full_list a')) = full_count a'" "of_nat (length (empty_list a')) = empty_count a'"
  shows "mags_ok m' ps' a'"
  using assms mset_eq_setD [OF eq] mset_eq_imp_distinct_iff [OF eq] by (simp add: mags_ok_live)

lemma mags_ok_fresh:
  assumes ok: "mags_ok m ps a" and eq: "mset (all_mags ps' a') = add_mset y (mset (all_mags ps a))"
    and y: "m y = None" and p: "\<forall>p \<in> set ps'. pair_ok p"
    and c: "of_nat (length (full_list a')) = full_count a'" "of_nat (length (empty_list a')) = empty_count a'"
  shows "mags_ok (m(y \<mapsto> zero_magazine)) ps' a'"
proof -
  have "y \<notin> set (all_mags ps a)" using ok y by (auto simp: mags_ok_def)
  moreover have eq': "mset (all_mags ps' a') = mset (y # all_mags ps a)" using eq by simp
  ultimately show ?thesis
    using assms mset_eq_setD [OF eq'] mset_eq_imp_distinct_iff [OF eq']
    by (auto simp: mags_ok_live zero_magazine_def)
qed

lemma bag_focus: "bag m (ps @ p # qs) fs = mset (pair_list m p) + bag m (ps @ qs) fs"
  by (simp add: bag_def ac_simps)

lemma bag_Cons_full: "bag m ps (f # fs) = mset (stack_of m f) + bag m ps fs"
  by (simp add: bag_def ac_simps)

lemma pair_list_upd: "pair_ok p \<Longrightarrow> x \<notin> set (mag_ptr p) \<Longrightarrow> pair_list (m(x \<mapsto> g)) p = pair_list m p"
  by (erule pair_okE) (auto simp: pair_list_def)

lemma bag_upd:
  assumes "\<forall>p \<in> set ps. pair_ok p" and "x \<notin> set (concat (map mag_ptr ps))" and "x \<notin> set fs"
  shows "bag (m(x \<mapsto> g)) ps fs = bag m ps fs"
proof -
  have "map (pair_list (m(x \<mapsto> g))) ps = map (pair_list m) ps"
    using assms(1,2) by (auto intro: pair_list_upd)
  moreover have "map (stack_of (m(x \<mapsto> g))) fs = map (stack_of m) fs"
    using assms(3) by (auto intro!: stack_of_upd_other)
  ultimately show ?thesis by (simp only: bag_def)
qed

lemma pair_focus:
  assumes "\<forall>pcp \<in> set (pcp_pair a). length (pair pcp) = 2" and "c < length (pcp_pair a)"
  obtains ps p qs where "get_cpu_mag_pair a c b = Some p" "all_pairs a = ps @ p # qs"
    "\<And>a' p'. pcp_pair a' = pcp_pair a \<Longrightarrow> \<exists>pcps. put_cpu_mag_pair a' c b p' = Some (a'\<lparr>pcp_pair := pcps\<rparr>) \<and>
       concat (map pair pcps) = ps @ p' # qs \<and> length pcps = length (pcp_pair a) \<and>
       (\<forall>pcp \<in> set pcps. length (pair pcp) = 2)"
proof -
  let ?xs = "take c (pcp_pair a)" and ?ys = "drop (Suc c) (pcp_pair a)" and ?z = "pcp_pair a ! c"
  have split: "pcp_pair a = ?xs @ ?z # ?ys" using assms(2) by (rule id_take_nth_drop)
  have len: "length ?xs = c" using assms(2) by simp
  obtain u v where z: "pair ?z = [u, v]" using assms by (meson length_2E nth_mem)
  have pairs: "all_pairs a = concat (map pair ?xs) @ [u, v] @ concat (map pair ?ys)"
    using z by (subst all_pairs_def, subst split) simp
  have sub: "\<forall>pcp \<in> set ?xs \<union> set ?ys. length (pair pcp) = 2"
    using assms(1) by (auto dest: in_set_takeD in_set_dropD)
  have put: "\<exists>pcps. put_cpu_mag_pair a' c b p' = Some (a'\<lparr>pcp_pair := pcps\<rparr>) \<and>
      concat (map pair pcps) = concat (map pair ?xs) @ (if b then [u, p'] else [p', v]) @ concat (map pair ?ys) \<and>
      length pcps = length (pcp_pair a) \<and> (\<forall>pcp \<in> set pcps. length (pair pcp) = 2)"
    if "pcp_pair a' = pcp_pair a" for a' p'
  proof (intro exI conjI)
    let ?z' = "?z\<lparr>pair := if b then [u, p'] else [p', v]\<rparr>"
    have upd: "(pcp_pair a)[c := ?z'] = ?xs @ ?z' # ?ys"
      by (subst split) (metis len list_update_length)
    show "put_cpu_mag_pair a' c b p' = Some (a'\<lparr>pcp_pair := (pcp_pair a)[c := ?z']\<rparr>)"
      using that assms(2) z by (auto simp: put_cpu_mag_pair_def Let_def)
    show "concat (map pair ((pcp_pair a)[c := ?z'])) =
        concat (map pair ?xs) @ (if b then [u, p'] else [p', v]) @ concat (map pair ?ys)"
      by (simp add: upd)
    show "\<forall>pcp \<in> set ((pcp_pair a)[c := ?z']). length (pair pcp) = 2"
      unfolding upd using sub by auto
  qed simp
  show thesis
  proof (cases b)
    case True
    show thesis
      by (rule that [of v "concat (map pair ?xs) @ [u]" "concat (map pair ?ys)"])
         (use True z assms(2) pairs put in \<open>auto simp: get_cpu_mag_pair_def Let_def\<close>)
  next
    case False
    show thesis
      by (rule that [of u "concat (map pair ?xs)" "v # concat (map pair ?ys)"])
         (use False z assms(2) pairs put in \<open>auto simp: get_cpu_mag_pair_def Let_def\<close>)
  qed
qed

text \<open>A full pair gives its second magazine away and gets an empty one, or, when there is none, a new one.\<close>

lemma full_pair:
  assumes ok: "mags_ok m (ps @ p # qs) a" and full: "pair_full p"
  obtains m0 m1 c0 c1 g0 g1 where "p = \<lparr>mag_ptr = [m0, m1], count = [c0, c1]\<rparr>" "unat c0 = MAG_DEPTH" "unat c1 = MAG_DEPTH" "c1 = 4"
    "m m0 = Some g0" "m m1 = Some g1" "length (stack g0) = MAG_DEPTH" "length (stack g1) = MAG_DEPTH"
    "pair_list m p = stack g0 @ stack g1" "\<And>e. \<forall>p \<in> set (ps @ \<lparr>mag_ptr = [m0, e], count = [c0, 0]\<rparr> # qs). pair_ok p"
proof -
  have "pair_ok p" using ok by (simp add: mags_ok_def)
  then obtain m0 m1 c0 c1 where q: "p = \<lparr>mag_ptr = [m0, m1], count = [c0, c1]\<rparr>" by (rule pair_okE)
  have c: "unat c0 = MAG_DEPTH" "unat c1 = MAG_DEPTH" "c1 = 4" using full q by (auto simp: pair_full_def unat32_eq_4)
  have "\<forall>x \<in> set (all_mags (ps @ p # qs) a). mag_live m x" using ok by (simp add: mags_ok_live)
  then obtain g0 g1 where g: "m m0 = Some g0" "m m1 = Some g1" "length (stack g0) = MAG_DEPTH" "length (stack g1) = MAG_DEPTH"
    by (auto simp: all_mags_def q mag_live_def)
  show thesis
    by (rule that [OF q c g]) (use q c g ok in \<open>auto simp: pair_list_def mags_ok_def pair_ok_def\<close>)
qed

definition switched :: "mag_mem \<Rightarrow> mag_pair list \<Rightarrow> mag_pair \<Rightarrow> mag_pair list \<Rightarrow> mag_allocator \<Rightarrow>
    mag_allocator \<times> mag_mem \<times> mag_pair \<Rightarrow> bool" where
  "switched m ps p qs a = (\<lambda>(a', m', p'). pcp_pair a' = pcp_pair a \<and> mags_ok m' (ps @ p' # qs) a' \<and> \<not> pair_full p' \<and>
     bag m' (ps @ p' # qs) (full_list a') = bag m (ps @ p # qs) (full_list a))"

lemma switch_full_trade:
  assumes ok: "mags_ok m (ps @ p # qs) a" and full: "pair_full p" and n: "empty_count a \<noteq> 0"
  shows "\<exists>r. mag_allocator_switch_full kz a m p = Some r \<and> switched m ps p qs a r"
proof -
  obtain m0 m1 c0 c1 g0 g1 where q: "p = \<lparr>mag_ptr = [m0, m1], count = [c0, c1]\<rparr>" and c: "unat c0 = MAG_DEPTH" "unat c1 = MAG_DEPTH" "c1 = 4"
    and g: "m m0 = Some g0" "m m1 = Some g1" "length (stack g0) = MAG_DEPTH" "length (stack g1) = MAG_DEPTH" "pair_list m p = stack g0 @ stack g1"
    and ok': "\<And>e. \<forall>p \<in> set (ps @ \<lparr>mag_ptr = [m0, e], count = [c0, 0]\<rparr> # qs). pair_ok p"
    using full_pair [OF ok full, of thesis] by blast
  obtain e es where E: "empty_list a = e # es"
    using ok n by (cases "empty_list a") (auto simp: mags_ok_def)
  let ?a = "a\<lparr>full_list := m1 # full_list a, full_count := full_count a + 1,
      empty_list := es, empty_count := empty_count a - 1\<rparr>"
  let ?p = "\<lparr>mag_ptr = [m0, e], count = [c0, 0]\<rparr>"
  have live: "\<forall>x \<in> set (all_mags (ps @ p # qs) a). mag_live m x" using ok by (simp add: mags_ok_live)
  have "mags_ok m (ps @ ?p # qs) ?a"
    by (rule mags_ok_transfer [OF ok _ ok' live]) (use ok q E in \<open>auto simp: mset_all_mags mags_ok_def eq_diff_eq add.commute\<close>)
  moreover have "bag m (ps @ ?p # qs) (full_list ?a) = bag m (ps @ p # qs) (full_list a)"
    using c g by (simp add: bag_focus bag_Cons_full pair_list_def)
  moreover have "mag_allocator_switch_full kz a m p = Some (?a, m, ?p)"
    using q c g n E by (simp add: mag_allocator_switch_full_def)
  ultimately show ?thesis using c by (auto simp: pair_full_def switched_def)
qed

lemma switch_full_new:
  assumes ok: "mags_ok m (ps @ p # qs) a" and full: "pair_full p" and n: "empty_count a = 0"
    and kz: "kz \<noteq> 0" "m (ALIGN kz L1_CACHE_BYTES) = None"
  shows "\<exists>r. mag_allocator_switch_full kz a m p = Some r \<and> switched m ps p qs a r"
proof -
  obtain m0 m1 c0 c1 g0 g1 where q: "p = \<lparr>mag_ptr = [m0, m1], count = [c0, c1]\<rparr>" and c: "unat c0 = MAG_DEPTH" "unat c1 = MAG_DEPTH" "c1 = 4"
    and g: "m m0 = Some g0" "m m1 = Some g1" "length (stack g0) = MAG_DEPTH" "length (stack g1) = MAG_DEPTH" "pair_list m p = stack g0 @ stack g1"
    and ok': "\<And>e. \<forall>p \<in> set (ps @ \<lparr>mag_ptr = [m0, e], count = [c0, 0]\<rparr> # qs). pair_ok p"
    using full_pair [OF ok full, of thesis] by blast
  let ?e = "ALIGN kz L1_CACHE_BYTES"
  let ?a = "a\<lparr>full_list := m1 # full_list a, full_count := full_count a + 1\<rparr>"
  let ?p = "\<lparr>mag_ptr = [m0, ?e], count = [c0, 0]\<rparr>"
  let ?m = "m(?e \<mapsto> zero_magazine)"
  have fresh: "?e \<notin> set (all_mags (ps @ p # qs) a)" using ok kz by (auto simp: mags_ok_live mag_live_def)
  have "mags_ok ?m (ps @ ?p # qs) ?a"
    by (rule mags_ok_fresh [OF ok _ kz(2) ok']) (use ok q in \<open>auto simp: mset_all_mags mags_ok_def\<close>)
  moreover have "bag ?m (ps @ ?p # qs) (full_list ?a) = bag m (ps @ p # qs) (full_list a)"
  proof -
    have "bag ?m (ps @ qs) (full_list a) = bag m (ps @ qs) (full_list a)"
      by (rule bag_upd) (use ok fresh in \<open>auto simp: mags_ok_def all_mags_def\<close>)
    moreover have "?e \<noteq> m0" "?e \<noteq> m1" using fresh by (auto simp: all_mags_def q)
    ultimately show ?thesis using c g by (simp add: bag_focus bag_Cons_full pair_list_def)
  qed
  moreover have "mag_allocator_switch_full kz a m p = Some (?a, ?m, ?p)"
    using q c g n kz by (simp add: mag_allocator_switch_full_def)
  ultimately show ?thesis using c by (auto simp: pair_full_def switched_def)
qed

lemma switch_full_ok:
  assumes ok: "mags_ok m (ps @ p # qs) a" and full: "pair_full p"
    and kz: "kz \<noteq> 0" "m (ALIGN kz L1_CACHE_BYTES) = None"
  shows "\<exists>a' m' p'. mag_allocator_switch_full kz a m p = Some (a', m', p') \<and>
    pcp_pair a' = pcp_pair a \<and> mags_ok m' (ps @ p' # qs) a' \<and> \<not> pair_full p' \<and>
    bag m' (ps @ p' # qs) (full_list a') = bag m (ps @ p # qs) (full_list a)"
  using switch_full_trade [OF ok full] switch_full_new [OF ok full _ kz] by (cases "empty_count a = 0") (auto simp: switched_def)

lemma switch_empty_ok:
  assumes ok: "mags_ok m (ps @ p # qs) a" and zero: "mag_pair_count p = 0" "\<not> pair_full p"
  shows "\<exists>a' p'. mag_allocator_switch_empty a m p = Some (a', p') \<and>
    pcp_pair a' = pcp_pair a \<and> mags_ok m (ps @ p' # qs) a' \<and> \<not> pair_full p' \<and>
    bag m (ps @ p' # qs) (full_list a') = bag m (ps @ p # qs) (full_list a) \<and>
    (mag_pair_count p' = 0 \<longleftrightarrow> full_count a = 0) \<and> (full_count a = 0 \<longrightarrow> a' = a \<and> p' = p)"
proof -
  have "pair_ok p" using ok by (simp add: mags_ok_def)
  then obtain m0 m1 c0 c1 where q: "p = \<lparr>mag_ptr = [m0, m1], count = [c0, c1]\<rparr>"
    "unat c0 \<le> MAG_DEPTH" "unat c1 \<le> MAG_DEPTH" "c0 = 0 \<longrightarrow> c1 = 0" by (rule pair_okE)
  have "unat (c0 + c1) = unat c0 + unat c1" using q by (simp add: unat_word_ariths)
  then have c: "c0 = 0" "c1 = 0" using zero q by (auto simp: mag_pair_count_def unat_eq_0)
  show ?thesis
  proof (cases "full_count a = 0")
    case True
    with ok zero show ?thesis by (simp add: mag_allocator_switch_empty_def Let_def)
  next
    case False
    then obtain f fs where F: "full_list a = f # fs"
      using ok by (cases "full_list a") (auto simp: mags_ok_def)
    have live: "\<forall>x \<in> set (all_mags (ps @ p # qs) a). mag_live m x" using ok by (simp add: mags_ok_live)
    then obtain g0 gf where g: "m m0 = Some g0" "m f = Some gf" "length (stack gf) = MAG_DEPTH"
      by (auto simp: all_mags_def q F mag_live_def)
    let ?a = "a\<lparr>empty_list := m0 # empty_list a, empty_count := empty_count a + 1,
        full_list := fs, full_count := full_count a - 1\<rparr>"
    let ?p = "\<lparr>mag_ptr = [f, m1], count = [of_nat MAG_DEPTH, 0]\<rparr> :: mag_pair"
    have "mags_ok m (ps @ ?p # qs) ?a"
      by (rule mags_ok_transfer [OF ok _ _ live])
         (use ok q F in \<open>auto simp: mset_all_mags mags_ok_def pair_ok_def eq_diff_eq add.commute\<close>)
    moreover have "bag m (ps @ ?p # qs) (full_list ?a) = bag m (ps @ p # qs) (full_list a)"
      using q c g F by (simp add: bag_focus bag_Cons_full pair_list_def)
    moreover have "mag_allocator_switch_empty a m p = Some (?a, ?p)"
      using q c g F False by (simp add: mag_allocator_switch_empty_def)
    ultimately show ?thesis using False by (auto simp: pair_full_def mag_pair_count_def)
  qed
qed

lemma mag_pair_count_full:
  assumes "pair_ok p"
  shows "mag_pair_count p = push_bit 1 (of_nat MAG_DEPTH) \<longleftrightarrow> pair_full p"
proof -
  obtain m0 m1 c0 c1 where q: "p = \<lparr>mag_ptr = [m0, m1], count = [c0, c1]\<rparr>"
    "unat c0 \<le> MAG_DEPTH" "unat c1 \<le> MAG_DEPTH" using assms by (rule pair_okE)
  have "unat (c0 + c1) = unat c0 + unat c1" using q by (simp add: unat_word_ariths)
  moreover have "c0 + c1 = 8 \<longleftrightarrow> unat (c0 + c1) = 8" by (auto simp: word_unat_eq_iff)
  ultimately show ?thesis using q by (auto simp: mag_pair_count_def pair_full_def push_bit_eq_mult)
qed

lemma mag_inv_put:
  assumes "mags_ok m (ps @ p # qs) a" "\<not> pair_full p" "\<forall>x \<in> set ps \<union> set qs. \<not> pair_full x"
    and "concat (map pair pcps) = ps @ p # qs" "\<forall>pcp \<in> set pcps. length (pair pcp) = 2"
  shows "mag_inv \<lparr>mem = m, allocator = a\<lparr>pcp_pair := pcps\<rparr>\<rparr>"
  using assms by (auto simp: mag_inv_def all_pairs_def mags_ok_def all_mags_def)

text \<open>The work of one call on the pair of its core, between reading and storing the pair.\<close>

lemma free_stage:
  assumes ok: "mags_ok m (ps @ p # qs) a" and nf: "\<not> pair_full p"
    and kz: "kz \<noteq> 0" "m (ALIGN kz L1_CACHE_BYTES) = None"
  shows "\<exists>m1 p1 a' m' p'. mag_pair_free m p e = Some (m1, p1) \<and>
    (if mag_pair_count p1 = push_bit 1 (of_nat MAG_DEPTH)
     then mag_allocator_switch_full kz a m1 p1 else Some (a, m1, p1)) = Some (a', m', p') \<and>
    pcp_pair a' = pcp_pair a \<and> mags_ok m' (ps @ p' # qs) a' \<and> \<not> pair_full p' \<and>
    bag m' (ps @ p' # qs) (full_list a') = add_mset e (bag m (ps @ p # qs) (full_list a))"
proof -
  have live: "\<forall>x \<in> set (all_mags (ps @ p # qs) a). mag_live m x"
    and dist: "distinct (all_mags (ps @ p # qs) a)" using ok by (auto simp: mags_ok_live)
  obtain x g p1 where free: "mag_pair_free m p e = Some (m(x \<mapsto> g), p1)"
    and x: "x \<in> set (mag_ptr p)" "length (stack g) = MAG_DEPTH" "pair_ok p1" "mag_ptr p1 = mag_ptr p"
    and pl: "mset (pair_list (m(x \<mapsto> g)) p1) = add_mset e (mset (pair_list m p))"
    using mag_pair_free_ok [of p m e] ok nf live dist by (auto simp: mags_ok_def all_mags_def)
  define m1 where "m1 = m(x \<mapsto> g)"
  note free = free [folded m1_def] and pl = pl [folded m1_def]
  have ok1: "mags_ok m1 (ps @ p1 # qs) a"
    by (rule mags_ok_transfer [OF ok])
       (use ok x live in \<open>auto simp: m1_def mset_all_mags mags_ok_def\<close>)
  have "bag m1 (ps @ qs) (full_list a) = bag m (ps @ qs) (full_list a)"
    unfolding m1_def by (rule bag_upd) (use ok x dist in \<open>auto simp: mags_ok_def all_mags_def\<close>)
  then have bag1: "bag m1 (ps @ p1 # qs) (full_list a) = add_mset e (bag m (ps @ p # qs) (full_list a))"
    using pl by (simp add: bag_focus)
  have "mag_live m x" using live x by (auto simp: all_mags_def)
  then have kz1: "m1 (ALIGN kz L1_CACHE_BYTES) = None"
    using kz by (auto simp: m1_def mag_live_def)
  show ?thesis
  proof (cases "pair_full p1")
    case True
    with switch_full_ok [OF ok1 True kz(1) kz1] free bag1 mag_pair_count_full [OF x(3)]
    show ?thesis by fastforce
  next
    case False
    with ok1 bag1 free mag_pair_count_full [OF x(3)] show ?thesis by auto
  qed
qed

lemma alloc_stage:
  assumes ok: "mags_ok m (ps @ p # qs) a" and nf: "\<not> pair_full p"
  shows "\<exists>a' p1 e p'. (if mag_pair_count p = 0 then mag_allocator_switch_empty a m p else Some (a, p))
      = Some (a', p1) \<and> mag_pair_alloc m p1 = Some (e, p') \<and>
    pcp_pair a' = pcp_pair a \<and> mags_ok m (ps @ p' # qs) a' \<and> \<not> pair_full p' \<and>
    (if mag_pair_count p = 0 \<and> full_count a = 0 then e = 0 \<and> a' = a \<and> p' = p
     else bag m (ps @ p # qs) (full_list a) = add_mset e (bag m (ps @ p' # qs) (full_list a')))"
proof -
  have "\<exists>a1 p1. (if mag_pair_count p = 0 then mag_allocator_switch_empty a m p else Some (a, p))
      = Some (a1, p1) \<and> pcp_pair a1 = pcp_pair a \<and> mags_ok m (ps @ p1 # qs) a1 \<and> \<not> pair_full p1 \<and>
    bag m (ps @ p1 # qs) (full_list a1) = bag m (ps @ p # qs) (full_list a) \<and>
    (mag_pair_count p1 = 0 \<longleftrightarrow> mag_pair_count p = 0 \<and> full_count a = 0) \<and>
    (mag_pair_count p = 0 \<and> full_count a = 0 \<longrightarrow> a1 = a \<and> p1 = p)"
  proof (cases "mag_pair_count p = 0")
    case True
    from switch_empty_ok [OF ok True nf] show ?thesis by (simp only: True simp_thms if_True)
  qed (use ok nf in simp)
  then obtain a1 p1 where sw: "(if mag_pair_count p = 0 then mag_allocator_switch_empty a m p else Some (a, p))
      = Some (a1, p1)" and ok1: "mags_ok m (ps @ p1 # qs) a1" "\<not> pair_full p1" "pcp_pair a1 = pcp_pair a"
    and bag1: "bag m (ps @ p1 # qs) (full_list a1) = bag m (ps @ p # qs) (full_list a)"
    and z: "mag_pair_count p1 = 0 \<longleftrightarrow> mag_pair_count p = 0 \<and> full_count a = 0"
      "mag_pair_count p = 0 \<and> full_count a = 0 \<longrightarrow> a1 = a \<and> p1 = p"
    by blast
  have pok: "pair_ok p1" using ok1 by (simp add: mags_ok_def)
  show ?thesis
  proof (cases "mag_pair_count p1 = 0")
    case True
    obtain m0 m1 c0 c1 where q: "p1 = \<lparr>mag_ptr = [m0, m1], count = [c0, c1]\<rparr>"
      "unat c0 \<le> MAG_DEPTH" "unat c1 \<le> MAG_DEPTH" using pok by (rule pair_okE)
    have "unat (c0 + c1) = unat c0 + unat c1" using q by (simp add: unat_word_ariths)
    then have "c0 = 0" using True q by (auto simp: mag_pair_count_def unat_eq_0)
    then have "mag_pair_alloc m p1 = Some (0, p1)" using q by (simp add: mag_pair_alloc_def)
    with True z sw ok1 show ?thesis by auto
  next
    case False
    have live: "\<forall>x \<in> set (mag_ptr p1). mag_live m x" using ok1 by (auto simp: mags_ok_live all_mags_def)
    obtain e p' where al: "mag_pair_alloc m p1 = Some (e, p')" "pair_ok p'" "\<not> pair_full p'"
      "mset (mag_ptr p') = mset (mag_ptr p1)" "mset (pair_list m p1) = add_mset e (mset (pair_list m p'))"
      using mag_pair_alloc_ok [OF pok ok1(2) live False] by blast
    have "mags_ok m (ps @ p' # qs) a1"
      by (rule mags_ok_transfer [OF ok1(1)])
         (use ok1 al in \<open>auto simp: mset_all_mags mags_ok_live\<close>)
    with sw al ok1 bag1 z(1) False show ?thesis by (auto simp: bag_focus)
  qed
qed

lemma mag_free_elem_ok:
  assumes inv: "mag_inv s" and c: "c < length (pcp_pair (allocator s))" and kz: "kz_fresh kz s"
  shows "\<exists>s'. mag_free_elem kz c b e s = Some s' \<and> mag_inv s' \<and>
    contents s' = add_mset e (contents s) \<and>
    length (pcp_pair (allocator s')) = length (pcp_pair (allocator s))"
proof -
  let ?a = "allocator s"
  have two: "\<forall>pcp \<in> set (pcp_pair ?a). length (pair pcp) = 2" using inv by (simp add: mag_inv_def)
  obtain ps p qs where get: "get_cpu_mag_pair ?a c b = Some p" and P: "all_pairs ?a = ps @ p # qs"
    and put: "\<And>a' p'. pcp_pair a' = pcp_pair ?a \<Longrightarrow> \<exists>pcps. put_cpu_mag_pair a' c b p' = Some (a'\<lparr>pcp_pair := pcps\<rparr>) \<and>
       concat (map pair pcps) = ps @ p' # qs \<and> length pcps = length (pcp_pair ?a) \<and>
       (\<forall>pcp \<in> set pcps. length (pair pcp) = 2)"
    using pair_focus [OF two c] by metis
  have ok: "mags_ok (mem s) (ps @ p # qs) ?a" and nf: "\<forall>x \<in> set ps \<union> set qs. \<not> pair_full x" "\<not> pair_full p"
    using inv P by (auto simp: mag_inv_def)
  obtain m1 p1 a' m' p' where st: "mag_pair_free (mem s) p e = Some (m1, p1)"
    "(if mag_pair_count p1 = push_bit 1 (of_nat MAG_DEPTH)
      then mag_allocator_switch_full kz ?a m1 p1 else Some (?a, m1, p1)) = Some (a', m', p')"
    "pcp_pair a' = pcp_pair ?a" "mags_ok m' (ps @ p' # qs) a'" "\<not> pair_full p'"
    "bag m' (ps @ p' # qs) (full_list a') = add_mset e (bag (mem s) (ps @ p # qs) (full_list ?a))"
    using free_stage [OF ok nf(2)] kz unfolding kz_fresh_def by blast
  obtain pcps where pc: "put_cpu_mag_pair a' c b p' = Some (a'\<lparr>pcp_pair := pcps\<rparr>)"
    "concat (map pair pcps) = ps @ p' # qs" "length pcps = length (pcp_pair ?a)"
    "\<forall>pcp \<in> set pcps. length (pair pcp) = 2" using put [OF st(3)] by blast
  have "mag_free_elem kz c b e s = Some \<lparr>mem = m', allocator = a'\<lparr>pcp_pair := pcps\<rparr>\<rparr>"
    using get st(1,2) pc(1) by (simp add: mag_free_elem_def)
  moreover have "mag_inv \<lparr>mem = m', allocator = a'\<lparr>pcp_pair := pcps\<rparr>\<rparr>"
    by (rule mag_inv_put [OF st(4,5) nf(1) pc(2,4)])
  ultimately show ?thesis using st(6) pc(2,3) P by (auto simp: contents_def all_pairs_def)
qed

text \<open>The calling core has nothing to hand out: its pair is empty and so is the list of full magazines.\<close>

definition cpu_empty :: "mag_state \<Rightarrow> cpu \<Rightarrow> bool \<Rightarrow> bool" where
  "cpu_empty s c b \<longleftrightarrow> full_count (allocator s) = 0 \<and>
     (case get_cpu_mag_pair (allocator s) c b of Some p \<Rightarrow> mag_pair_count p = 0 | None \<Rightarrow> True)"

text \<open>Storing a pair back unchanged.\<close>

lemma put_same: "get_cpu_mag_pair a c b = Some p \<Longrightarrow> put_cpu_mag_pair a c b p = Some a"
  by (auto simp: get_cpu_mag_pair_def put_cpu_mag_pair_def arr_get_def arr_set_def split: if_splits)

lemma mag_alloc_elem_ok:
  assumes inv: "mag_inv s" and c: "c < length (pcp_pair (allocator s))"
  shows "\<exists>e s'. mag_alloc_elem c b s = Some (e, s') \<and> mag_inv s' \<and>
    (if cpu_empty s c b then e = 0 \<and> s' = s
     else contents s = add_mset e (contents s')) \<and> mem s' = mem s \<and>
    length (pcp_pair (allocator s')) = length (pcp_pair (allocator s))"
proof -
  let ?a = "allocator s"
  have two: "\<forall>pcp \<in> set (pcp_pair ?a). length (pair pcp) = 2" using inv by (simp add: mag_inv_def)
  obtain ps p qs where get: "get_cpu_mag_pair ?a c b = Some p" and P: "all_pairs ?a = ps @ p # qs"
    and put: "\<And>a' p'. pcp_pair a' = pcp_pair ?a \<Longrightarrow> \<exists>pcps. put_cpu_mag_pair a' c b p' = Some (a'\<lparr>pcp_pair := pcps\<rparr>) \<and>
       concat (map pair pcps) = ps @ p' # qs \<and> length pcps = length (pcp_pair ?a) \<and>
       (\<forall>pcp \<in> set pcps. length (pair pcp) = 2)"
    using pair_focus [OF two c] by metis
  have ok: "mags_ok (mem s) (ps @ p # qs) ?a" and nf: "\<forall>x \<in> set ps \<union> set qs. \<not> pair_full x" "\<not> pair_full p"
    using inv P by (auto simp: mag_inv_def)
  obtain a' p1 e p' where st:
    "(if mag_pair_count p = 0 then mag_allocator_switch_empty ?a (mem s) p else Some (?a, p)) = Some (a', p1)"
    "mag_pair_alloc (mem s) p1 = Some (e, p')"
    "pcp_pair a' = pcp_pair ?a" "mags_ok (mem s) (ps @ p' # qs) a'" "\<not> pair_full p'"
    "if mag_pair_count p = 0 \<and> full_count ?a = 0 then e = 0 \<and> a' = ?a \<and> p' = p
     else bag (mem s) (ps @ p # qs) (full_list ?a) = add_mset e (bag (mem s) (ps @ p' # qs) (full_list a'))"
    using alloc_stage [OF ok nf(2)] by blast
  obtain pcps where pc: "put_cpu_mag_pair a' c b p' = Some (a'\<lparr>pcp_pair := pcps\<rparr>)"
    "concat (map pair pcps) = ps @ p' # qs" "length pcps = length (pcp_pair ?a)"
    "\<forall>pcp \<in> set pcps. length (pair pcp) = 2" using put [OF st(3)] by blast
  have "mag_alloc_elem c b s = Some (e, s\<lparr>allocator := a'\<lparr>pcp_pair := pcps\<rparr>\<rparr>)"
    using get st(1,2) pc(1) by (simp add: mag_alloc_elem_def)
  moreover have "mag_inv (s\<lparr>allocator := a'\<lparr>pcp_pair := pcps\<rparr>\<rparr>)"
    using mag_inv_put [OF st(4,5) nf(1) pc(2,4)] by (cases s) simp
  moreover have "s\<lparr>allocator := a'\<lparr>pcp_pair := pcps\<rparr>\<rparr> = s" if "a' = ?a" "p' = p"
    using put_same [OF get] pc(1) that by simp
  ultimately show ?thesis
    using st(6) pc(2,3) P get
    by (auto simp: contents_def all_pairs_def cpu_empty_def split: if_splits)
qed

section \<open>Initialisation\<close>

text \<open>The addresses at which the allocations of \<open>mag_allocator_init\<close> place magazines.\<close>

definition kz_addrs :: "(cpu \<Rightarrow> bool \<Rightarrow> u64) \<Rightarrow> cpu list \<Rightarrow> u64 list" where
  "kz_addrs kz cs = concat (map (\<lambda>c. concat (map (\<lambda>b.
     [ALIGN (kz c b) L1_CACHE_BYTES, ALIGN (kz c b) L1_CACHE_BYTES + sizeof_magazine]) [False, True])) cs)"

lemma init_cpus_ok:
  assumes "distinct (kz_addrs kz cs)" and "\<forall>c \<in> set cs. \<forall>b. kz c b \<noteq> 0"
  shows "\<exists>pcps m'. init_cpus kz cs m = Some (pcps, m') \<and> length pcps = length cs \<and>
    concat (map mag_ptr (concat (map pair pcps))) = kz_addrs kz cs \<and>
    (\<forall>x. m' x = (if x \<in> set (kz_addrs kz cs) then Some zero_magazine else m x)) \<and>
    (\<forall>pcp \<in> set pcps. length (pair pcp) = 2) \<and>
    (\<forall>p \<in> set (concat (map pair pcps)). length (mag_ptr p) = MAG_COUNT \<and> count p = [0, 0])"
  using assms
proof (induction cs arbitrary: m)
  case Nil then show ?case by (simp add: kz_addrs_def)
next
  case (Cons c cs)
  let ?a = "ALIGN (kz c False) L1_CACHE_BYTES" and ?b = "ALIGN (kz c True) L1_CACHE_BYTES"
  let ?m = "m(?a \<mapsto> zero_magazine, ?a + sizeof_magazine \<mapsto> zero_magazine,
      ?b \<mapsto> zero_magazine, ?b + sizeof_magazine \<mapsto> zero_magazine)"
  have ka: "kz_addrs kz (c # cs) = [?a, ?a + sizeof_magazine, ?b, ?b + sizeof_magazine] @ kz_addrs kz cs"
    by (simp add: kz_addrs_def)
  have "distinct (kz_addrs kz cs)" "\<forall>c \<in> set cs. \<forall>b. kz c b \<noteq> 0"
    using Cons.prems by (simp_all add: ka)
  then obtain pcps m' where IH: "init_cpus kz cs ?m = Some (pcps, m')" "length pcps = length cs"
    "concat (map mag_ptr (concat (map pair pcps))) = kz_addrs kz cs"
    "\<forall>x. m' x = (if x \<in> set (kz_addrs kz cs) then Some zero_magazine else ?m x)"
    "\<forall>pcp \<in> set pcps. length (pair pcp) = 2"
    "\<forall>p \<in> set (concat (map pair pcps)). length (mag_ptr p) = MAG_COUNT \<and> count p = [0, 0]"
    using Cons.IH [of ?m] by blast
  have "init_cpus kz (c # cs) m = Some (\<lparr>pair = [\<lparr>mag_ptr = [?a, ?a + sizeof_magazine], count = [0, 0]\<rparr>,
      \<lparr>mag_ptr = [?b, ?b + sizeof_magazine], count = [0, 0]\<rparr>]\<rparr> # pcps, m')"
    using IH(1) Cons.prems(2) by (simp add: init_mag_pair_def Let_def)
  then show ?case using IH by (auto simp: ka)
qed

definition mag_state0 :: mag_state where
  "mag_state0 = \<lparr>mem = Map.empty, allocator = \<lparr>empty_list = [], full_list = [], empty_count = 0,
     full_count = 0, pcp_pair = []\<rparr>\<rparr>"

section \<open>The contract of an allocator of pooled elements\<close>

locale bag_allocator =
  fixes alloc :: "'c \<Rightarrow> 's \<Rightarrow> ('e \<times> 's) option"
    and free :: "'k \<Rightarrow> 'c \<Rightarrow> 'e \<Rightarrow> 's \<Rightarrow> 's option"
    and inv :: "'s \<Rightarrow> bool"
    and elems :: "'s \<Rightarrow> 'e multiset"
    and ctx :: "'s \<Rightarrow> 'c \<Rightarrow> bool"
    and fresh :: "'k \<Rightarrow> 's \<Rightarrow> bool"
    and null :: 'e
  assumes free_law: "inv s \<Longrightarrow> ctx s c \<Longrightarrow> fresh k s \<Longrightarrow>
      \<exists>s'. free k c e s = Some s' \<and> inv s' \<and> elems s' = add_mset e (elems s) \<and> ctx s' = ctx s"
    and alloc_law: "inv s \<Longrightarrow> ctx s c \<Longrightarrow>
      \<exists>e s'. alloc c s = Some (e, s') \<and> inv s' \<and> ctx s' = ctx s \<and>
        (elems s = add_mset e (elems s') \<or> e = null \<and> elems s' = elems s)"
begin

text \<open>No element is handed out twice: while an element is out it is not in the allocator.\<close>

lemma alloc_exclusive:
  assumes "inv s" and "ctx s c" and "\<And>e. Multiset.count (elems s) e \<le> 1" and "null \<notin># elems s"
  shows "\<exists>e s'. alloc c s = Some (e, s') \<and> inv s' \<and> ctx s' = ctx s \<and>
    (if e = null then elems s' = elems s
     else e \<in># elems s \<and> e \<notin># elems s' \<and> elems s = add_mset e (elems s'))"
proof -
  obtain e s' where al: "alloc c s = Some (e, s')" "inv s'" "ctx s' = ctx s"
    "elems s = add_mset e (elems s') \<or> e = null \<and> elems s' = elems s"
    using alloc_law [OF assms(1,2)] by blast
  show ?thesis
  proof (cases "e = null")
    case True
    with al assms(4) show ?thesis by auto
  next
    case False
    with al have eq: "elems s = add_mset e (elems s')" by blast
    then have "Multiset.count (elems s') e = 0" using assms(3) [of e] by simp
    then have "e \<notin># elems s'" by (simp add: count_eq_zero_iff)
    with False al(1-3) eq show ?thesis by (intro exI [of _ e] exI [of _ s']) simp
  qed
qed

lemma free_exclusive:
  assumes "inv s" and "ctx s c" and "fresh k s" and "\<And>x. Multiset.count (elems s) x \<le> 1" and "e \<notin># elems s"
  shows "\<exists>s'. free k c e s = Some s' \<and> inv s' \<and> ctx s' = ctx s \<and> elems s' = add_mset e (elems s) \<and>
    (\<forall>x. Multiset.count (elems s') x \<le> 1)"
  using free_law [OF assms(1-3), of e] assms(4,5) by (auto simp: not_in_iff)

end

interpretation mag: bag_allocator "\<lambda>(c, b). mag_alloc_elem c b" "\<lambda>kz (c, b). mag_free_elem kz c b"
  mag_inv contents "\<lambda>s (c, b). c < length (pcp_pair (allocator s))" kz_fresh 0
proof
  fix s :: mag_state and x :: "cpu \<times> bool" and kz e
  assume s: "mag_inv s" and c: "case x of (c, b) \<Rightarrow> c < length (pcp_pair (allocator s))"
  obtain c b where x: "x = (c, b)" by (cases x)
  show "\<exists>s'. (case x of (c, b) \<Rightarrow> mag_free_elem kz c b) e s = Some s' \<and> mag_inv s' \<and>
      contents s' = add_mset e (contents s) \<and>
      (\<lambda>(c, b). c < length (pcp_pair (allocator s'))) = (\<lambda>(c, b). c < length (pcp_pair (allocator s)))"
    if "kz_fresh kz s"
    using mag_free_elem_ok [OF s _ that, of c b e] c x by auto
  show "\<exists>e s'. (case x of (c, b) \<Rightarrow> mag_alloc_elem c b) s = Some (e, s') \<and> mag_inv s' \<and>
      (\<lambda>(c, b). c < length (pcp_pair (allocator s'))) = (\<lambda>(c, b). c < length (pcp_pair (allocator s))) \<and>
      (contents s = add_mset e (contents s') \<or> e = 0 \<and> contents s' = contents s)"
  proof -
    obtain e s' where "mag_alloc_elem c b s = Some (e, s')" "mag_inv s'"
      "if cpu_empty s c b then e = 0 \<and> contents s' = contents s else contents s = add_mset e (contents s')"
      "length (pcp_pair (allocator s')) = length (pcp_pair (allocator s))"
      using mag_alloc_elem_ok [OF s, of c b] c x by auto
    then show ?thesis using x by (auto split: if_splits)
  qed
qed

lemma get_put_mag_pair:
  "put_cpu_mag_pair a c b p = Some a' \<Longrightarrow> get_cpu_mag_pair a' c b = Some p"
  by (auto simp: put_cpu_mag_pair_def get_cpu_mag_pair_def arr_get_def arr_set_def Let_def bind_eq_Some_conv
      split: if_splits)

lemma count_seven:
  assumes "unat (c :: u32) \<le> 4" "unat d \<le> 4" "c + d = 7"
  shows "c = 4 \<and> d = 3 \<or> c = 3 \<and> d = 4"
proof -
  have "unat c + unat d = 7"
  proof -
    have "unat (c + d) = (unat c + unat d) mod 2 ^ 32" by (simp add: unat_word_ariths)
    moreover have "unat c + unat d < 2 ^ 32" using assms(1,2) by simp
    ultimately show ?thesis using assms(3) by simp
  qed
  with assms(1,2) have "unat c = 4 \<and> unat d = 3 \<or> unat c = 3 \<and> unat d = 4" by linarith
  then show ?thesis by (auto simp: word_unat_eq_iff)
qed

lemma full_stage_nomem:
  assumes p: "pair_ok p" and live: "\<forall>x \<in> set (mag_ptr p). mag_live m x"
    and full: "mag_pair_count p = 7" and none: "empty_count a = 0" and null: "m 0 = None"
  shows "\<exists>m' p1 a' p'. mag_pair_free m p e = Some (m', p1) \<and> mag_pair_count p1 = 8 \<and>
    mag_allocator_switch_full 0 a m' p1 = Some (a', m', p') \<and> pcp_pair a' = pcp_pair a \<and>
    m' 0 = None \<and> count p' = [4, 0] \<and> mag_ptr p' ! 1 = 0"
proof -
  obtain m0 m1 c0 c1 where q: "p = \<lparr>mag_ptr = [m0, m1], count = [c0, c1]\<rparr>"
    "unat c0 \<le> 4" "unat c1 \<le> 4" using p by (rule pair_okE)
  with live obtain g0 g1 where g: "m m0 = Some g0" "length (stack g0) = 4"
    "m m1 = Some g1" "length (stack g1) = 4" by (auto simp: mag_live_def)
  have nz: "m0 \<noteq> 0" "m1 \<noteq> 0" using g null by auto
  have "c0 = 4 \<and> c1 = 3 \<or> c0 = 3 \<and> c1 = 4"
    using count_seven q full by (simp add: mag_pair_count_def)
  then show ?thesis
    using q(1) g nz none null
    by (elim disjE) (simp_all add: mag_pair_free_def mag_pair_count_def mag_allocator_switch_full_def ALIGN_def)
qed

text \<open>A fresh allocator of one core, for the examples.\<close>

definition kz_ex :: "cpu \<Rightarrow> bool \<Rightarrow> u64" where
  "kz_ex c b = (if b then 0x2000 else 0x1000)"

definition mag_state1 :: mag_state where
  "mag_state1 = the (mag_allocator_init kz_ex 1 mag_state0)"

lemma mag_state1_eq: "mag_state1 =
  \<lparr>mem = [0x1000 \<mapsto> zero_magazine, 0x1030 \<mapsto> zero_magazine, 0x2000 \<mapsto> zero_magazine, 0x2030 \<mapsto> zero_magazine],
   allocator = \<lparr>empty_list = [], full_list = [], empty_count = 0, full_count = 0,
     pcp_pair = [\<lparr>pair = [\<lparr>mag_ptr = [0x1000, 0x1030], count = [0, 0]\<rparr>,
                        \<lparr>mag_ptr = [0x2000, 0x2030], count = [0, 0]\<rparr>]\<rparr>]\<rparr>\<rparr>"
  by (simp add: mag_state1_def mag_allocator_init_def mag_state0_def init_mag_pair_def kz_ex_def ALIGN_def)

lemma mag_state1_inv: "mag_inv mag_state1" "contents mag_state1 = {#}"
  "length (pcp_pair (allocator mag_state1)) = 1"
  by (auto simp: mag_state1_eq mag_inv_def mags_ok_def all_pairs_def all_mags_def pair_ok_def
      pair_full_def zero_magazine_def contents_def bag_def pair_list_def)

lemma mag_state1_fresh: "kz_fresh 0x3000 mag_state1"
  by (simp add: kz_fresh_def mag_state1_eq ALIGN_def)

text \<open>The same after one free.\<close>

definition mag_state2 :: mag_state where
  "mag_state2 = the (mag_free_elem 0x3000 0 False 7 mag_state1)"

lemma mag_state2_inv: "mag_inv mag_state2" "contents mag_state2 = {#7#}"
  "length (pcp_pair (allocator mag_state2)) = 1" "\<not> cpu_empty mag_state2 0 False"
proof -
  obtain s' where s': "mag_free_elem 0x3000 0 False 7 mag_state1 = Some s'" "mag_inv s'"
    "contents s' = {#7#}" "length (pcp_pair (allocator s')) = 1"
    using mag_free_elem_ok [OF mag_state1_inv(1), of 0 "0x3000" False 7] mag_state1_inv mag_state1_fresh
    by auto
  then have eq: "mag_state2 = s'" by (simp add: mag_state2_def)
  then show "mag_inv mag_state2" "contents mag_state2 = {#7#}"
    "length (pcp_pair (allocator mag_state2)) = 1" using s' by simp_all
  show "\<not> cpu_empty mag_state2 0 False"
    using s'(1) unfolding eq
    by (auto simp: mag_state1_eq mag_free_elem_def mag_pair_free_def get_cpu_mag_pair_def
        put_cpu_mag_pair_def zero_magazine_def mag_pair_count_def cpu_empty_def)
qed

section \<open>Properties\<close>

text \<open>C16. Freeing an element never fails an assertion and never touches a dangling magazine; it keeps
  the invariant and adds exactly that element to the allocator, whichever core frees it, provided
  \<open>kzalloc\<close> returns memory.\<close>

theorem mag_free_refines:
  assumes "mag_inv s" and "c < length (pcp_pair (allocator s))" and "kz_fresh kz s"
  shows "\<exists>s'. mag_free_elem kz c b e s = Some s' \<and> mag_inv s' \<and> contents s' = add_mset e (contents s)"
  using mag.free_law [of s "(c, b)" kz e] assms by auto

theorem mag_free_refines_witness:
  "\<exists>s'. mag_free_elem 0x3000 0 False 7 mag_state1 = Some s' \<and> mag_inv s' \<and> contents s' = {#7#}"
  using mag_free_refines [of mag_state1 0 "0x3000" False 7] mag_state1_inv mag_state1_fresh by simp

text \<open>C17. Allocating takes exactly one element out of the allocator and returns it. It returns \<open>NULL\<close>
  only when the pair of the calling core is empty and there is no full magazine, and then nothing
  changes.\<close>

theorem mag_alloc_refines:
  assumes "mag_inv s" and "c < length (pcp_pair (allocator s))"
  shows "\<exists>e s'. mag_alloc_elem c b s = Some (e, s') \<and> mag_inv s' \<and>
    (if cpu_empty s c b then e = 0 \<and> s' = s
     else contents s = add_mset e (contents s'))"
  using mag_alloc_elem_ok [OF assms, of b] by blast

theorem mag_alloc_refines_witness:
  "\<exists>s'. mag_alloc_elem 0 False mag_state2 = Some (7, s') \<and> mag_inv s' \<and> contents s' = {#}"
  using mag_alloc_refines [of mag_state2 0 False] mag_state2_inv by auto

text \<open>On zeroed storage and with allocations that do not overlap, \<open>mag_allocator_init\<close> builds an
  empty allocator that satisfies the invariant.\<close>

theorem mag_init_ok:
  assumes "distinct (kz_addrs kz [0..<nr_cpus])" and "\<forall>c < nr_cpus. \<forall>b. kz c b \<noteq> 0"
  shows "\<exists>s. mag_allocator_init kz nr_cpus mag_state0 = Some s \<and> mag_inv s \<and> contents s = {#} \<and>
    length (pcp_pair (allocator s)) = nr_cpus"
proof -
  obtain pcps m' where i: "init_cpus kz [0..<nr_cpus] Map.empty = Some (pcps, m')" "length pcps = nr_cpus"
    "concat (map mag_ptr (concat (map pair pcps))) = kz_addrs kz [0..<nr_cpus]"
    "\<forall>x. m' x = (if x \<in> set (kz_addrs kz [0..<nr_cpus]) then Some zero_magazine else None)"
    "\<forall>pcp \<in> set pcps. length (pair pcp) = 2"
    "\<forall>p \<in> set (concat (map pair pcps)). length (mag_ptr p) = MAG_COUNT \<and> count p = [0, 0]"
    using init_cpus_ok [of kz "[0..<nr_cpus]" Map.empty] assms by auto
  let ?s = "mag_state0\<lparr>mem := m', allocator := (allocator mag_state0)\<lparr>pcp_pair := pcps\<rparr>\<rparr>"
  have "mag_allocator_init kz nr_cpus mag_state0 = Some ?s"
    using i(1) by (simp add: mag_allocator_init_def mag_state0_def)
  moreover have "mag_inv ?s"
    using i assms(1)
    by (auto simp: mag_inv_def mags_ok_def mag_state0_def all_pairs_def all_mags_def pair_ok_def
        pair_full_def zero_magazine_def)
  moreover have "pair_list m' p = []" if "p \<in> set (concat (map pair pcps))" for p
    using i(6) that by (auto simp: pair_list_def)
  then have "contents ?s = {#}"
    by (auto simp: contents_def bag_def mag_state0_def all_pairs_def)
  ultimately show ?thesis using i(2) by (auto simp: mag_state0_def)
qed

theorem mag_init_ok_witness:
  "\<exists>s. mag_allocator_init kz_ex 1 mag_state0 = Some s \<and> mag_inv s \<and> contents s = {#} \<and>
    length (pcp_pair (allocator s)) = 1"
  using mag_init_ok [of kz_ex 1] by (simp add: kz_addrs_def kz_ex_def ALIGN_def)

text \<open>When \<open>kzalloc\<close> fails while a core trades its full magazine and no empty one is spare, the free
  still succeeds but leaves the core with a \<open>NULL\<close> magazine: the next element freed on that core
  dereferences it.\<close>

theorem mag_free_nomem:
  assumes inv: "mag_inv s" and get: "get_cpu_mag_pair (allocator s) c b = Some p"
    and full: "mag_pair_count p = 7" and none: "empty_count (allocator s) = 0" and null: "mem s 0 = None"
  shows "\<exists>s'. mag_free_elem 0 c b e s = Some s' \<and> (\<forall>kz e'. mag_free_elem kz c b e' s' = None)"
proof -
  let ?a = "allocator s"
  have c: "c < length (pcp_pair ?a)" and two: "\<forall>pcp \<in> set (pcp_pair ?a). length (pair pcp) = 2"
    using get inv by (auto simp: get_cpu_mag_pair_def arr_get_def mag_inv_def split: if_splits)
  obtain ps qs where P: "all_pairs ?a = ps @ p # qs"
    and put: "\<And>a' p'. pcp_pair a' = pcp_pair ?a \<Longrightarrow> \<exists>pcps. put_cpu_mag_pair a' c b p' = Some (a'\<lparr>pcp_pair := pcps\<rparr>)"
    using pair_focus [OF two c, of b] get by (metis option.inject)
  have "pair_ok p" "\<forall>x \<in> set (mag_ptr p). mag_live (mem s) x"
    using inv P by (auto simp: mag_inv_def mags_ok_def all_mags_def mag_live_def)
  then obtain m' p1 a' p' where st: "mag_pair_free (mem s) p e = Some (m', p1)" "mag_pair_count p1 = 8"
    "mag_allocator_switch_full 0 ?a m' p1 = Some (a', m', p')" "pcp_pair a' = pcp_pair ?a"
    "m' 0 = None" "count p' = [4, 0]" "mag_ptr p' ! 1 = 0"
    using full_stage_nomem [of p "mem s" ?a e] full none null by blast
  obtain a'' where a'': "put_cpu_mag_pair a' c b p' = Some a''" using put [OF st(4)] by blast
  let ?s' = "s\<lparr>mem := m', allocator := a''\<rparr>"
  have "mag_free_elem 0 c b e s = Some ?s'"
    using get st a'' by (simp add: mag_free_elem_def)
  moreover have "mag_free_elem kz c b e' ?s' = None" for kz e'
    using get_put_mag_pair [OF a''] st(5-7) by (simp add: mag_free_elem_def mag_pair_free_def)
  ultimately show ?thesis by blast
qed

definition mag_state7 :: mag_state where
  "mag_state7 = \<lparr>mem = [0x1000 \<mapsto> \<lparr>stack = [1, 2, 3, 4]\<rparr>, 0x1030 \<mapsto> \<lparr>stack = [5, 6, 7, 0]\<rparr>,
       0x2000 \<mapsto> zero_magazine, 0x2030 \<mapsto> zero_magazine],
     allocator = \<lparr>empty_list = [], full_list = [], empty_count = 0, full_count = 0,
       pcp_pair = [\<lparr>pair = [\<lparr>mag_ptr = [0x1000, 0x1030], count = [4, 3]\<rparr>,
                          \<lparr>mag_ptr = [0x2000, 0x2030], count = [0, 0]\<rparr>]\<rparr>]\<rparr>\<rparr>"

theorem mag_free_nomem_witness:
  "\<exists>s'. mag_free_elem 0 0 False 8 mag_state7 = Some s' \<and> (\<forall>kz e'. mag_free_elem kz 0 False e' s' = None)"
  using mag_free_nomem [of mag_state7 0 False "\<lparr>mag_ptr = [0x1000, 0x1030], count = [4, 3]\<rparr>" 8]
  by (simp add: mag_state7_def zero_magazine_def mag_inv_def mags_ok_def all_pairs_def all_mags_def pair_ok_def
      pair_full_def get_cpu_mag_pair_def mag_pair_count_def)

end
