(* ===== verification/Thread_Pool.thy ===== *)
theory Thread_Pool
  imports Magazine Qp_State
begin

unbundle bit_operations_syntax

text \<open>
  The thread pool of \<^verbatim>\<open>tcpsplit/thread_pool.c\<close>: idle kernel threads are kept in a magazine allocator, a
  refill thread creates new ones, \<open>kthread_pool_run\<close> hands a function to an idle thread, and the
  thread puts itself back when the function has returned.

  A function pointer and its argument, which the code stores together, are one value of \<open>pool_fn\<close>.
  \<open>wakeups\<close> records the threads that were bound and woken, \<open>twice\<close> the reports of a thread that was
  handed out while it still had a task. The task of a \<open>pool_elem\<close> is what \<open>kthread_create\<close> returned;
  passing anything but a task to \<open>kthread_bind_mask\<close> is an oops. The core an operation runs on and the
  results of allocations are arguments.
\<close>

section \<open>Definitions\<close>

record pool_elem =
  task :: "nat kptr"
  pool_task :: "pool_fn option"

record kthread_pool =
  top_count :: s32
  pool_size :: s32
  pool_alloc :: mag_state
  elems :: "u64 \<rightharpoonup> pool_elem"
  wakeups :: "(u64 \<times> cpu option) list"
  refills :: nat
  twice :: nat

abbreviation (input) DEF_CBN_POOL_SIZE :: s32 where "DEF_CBN_POOL_SIZE \<equiv> 64"

text \<open>The context of an operation: the core, and whether it is in softirq context.\<close>
type_synonym ctx = "cpu \<times> bool"

definition kthread_pool_reuse :: "u64 \<Rightarrow> ctx \<Rightarrow> u64 \<Rightarrow> kthread_pool \<Rightarrow> kthread_pool option" where
  "kthread_pool_reuse kz x elem P =
     map_option (\<lambda>a. P\<lparr>pool_alloc := a\<rparr>) (mag_free_elem kz (fst x) (snd x) elem (pool_alloc P))"



definition pipe_loop_task :: "bool \<Rightarrow> u64 \<Rightarrow> ctx \<Rightarrow> u64 \<Rightarrow> kthread_pool \<Rightarrow> kthread_pool option" where
  "pipe_loop_task should_stop kz x elem P = do {
     e \<leftarrow> elems P elem;
     if \<not> should_stop then do {
       let P = P\<lparr>elems := (elems P)(elem \<mapsto> e\<lparr>pool_task := None\<rparr>)\<rparr>;
       kthread_pool_reuse kz x elem P }
     else Some P }"

text \<open>What one round of the refill loop gets: the slab object (\<open>0\<close> when there is none), the result of
  \<open>kthread_create\<close>, the core it runs on and the result of a \<open>kzalloc\<close> in the allocator.\<close>

record refill_env =
  slab_elem :: u64
  new_kthread :: "nat kptr"
  refill_ctx :: ctx
  refill_kz :: u64

fun refill_loop :: "(nat \<Rightarrow> refill_env) \<Rightarrow> nat \<Rightarrow> kthread_pool \<Rightarrow> kthread_pool option" where
  "refill_loop e 0 P = Some P"
| "refill_loop e (Suc n) P =
     (let elem = slab_elem (e n); k = new_kthread (e n)
      in if elem = 0 then Some P
         else if k = NULL then Some P
         else do {
           let P = P\<lparr>elems := (elems P)(elem \<mapsto> \<lparr>task = k, pool_task = None\<rparr>)\<rparr>;
           a \<leftarrow> mag_free_elem (refill_kz (e n)) (fst (refill_ctx (e n))) (snd (refill_ctx (e n))) elem
                 (pool_alloc P);
           let P = P\<lparr>pool_alloc := a, top_count := top_count P + 1\<rparr>;
           refill_loop e n P })"

definition refill_count :: "kthread_pool \<Rightarrow> s32" where
  "refill_count P =
     (let cnt = pool_size P - push_bit 2 (ucast (full_count (allocator (pool_alloc P))))
      in if sint cnt < 0 then 0 else cnt)"

definition refill_pool :: "(nat \<Rightarrow> refill_env) \<Rightarrow> kthread_pool \<Rightarrow> kthread_pool option" where
  "refill_pool e P = refill_loop e (unat (refill_count P)) P"

text \<open>The thread that refills: after every round it sleeps until \<open>refill_task_start\<close> wakes it. An entry of the
  script is a round and whether the thread is told to stop before it; a script that ends stands for a
  thread that still sleeps.\<close>

fun refil_thread :: "((nat \<Rightarrow> refill_env) \<times> bool) list \<Rightarrow> kthread_pool \<Rightarrow> kthread_pool option" where
  "refil_thread [] P = Some P"
| "refil_thread ((e, should_stop) # rs) P =
     (if should_stop then Some P else do { P \<leftarrow> refill_pool e P; refil_thread rs P })"

definition refill_task_start :: "kthread_pool \<Rightarrow> kthread_pool" where
  "refill_task_start P = P\<lparr>refills := refills P + 1\<rparr>"

definition kthread_pool_alloc :: "ctx \<Rightarrow> kthread_pool \<Rightarrow> (u64 \<times> kthread_pool) option" where
  "kthread_pool_alloc x P = do {
     let P = refill_task_start P;
     (elem, a) \<leftarrow> mag_alloc_elem (fst x) (snd x) (pool_alloc P);
     Some (elem, P\<lparr>pool_alloc := a\<rparr>) }"

definition kthread_pool_run_mask :: "ctx \<Rightarrow> pool_fn \<Rightarrow> cpu option \<Rightarrow> kthread_pool \<Rightarrow>
    (u64 kptr \<times> kthread_pool) option" where
  "kthread_pool_run_mask x func cmask P = do {
     (elem, P) \<leftarrow> kthread_pool_alloc x P;
     if elem = 0 then Some (ERR_PTR (- ENOMEM), P)
     else do {
       e \<leftarrow> elems P elem;
       let P = (if pool_task e \<noteq> None then P\<lparr>twice := twice P + 1\<rparr> else P);
       let P = P\<lparr>elems := (elems P)(elem \<mapsto> e\<lparr>pool_task := Some func\<rparr>)\<rparr>;
       if \<exists>k. task e = PTR k then Some (PTR elem, P\<lparr>wakeups := wakeups P @ [(elem, cmask)]\<rparr>)
       else None } }"


definition kthread_pool_run :: "ctx \<Rightarrow> pool_fn \<Rightarrow> kthread_pool \<Rightarrow> (u64 kptr \<times> kthread_pool) option" where
  "kthread_pool_run x func P = kthread_pool_run_mask x func None P"

text \<open>The pool is static storage, zero except for \<open>pool_size\<close>; \<open>kz\<close> are the allocations for the cores.\<close>

definition cbn_kthread_pool_init :: "(cpu \<Rightarrow> bool \<Rightarrow> u64) \<Rightarrow> nat \<Rightarrow> kthread_pool \<Rightarrow> kthread_pool option" where
  "cbn_kthread_pool_init kz nr_cpus P = do {
     let P = P\<lparr>top_count := 0\<rparr>;
     a \<leftarrow> mag_allocator_init kz nr_cpus (pool_alloc P);
     Some (P\<lparr>pool_alloc := a\<rparr>) }"

text \<open>\<open>parse_module_params\<close> of \<^verbatim>\<open>split.c\<close>.\<close>

definition parse_module_params :: "s32 \<Rightarrow> kthread_pool \<Rightarrow> kthread_pool" where
  "parse_module_params param P = (if 0 < sint param then P\<lparr>pool_size := param\<rparr> else P)"

definition cbn_pool0 :: kthread_pool where
  "cbn_pool0 = \<lparr>top_count = 0, pool_size = DEF_CBN_POOL_SIZE, pool_alloc = mag_state0, elems = Map.empty,
     wakeups = [], refills = 0, twice = 0\<rparr>"

section \<open>The pool as a machine\<close>

text \<open>Idle threads are in the allocator and have no task; all others are running one.\<close>

definition pool_inv :: "kthread_pool \<Rightarrow> bool" where
  "pool_inv P \<longleftrightarrow> mag_inv (pool_alloc P) \<and> (\<forall>e. Multiset.count (contents (pool_alloc P)) e \<le> 1) \<and>
     0 \<notin># contents (pool_alloc P) \<and> set_mset (contents (pool_alloc P)) \<subseteq> dom (elems P) \<and>
     (\<forall>e x. elems P e = Some x \<longrightarrow> e \<noteq> 0 \<and> (\<exists>k. task x = PTR k) \<and>
        (pool_task x = None \<longleftrightarrow> e \<in># contents (pool_alloc P)))"

definition on_core :: "ctx \<Rightarrow> kthread_pool \<Rightarrow> bool" where
  "on_core x P \<longleftrightarrow> fst x < length (pcp_pair (allocator (pool_alloc P)))"

text \<open>A round of the refill loop for which memory and a thread are available.\<close>

definition refill_ok :: "refill_env \<Rightarrow> kthread_pool \<Rightarrow> bool" where
  "refill_ok e P \<longleftrightarrow> slab_elem e \<noteq> 0 \<and> elems P (slab_elem e) = None \<and> (\<exists>k. new_kthread e = PTR k) \<and>
     on_core (refill_ctx e) P \<and> kz_fresh (refill_kz e) (pool_alloc P)"

inductive pool_step :: "kthread_pool \<Rightarrow> kthread_pool \<Rightarrow> bool" where
  dispatch: "on_core x P \<Longrightarrow> kthread_pool_run_mask x f cmask P = Some (r, P') \<Longrightarrow> pool_step P P'"
| finish: "on_core x P \<Longrightarrow> kz_fresh kz (pool_alloc P) \<Longrightarrow> elems P e = Some y \<Longrightarrow> pool_task y = Some f \<Longrightarrow>
    pipe_loop_task False kz x e P = Some P' \<Longrightarrow> pool_step P P'"
| refill: "refill_ok (e 0) P \<Longrightarrow> refill_loop e 1 P = Some P' \<Longrightarrow> pool_step P P'"

definition pool_init :: "kthread_pool \<Rightarrow> bool" where
  "pool_init P \<longleftrightarrow> mag_inv (pool_alloc P) \<and> contents (pool_alloc P) = {#} \<and> elems P = Map.empty"

lemma mag_free_mem:
  assumes "mag_free_elem kz c b e s = Some s'"
  shows "dom (mem s') \<subseteq> insert (ALIGN kz L1_CACHE_BYTES) (dom (mem s))"
proof -
  obtain p m q a m' q' a' where st: "mag_pair_free (mem s) p e = Some (m, q)"
    "(if mag_pair_count q = push_bit 1 (of_nat MAG_DEPTH) then mag_allocator_switch_full kz (allocator s) m q
      else Some (allocator s, m, q)) = Some (a, m', q')" "s' = s\<lparr>mem := m', allocator := a'\<rparr>"
    using assms by (auto simp: mag_free_elem_def bind_eq_Some_conv)
  have "dom m = dom (mem s)"
    using st(1) by (auto simp: mag_pair_free_def bind_eq_Some_conv Let_def split: if_splits)
  moreover have "dom m' \<subseteq> insert (ALIGN kz L1_CACHE_BYTES) (dom m)"
    using st(2) by (auto simp: mag_allocator_switch_full_def bind_eq_Some_conv Let_def split: if_splits list.splits)
  ultimately show ?thesis using st(3) by simp
qed

lemma run_mask_ok:
  assumes inv: "pool_inv P" and x: "on_core x P"
  shows "if cpu_empty (pool_alloc P) (fst x) (snd x)
    then kthread_pool_run_mask x f cmask P = Some (ERR_PTR (- ENOMEM), refill_task_start P)
    else \<exists>e y P'. kthread_pool_run_mask x f cmask P = Some (PTR e, P') \<and> elems P e = Some y \<and> pool_task y = None \<and>
      elems P' = (elems P)(e \<mapsto> y\<lparr>pool_task := Some f\<rparr>) \<and> mag_inv (pool_alloc P') \<and>
      contents (pool_alloc P) = add_mset e (contents (pool_alloc P')) \<and> twice P' = twice P \<and>
      wakeups P' = wakeups P @ [(e, cmask)] \<and> refills P' = refills P + 1 \<and>
      length (pcp_pair (allocator (pool_alloc P'))) = length (pcp_pair (allocator (pool_alloc P)))"
proof -
  have m: "mag_inv (pool_alloc P)" "fst x < length (pcp_pair (allocator (pool_alloc P)))"
    using inv x by (auto simp: pool_inv_def on_core_def)
  obtain e a where al: "mag_alloc_elem (fst x) (snd x) (pool_alloc P) = Some (e, a)" "mag_inv a"
    "if cpu_empty (pool_alloc P) (fst x) (snd x) then e = 0 \<and> a = pool_alloc P
     else contents (pool_alloc P) = add_mset e (contents a)"
    "length (pcp_pair (allocator a)) = length (pcp_pair (allocator (pool_alloc P)))"
    using mag_alloc_elem_ok [OF m, of "snd x"] by blast
  note run = kthread_pool_run_mask_def kthread_pool_alloc_def refill_task_start_def
  show ?thesis
  proof (cases "cpu_empty (pool_alloc P) (fst x) (snd x)")
    case True
    then show ?thesis using al by (cases P) (simp add: run)
  next
    case False
    then have c: "contents (pool_alloc P) = add_mset e (contents a)" using al(3) by simp
    then have "e \<in># contents (pool_alloc P)" by simp
    then obtain y k where y: "elems P e = Some y" "e \<noteq> 0" "task y = PTR k" "pool_task y = None"
      using inv unfolding pool_inv_def by blast
    then show ?thesis
      using False al(1,2,4) c by (simp add: run)
  qed
qed

lemma pool_step_dispatch:
  assumes inv: "pool_inv P" and x: "on_core x P" and r: "kthread_pool_run_mask x f cmask P = Some (r, P')"
  shows "pool_inv P'"
proof (cases "cpu_empty (pool_alloc P) (fst x) (snd x)")
  case True
  then have "P' = refill_task_start P" using run_mask_ok [OF inv x, of f cmask] r by simp
  then show ?thesis using inv by (auto simp: pool_inv_def refill_task_start_def)
next
  case False
  with run_mask_ok [OF inv x, of f cmask] r obtain e y where y: "elems P e = Some y" "pool_task y = None"
    "elems P' = (elems P)(e \<mapsto> y\<lparr>pool_task := Some f\<rparr>)" "mag_inv (pool_alloc P')"
    "contents (pool_alloc P) = add_mset e (contents (pool_alloc P'))" by auto
  let ?C = "contents (pool_alloc P')"
  have le: "Multiset.count (add_mset e ?C) z \<le> 1" for z using inv y(5) by (simp add: pool_inv_def)
  have e: "e \<notin># ?C" using le [of e] by (simp add: not_in_iff)
  have "Multiset.count ?C z \<le> 1" for z using le [of z] by (simp split: if_splits)
  moreover have "set_mset ?C \<subseteq> dom (elems P')" "0 \<notin># ?C" using inv y(3,5) by (auto simp: pool_inv_def)
  moreover have "z \<noteq> 0 \<and> (\<exists>k. task w = PTR k) \<and> (pool_task w = None \<longleftrightarrow> z \<in># ?C)" if "elems P' z = Some w" for z w
    using inv that y e by (auto simp: pool_inv_def split: if_splits)
  ultimately show ?thesis using y(4) by (simp add: pool_inv_def)
qed

text \<open>An element that is not in the pool goes into it.\<close>

lemma pool_inv_add:
  assumes inv: "pool_inv P" and x: "on_core x P" and kz: "kz_fresh kz (pool_alloc P)"
    and e: "e \<noteq> 0" "e \<notin># contents (pool_alloc P)" and y: "task y = PTR k" "pool_task y = None"
  shows "\<exists>a. mag_free_elem kz (fst x) (snd x) e (pool_alloc P) = Some a \<and> contents a = add_mset e (contents (pool_alloc P)) \<and>
    length (pcp_pair (allocator a)) = length (pcp_pair (allocator (pool_alloc P))) \<and>
    (\<forall>tc. pool_inv (P\<lparr>elems := (elems P)(e \<mapsto> y), pool_alloc := a, top_count := tc\<rparr>))"
proof -
  have m: "mag_inv (pool_alloc P)" "fst x < length (pcp_pair (allocator (pool_alloc P)))"
    using inv x by (auto simp: pool_inv_def on_core_def)
  obtain a where a: "mag_free_elem kz (fst x) (snd x) e (pool_alloc P) = Some a" "mag_inv a"
    "contents a = add_mset e (contents (pool_alloc P))"
    "length (pcp_pair (allocator a)) = length (pcp_pair (allocator (pool_alloc P)))"
    using mag_free_elem_ok [OF m kz] by blast
  have "Multiset.count (add_mset e (contents (pool_alloc P))) z \<le> 1" for z
    using inv e(2) by (auto simp: pool_inv_def not_in_iff)
  then have "pool_inv (P\<lparr>elems := (elems P)(e \<mapsto> y), pool_alloc := a, top_count := tc\<rparr>)" for tc
    using inv a(2,3) e y unfolding pool_inv_def by auto
  then show ?thesis using a by blast
qed

lemma refill_loop_one:
  assumes inv: "pool_inv P" and e: "refill_ok (e n) P"
  shows "\<exists>P1. refill_loop e (Suc n) P = refill_loop e n P1 \<and> pool_inv P1 \<and>
    contents (pool_alloc P1) = add_mset (slab_elem (e n)) (contents (pool_alloc P)) \<and>
    top_count P1 = top_count P + 1 \<and> dom (elems P1) = insert (slab_elem (e n)) (dom (elems P)) \<and>
    length (pcp_pair (allocator (pool_alloc P1))) = length (pcp_pair (allocator (pool_alloc P))) \<and>
    dom (mem (pool_alloc P1)) \<subseteq> insert (ALIGN (refill_kz (e n)) L1_CACHE_BYTES) (dom (mem (pool_alloc P)))"
proof -
  obtain k where k: "slab_elem (e n) \<noteq> 0" "elems P (slab_elem (e n)) = None" "new_kthread (e n) = PTR k"
    "on_core (refill_ctx (e n)) P" "kz_fresh (refill_kz (e n)) (pool_alloc P)"
    using e by (auto simp: refill_ok_def)
  have "slab_elem (e n) \<notin># contents (pool_alloc P)" using inv k(2) by (auto simp: pool_inv_def)
  from pool_inv_add [OF inv k(4,5,1) this, of "\<lparr>task = PTR k, pool_task = None\<rparr>" k]
  obtain a where a: "mag_free_elem (refill_kz (e n)) (fst (refill_ctx (e n))) (snd (refill_ctx (e n))) (slab_elem (e n))
      (pool_alloc P) = Some a" "contents a = add_mset (slab_elem (e n)) (contents (pool_alloc P))"
    "length (pcp_pair (allocator a)) = length (pcp_pair (allocator (pool_alloc P)))"
    "pool_inv (P\<lparr>elems := (elems P)(slab_elem (e n) \<mapsto> \<lparr>task = PTR k, pool_task = None\<rparr>), pool_alloc := a,
       top_count := top_count P + 1\<rparr>)" by auto
  let ?P1 = "P\<lparr>elems := (elems P)(slab_elem (e n) \<mapsto> \<lparr>task = PTR k, pool_task = None\<rparr>), pool_alloc := a,
       top_count := top_count P + 1\<rparr>"
  have "refill_loop e (Suc n) P = refill_loop e n ?P1" using k(1,3) a(1) by (simp add: Let_def)
  then show ?thesis using a(2-4) mag_free_mem [OF a(1)] by (intro exI [of _ ?P1]) simp
qed

lemma pool_step_finish:
  assumes inv: "pool_inv P" and x: "on_core x P" and kz: "kz_fresh kz (pool_alloc P)"
    and y: "elems P e = Some y" "pool_task y = Some f"
  shows "\<exists>P'. pipe_loop_task False kz x e P = Some P' \<and> pool_inv P' \<and>
    contents (pool_alloc P') = add_mset e (contents (pool_alloc P)) \<and> elems P' = (elems P)(e \<mapsto> y\<lparr>pool_task := None\<rparr>)"
proof -
  obtain k where e: "e \<noteq> 0" "e \<notin># contents (pool_alloc P)" "task y = PTR k"
    using inv y unfolding pool_inv_def by (metis option.distinct(1))
  have "pool_inv (P\<lparr>elems := (elems P)(e \<mapsto> y\<lparr>pool_task := None\<rparr>), pool_alloc := a\<rparr>)"
    if "\<forall>tc. pool_inv (P\<lparr>elems := (elems P)(e \<mapsto> y\<lparr>pool_task := None\<rparr>), pool_alloc := a, top_count := tc\<rparr>)" for a
    using that by (simp add: pool_inv_def)
  with pool_inv_add [OF inv x kz e(1,2), of "y\<lparr>pool_task := None\<rparr>" k] e(3) y(1) show ?thesis
    by (auto simp: pipe_loop_task_def kthread_pool_reuse_def)
qed

interpretation pool: invariant_system pool_init pool_step pool_inv
proof
  show "pool_inv P" if "pool_init P" for P using that by (auto simp: pool_init_def pool_inv_def)
  show "pool_inv P'" if "pool_inv P" "pool_step P P'" for P P'
    using that(2,1)
  proof cases
    case (dispatch x f cmask r)
    then show ?thesis using pool_step_dispatch that(1) by blast
  next
    case (finish x kz e y f)
    then show ?thesis using pool_step_finish [OF that(1)] by fastforce
  next
    case (refill e)
    then show ?thesis using refill_loop_one [OF that(1), of e 0] by auto
  qed
qed

section \<open>Filling the pool\<close>

lemma length_concat_const: "\<forall>x \<in> set xs. length (f x) = n \<Longrightarrow> length (concat (map f xs)) = n * length xs"
  by (induction xs) auto

text \<open>Full magazines hold four elements each.\<close>

lemma full_count_le:
  assumes inv: "mag_inv s"
  shows "4 * unat (full_count (allocator s)) \<le> size (contents s)"
proof -
  let ?a = "allocator s"
  have "length (stack_of (mem s) f) = 4" if "f \<in> set (full_list ?a)" for f
  proof -
    have "f \<in> set (all_mags (all_pairs ?a) ?a)" using that by (simp add: all_mags_def)
    then obtain g where "mem s f = Some g" "length (stack g) = 4"
      using inv unfolding mag_inv_def mags_ok_def by blast
    then show ?thesis by simp
  qed
  then have "length (concat (map (stack_of (mem s)) (full_list ?a))) = 4 * length (full_list ?a)"
    by (intro length_concat_const) blast
  moreover have "unat (full_count ?a) \<le> length (full_list ?a)"
  proof -
    have "full_count ?a = of_nat (length (full_list ?a))" using inv by (simp add: mag_inv_def mags_ok_def)
    then show ?thesis by (simp add: unat_of_nat)
  qed
  ultimately show ?thesis by (simp add: contents_def bag_def)
qed

lemma refill_count_ge:
  assumes "0 \<le> sint (pool_size P)"
  shows "sint (pool_size P) - 4 * int (unat (full_count (allocator (pool_alloc P)))) \<le> int (unat (refill_count P))"
proof -
  let ?fc = "full_count (allocator (pool_alloc P))"
  let ?b = "push_bit 2 (ucast ?fc) :: s32"
  have fc: "uint ?fc < 65536" "0 \<le> uint ?fc" using unsigned_less [of ?fc] by simp_all
  have ub: "uint ?b = 4 * uint ?fc"
    unfolding unsigned_push_bit_eq unsigned_ucast_eq using fc by (simp add: take_bit_int_eq_self push_bit_eq_mult)
  have sb: "sint ?b = 4 * uint ?fc"
    unfolding sint_uint ub by (rule signed_take_bit_int_eq_self) (use fc in \<open>simp_all add: order_trans [of _ 0]\<close>)
  obtain u where u: "uint ?fc = u" "0 \<le> u" "u < 65536" using fc by blast
  have "sint (pool_size P - ?b) = sint (pool_size P) - sint ?b"
    unfolding sint_word_ariths sb u(1)
    by (rule signed_take_bit_int_eq_self) (use assms u sint_lt [of "pool_size P"] in auto)
  moreover have le: "sint w \<le> uint w" if "0 \<le> sint w" for w :: s32
  proof -
    have "take_bit 32 (uint w) = uint w" by (rule take_bit_int_eq_self) (use unsigned_less [of w] in simp_all)
    then show ?thesis using that by (simp add: sint_uint signed_take_bit_eq_take_bit_minus)
  qed
  ultimately show ?thesis
    using sb le [of "pool_size P - ?b"] by (simp add: refill_count_def Let_def)
qed

text \<open>What the refill loop needs for \<open>n\<close> rounds: new objects, threads, an existing core, and distinct
  memory for magazines.\<close>

definition refill_envs_ok :: "(nat \<Rightarrow> refill_env) \<Rightarrow> nat \<Rightarrow> kthread_pool \<Rightarrow> bool" where
  "refill_envs_ok e n P \<longleftrightarrow> (\<forall>i < n. refill_ok (e i) P) \<and> inj_on (\<lambda>i. slab_elem (e i)) {..<n} \<and>
     inj_on (\<lambda>i. ALIGN (refill_kz (e i)) L1_CACHE_BYTES) {..<n}"

lemma refill_loop_ok:
  assumes "pool_inv P" and "refill_envs_ok e n P"
  shows "\<exists>P'. refill_loop e n P = Some P' \<and> pool_inv P' \<and>
    contents (pool_alloc P') = mset (map (\<lambda>i. slab_elem (e i)) [0..<n]) + contents (pool_alloc P) \<and>
    top_count P' = top_count P + of_nat n"
  using assms
proof (induction n arbitrary: P)
  case (Suc n)
  have ok: "refill_ok (e n) P" using Suc.prems(2) by (simp add: refill_envs_ok_def)
  obtain P1 where P1: "refill_loop e (Suc n) P = refill_loop e n P1" "pool_inv P1"
    "contents (pool_alloc P1) = add_mset (slab_elem (e n)) (contents (pool_alloc P))" "top_count P1 = top_count P + 1"
    "dom (elems P1) = insert (slab_elem (e n)) (dom (elems P))"
    "length (pcp_pair (allocator (pool_alloc P1))) = length (pcp_pair (allocator (pool_alloc P)))"
    "dom (mem (pool_alloc P1)) \<subseteq> insert (ALIGN (refill_kz (e n)) L1_CACHE_BYTES) (dom (mem (pool_alloc P)))"
    using refill_loop_one [OF Suc.prems(1), of e n] ok by blast
  have "refill_ok (e i) P1" if "i < n" for i
  proof -
    have "refill_ok (e i) P" "slab_elem (e i) \<noteq> slab_elem (e n)"
      "ALIGN (refill_kz (e i)) L1_CACHE_BYTES \<noteq> ALIGN (refill_kz (e n)) L1_CACHE_BYTES"
      using Suc.prems(2) that by (auto simp: refill_envs_ok_def inj_on_def)
    then show ?thesis using P1(5-7) by (auto simp: refill_ok_def on_core_def kz_fresh_def)
  qed
  then have "refill_envs_ok e n P1"
    using Suc.prems(2) by (auto simp: refill_envs_ok_def inj_on_def)
  from Suc.IH [OF P1(2) this] P1(1,3,4) show ?case by (auto simp: ac_simps)
qed simp

text \<open>A pool of one core and size one, before and after its first refill.\<close>

definition ex_refill :: "nat kptr \<Rightarrow> nat \<Rightarrow> refill_env" where
  "ex_refill k i = \<lparr>slab_elem = 7, new_kthread = k, refill_ctx = (0, False), refill_kz = 0x3000\<rparr>"

definition ex_pool1 :: kthread_pool where
  "ex_pool1 = cbn_pool0\<lparr>pool_size := 1, pool_alloc := mag_state1\<rparr>"

definition ex_pool2 :: kthread_pool where
  "ex_pool2 = ex_pool1\<lparr>elems := [7 \<mapsto> \<lparr>task = PTR 1, pool_task = None\<rparr>], pool_alloc := mag_state2, top_count := 1\<rparr>"

lemma ex_free: "mag_free_elem 0x3000 0 False 7 mag_state1 = Some mag_state2"
  using mag_free_elem_ok [OF mag_state1_inv(1) _ mag_state1_fresh, of 0 False 7] mag_state1_inv
  by (auto simp: mag_state2_def)

lemma ex_pool_reach: "reach pool_init pool_step ex_pool1" "reach pool_init pool_step ex_pool2"
proof -
  show 1: "reach pool_init pool_step ex_pool1"
    by (rule reach_init) (simp add: pool_init_def ex_pool1_def cbn_pool0_def mag_state1_inv)
  have "refill_loop (ex_refill (PTR 1)) 1 ex_pool1 = Some ex_pool2"
    by (simp add: ex_pool2_def ex_pool1_def cbn_pool0_def ex_refill_def ex_free Let_def)
  moreover have "refill_ok (ex_refill (PTR 1) 0) ex_pool1"
    using mag_state1_inv mag_state1_fresh by (simp add: refill_ok_def ex_refill_def ex_pool1_def cbn_pool0_def on_core_def)
  ultimately show "reach pool_init pool_step ex_pool2" using 1 by (blast intro: reach_step pool_step.refill)
qed

section \<open>Properties\<close>



text \<open>C22. The refill loop ends, and if memory and threads are available it leaves at least \<open>pool_size\<close> idle
  threads in the pool, each of them new or idle before.\<close>

theorem pool_refill:
  assumes "reach pool_init pool_step P" and "refill_envs_ok e (unat (refill_count P)) P" and "0 \<le> sint (pool_size P)"
  shows "\<exists>P'. refill_pool e P = Some P' \<and> pool_inv P' \<and> sint (pool_size P) \<le> int (size (contents (pool_alloc P'))) \<and>
    contents (pool_alloc P') = mset (map (\<lambda>i. slab_elem (e i)) [0..<unat (refill_count P)]) + contents (pool_alloc P)"
proof -
  have inv: "pool_inv P" by (rule pool.reach_inv [OF assms(1)])
  obtain P' where P': "refill_loop e (unat (refill_count P)) P = Some P'" "pool_inv P'"
    "contents (pool_alloc P') = mset (map (\<lambda>i. slab_elem (e i)) [0..<unat (refill_count P)]) + contents (pool_alloc P)"
    using refill_loop_ok [OF inv assms(2)] by blast
  have "int (size (contents (pool_alloc P'))) = int (unat (refill_count P)) + int (size (contents (pool_alloc P)))"
    using P'(3) by simp
  moreover have "4 * unat (full_count (allocator (pool_alloc P))) \<le> size (contents (pool_alloc P))"
    using inv by (intro full_count_le) (simp add: pool_inv_def)
  ultimately have "sint (pool_size P) \<le> int (size (contents (pool_alloc P')))"
    using refill_count_ge [OF assms(3)] by linarith
  then show ?thesis using P' by (simp add: refill_pool_def)
qed

theorem pool_refill_witness:
  "\<exists>P'. refill_pool (ex_refill (PTR 1)) ex_pool1 = Some P' \<and> pool_inv P' \<and> contents (pool_alloc P') = {#7#}"
proof -
  have n: "refill_count ex_pool1 = 1"
    by (simp add: refill_count_def ex_pool1_def cbn_pool0_def mag_state1_eq)
  have "refill_envs_ok (ex_refill (PTR 1)) 1 ex_pool1"
    using mag_state1_inv mag_state1_fresh
    by (simp add: refill_envs_ok_def inj_on_def refill_ok_def ex_refill_def ex_pool1_def cbn_pool0_def on_core_def)
  then show ?thesis
    using pool_refill [OF ex_pool_reach(1), of "ex_refill (PTR 1)"] n mag_state1_inv
    by (auto simp: ex_refill_def ex_pool1_def cbn_pool0_def)
qed

text \<open>\<open>kthread_create\<close> reports a failure by an error pointer, which the test for \<open>NULL\<close> lets through: the
  element goes into the pool like any other, and the next function started on that core oopses in
  \<open>kthread_bind_mask\<close>.\<close>

theorem refill_error_pointer:
  assumes "mag_inv (pool_alloc P)" and "contents (pool_alloc P) = {#}" and "new_kthread (e 0) = ERR_PTR v"
    and "slab_elem (e 0) \<noteq> 0" and "on_core (refill_ctx (e 0)) P" and "kz_fresh (refill_kz (e 0)) (pool_alloc P)"
  shows "\<exists>P'. refill_loop e 1 P = Some P' \<and> slab_elem (e 0) \<in># contents (pool_alloc P') \<and>
    (\<not> cpu_empty (pool_alloc P') (fst x) (snd x) \<longrightarrow> on_core x P \<longrightarrow> kthread_pool_run x f P' = None)"
proof -
  obtain a where a: "mag_free_elem (refill_kz (e 0)) (fst (refill_ctx (e 0))) (snd (refill_ctx (e 0))) (slab_elem (e 0))
      (pool_alloc P) = Some a" "mag_inv a" "contents a = {#slab_elem (e 0)#}"
    "length (pcp_pair (allocator a)) = length (pcp_pair (allocator (pool_alloc P)))"
    using mag_free_elem_ok [OF assms(1) _ assms(6)] assms(2,5) by (fastforce simp: on_core_def)
  let ?P' = "P\<lparr>elems := (elems P)(slab_elem (e 0) \<mapsto> \<lparr>task = ERR_PTR v, pool_task = None\<rparr>), pool_alloc := a,
      top_count := top_count P + 1\<rparr>"
  have "refill_loop e 1 P = Some ?P'" using a(1) assms(3,4) by (simp add: Let_def)
  moreover have "kthread_pool_run x f ?P' = None" if ne: "\<not> cpu_empty a (fst x) (snd x)" and oc: "on_core x P"
  proof -
    obtain z a' where "mag_alloc_elem (fst x) (snd x) a = Some (z, a')" "contents a = add_mset z (contents a')"
      using mag_alloc_elem_ok [OF a(2), of "fst x" "snd x"] ne oc a(4) unfolding on_core_def by metis
    then show ?thesis
      using a(3) assms(4)
      by (auto simp: kthread_pool_run_def kthread_pool_run_mask_def kthread_pool_alloc_def refill_task_start_def Let_def)
  qed
  ultimately show ?thesis using a(3) by auto
qed

theorem refill_error_pointer_witness:
  "\<exists>P'. refill_loop (ex_refill (ERR_PTR (- 12))) 1 ex_pool1 = Some P' \<and>
    kthread_pool_run (0, False) (Other_task 3) P' = None"
proof -
  have "pool_alloc P' = mag_state2" if "refill_loop (ex_refill (ERR_PTR (- 12))) 1 ex_pool1 = Some P'" for P'
    using that by (auto simp: ex_pool1_def cbn_pool0_def ex_refill_def ex_free Let_def)
  then show ?thesis
    using refill_error_pointer [of ex_pool1 "ex_refill (ERR_PTR (- 12))" "- 12" "(0, False)" "Other_task 3"]
      mag_state1_inv mag_state1_fresh mag_state2_inv
    by (fastforce simp: ex_refill_def ex_pool1_def cbn_pool0_def on_core_def)
qed

end
