(* ===== verification/Proc_Debug.thy ===== *)
theory Proc_Debug
  imports Conn_Pool Split_Server
begin

unbundle bit_operations_syntax

text \<open>
  The files under \<^verbatim>\<open>/proc/cbn\<close>: the commands of \<^verbatim>\<open>tcpsplit/proc.c\<close> (start and stop a server, prepare
  connections, switch transparent mode), what its files show, and the dump of the pending connections in
  \<^verbatim>\<open>tcpsplit/debug.c\<close>.

  Parsing the numbers of a command is \<open>get_options\<close> of the kernel, which is a parameter: given the text
  and the length of the array it fills in the array, whose first element is the count of numbers read.
  \<open>memdup_user_nul\<close> is its result, an error or the text. Texts are lists of characters; what is copied to
  a user's buffer is the list of the pieces with their offsets.
\<close>

section \<open>Commands\<close>

record proc_env =
  memdup_user_nul :: "int + string"
  get_options :: "string \<Rightarrow> nat \<Rightarrow> s32 list"

abbreviation (input) PROC_CSV_NUM :: nat where "PROC_CSV_NUM \<equiv> 2"
abbreviation (input) IP_LEN :: nat where "IP_LEN \<equiv> 4"

text \<open>The beginning that all commands share: the size check, the copy of the text, the parser.\<close>

definition proc_values :: "proc_env \<Rightarrow> nat \<Rightarrow> nat \<Rightarrow> int + s32 list" where
  "proc_values e n sz =
     (if sz \<le> 1 \<or> PAGE_SIZE \<le> sz then Inl (- EINVAL)
      else case memdup_user_nul e of Inl err \<Rightarrow> Inl err | Inr kbuf \<Rightarrow> Inr (get_options e kbuf n))"

definition cbn_add_server :: "proc_env \<Rightarrow> nat \<Rightarrow> cp_state \<Rightarrow> (int \<times> cp_state) option" where
  "cbn_add_server e sz s = (case proc_values e (PROC_CSV_NUM + 1) sz of
     Inl err \<Rightarrow> Some (err, s)
   | Inr values \<Rightarrow> do {
       n \<leftarrow> arr_get values 0;
       v1 \<leftarrow> arr_get values 1;
       v2 \<leftarrow> arr_get values 2;
       Some (if n = of_nat PROC_CSV_NUM then (int sz, s\<lparr>base := add_server_cb v1 v2 (base s)\<rparr>) else (- EINVAL, s)) })"

definition cbn_del_server :: "rbtree_lib \<Rightarrow> proc_env \<Rightarrow> nat \<Rightarrow> cp_state \<Rightarrow> (int \<times> cp_state) option" where
  "cbn_del_server L e sz s = (case proc_values e (PROC_CSV_NUM + 1) sz of
     Inl err \<Rightarrow> Some (err, s)
   | Inr values \<Rightarrow> do {
       n \<leftarrow> arr_get values 0;
       v1 \<leftarrow> arr_get values 1;
       if n = 1 then do { b \<leftarrow> del_server_cb L v1 (base s); Some (int sz, s\<lparr>base := b\<rparr>) }
       else Some (- EINVAL, s) })"

definition preconn_proc_command :: "cpu list \<Rightarrow> proc_env \<Rightarrow> nat \<Rightarrow> cp_state \<Rightarrow> (int \<times> cp_state) option" where
  "preconn_proc_command cpus e sz s = (case proc_values e (IP_LEN + 1) sz of
     Inl err \<Rightarrow> Some (err, s)
   | Inr values \<Rightarrow> do {
       n \<leftarrow> arr_get values 0;
       Some (if n = of_nat IP_LEN then (int sz, preconn_write_cb cpus (tl values) s) else (- EINVAL, s)) })"

definition cbn_transparent_command :: "proc_env \<Rightarrow> nat \<Rightarrow> cp_state \<Rightarrow> (int \<times> cp_state) option" where
  "cbn_transparent_command e sz s = (case proc_values e 2 sz of
     Inl err \<Rightarrow> Some (err, s)
   | Inr values \<Rightarrow> do {
       n \<leftarrow> arr_get values 0;
       v1 \<leftarrow> arr_get values 1;
       Some (if n = 1 \<and> (v1 = 0 \<or> v1 = 1) then (int sz, s\<lparr>base := (base s)\<lparr>ip_transparent := v1\<rparr>\<rparr>)
             else (- EINVAL, s)) })"

section \<open>What the files show\<close>

text \<open>The text of a C string; the result of a show function and the text it puts into the file.\<close>

definition c_text :: "string \<Rightarrow> string" where
  "c_text buffer = takeWhile (\<lambda>c. c \<noteq> CHR 0x00) buffer"

definition cbn_proc_show :: "bool \<Rightarrow> cp_state \<Rightarrow> (int \<times> string) option" where
  "cbn_proc_show kzalloc_ok s = do {
     r \<leftarrow> proc_read_string kzalloc_ok (base s);
     (case r of
        None \<Rightarrow> Some (- EAGAIN, [])
      | Some (idx, buffer) \<Rightarrow>
          Some (int idx, (if idx \<noteq> 0 then c_text buffer else []) @ ''buffer len = '' @ int_dec (int idx) @ ''/4096'')) }"

definition cbn_transparent_show :: "cp_state \<Rightarrow> int \<times> string" where
  "cbn_transparent_show s = (0, nat_dec (unat (ip_transparent (base s))) @ [CHR 0x0A])"

section \<open>The dump of pending connections\<close>

abbreviation (input) STRLEN :: nat where "STRLEN \<equiv> 256"

definition scnprintf :: "nat \<Rightarrow> string \<Rightarrow> string" where
  "scnprintf sz str = take (sz - 1) str"

text \<open>
  \<open>copy_to_user\<close> for an offset into the user's buffer: the number of bytes it could not copy. Offsets are
  \<open>int\<close>s. \<open>printout\<close> records what was copied.
\<close>

type_synonym dump = "(s32 \<times> string) list"

definition printout :: "(s32 \<Rightarrow> string \<Rightarrow> s32) \<Rightarrow> s32 \<Rightarrow> string \<Rightarrow> dump \<Rightarrow> s32 \<times> dump" where
  "printout copy loc str out = (copy loc str, out @ [(loc, str)])"

definition tcp4 :: "u32 \<Rightarrow> u16 \<Rightarrow> string" where
  "tcp4 ad prt = concat (map (\<lambda>b. nat_dec (unat b) @ ''.'') (butlast (bytes32 ad))) @ nat_dec (unat (last (bytes32 ad))) @
     '':'' @ nat_dec (unat prt)"

text \<open>\<open>%p\<close> of a QP is a parameter.\<close>

definition dump_qp2user :: "(addr \<Rightarrow> string) \<Rightarrow> cpu \<Rightarrow> addr \<Rightarrow> cbn_qp \<Rightarrow> string" where
  "dump_qp2user ptr c q x = scnprintf STRLEN
     (''[cpu = '' @ nat_dec c @ '', rc  = '' @ nat_dec (unat (ref_cnt x)) @ '']:QP ['' @
      (if tx x \<noteq> NULL then ''TX'' else []) @ '':'' @ (if rx x \<noteq> NULL then ''RX'' else []) @ ''] '' @ ptr q @ '': '' @
      tcp4 (addr_s x) (ntohs (port_s x)) @ '' => '' @ tcp4 (addr_d x) (ntohs (port_d x)) @ [CHR 0x0A])"

fun dump_pending_connections :: "(s32 \<Rightarrow> string \<Rightarrow> s32) \<Rightarrow> (addr \<Rightarrow> string) \<Rightarrow> (addr \<rightharpoonup> cbn_qp) \<Rightarrow> cpu \<Rightarrow> s32 \<Rightarrow> addr list \<Rightarrow>
    dump \<Rightarrow> (s32 \<times> dump) option" where
  "dump_pending_connections copy ptr qs c loc [] out = Some (loc, out)"
| "dump_pending_connections copy ptr qs c loc (q # nodes) out = do {
     x \<leftarrow> qs q;
     let str = dump_qp2user ptr c q x;
     let (rc, out) = printout copy loc str out;
     if rc \<noteq> 0 then Some (rc, out)
     else dump_pending_connections copy ptr qs c (loc + of_nat (length str)) nodes out }"

fun dump_connections_per_tennat :: "(s32 \<Rightarrow> string \<Rightarrow> s32) \<Rightarrow> (addr \<Rightarrow> string) \<Rightarrow> (addr \<rightharpoonup> cbn_qp) \<Rightarrow> cbn_listner \<Rightarrow>
    cpu list \<Rightarrow> s32 \<Rightarrow> dump \<Rightarrow> (s32 \<times> dump) option" where
  "dump_connections_per_tennat copy ptr qs li [] loc out = Some (loc, out)"
| "dump_connections_per_tennat copy ptr qs li (c # cpus) loc out = do {
     (rc, out) \<leftarrow> dump_pending_connections copy ptr qs c loc (inorder (connections_root li c)) out;
     if sint rc < 0 then Some (rc, out)
     else dump_connections_per_tennat copy ptr qs li cpus (loc + rc) out }"

fun dump_tenants :: "(s32 \<Rightarrow> string \<Rightarrow> s32) \<Rightarrow> (addr \<Rightarrow> string) \<Rightarrow> cpu list \<Rightarrow> kstate \<Rightarrow> addr list \<Rightarrow> s32 \<Rightarrow> dump \<Rightarrow>
    (s32 \<times> dump) option" where
  "dump_tenants copy ptr cpus s [] width out = Some (width, out)"
| "dump_tenants copy ptr cpus s (l # ls) width out = do {
     li \<leftarrow> listners s l;
     let str = scnprintf STRLEN (''Tennat '' @ int_dec (sint (lkey li)) @ '':'' @ [CHR 0x0A] @ replicate 38 (CHR ''-'') @ [CHR 0x0A]);
     let (rc, out) = printout copy width str out;
     if rc \<noteq> 0 then Some (rc, out)
     else do {
       let width = width + of_nat (length str);
       (rc, out) \<leftarrow> dump_connections_per_tennat copy ptr (qps s) li cpus width out;
       if sint rc < 0 then Some (rc, out)
       else dump_tenants copy ptr cpus s ls (width + rc) out } }"

definition dump_connections :: "(s32 \<Rightarrow> string \<Rightarrow> s32) \<Rightarrow> (addr \<Rightarrow> string) \<Rightarrow> cpu list \<Rightarrow> kstate \<Rightarrow> (s32 \<times> dump) option" where
  "dump_connections copy ptr cpus s = do {
     let str = scnprintf STRLEN (replicate 26 (CHR ''<'') @ replicate 30 (CHR ''>'') @ [CHR 0x0A]);
     let (rc, out) = printout copy 0 str [];
     if rc \<noteq> 0 then Some (rc, out)
     else dump_tenants copy ptr cpus s (inorder (listner_root s)) (of_nat (length str)) out }"

text \<open>The read of the file: \<open>f_pos\<close> and \<open>ppos\<close> are the file's position, which each read flips.\<close>

definition connections_read :: "(s32 \<Rightarrow> string \<Rightarrow> s32) \<Rightarrow> (addr \<Rightarrow> string) \<Rightarrow> cpu list \<Rightarrow> bool \<Rightarrow> u64 \<Rightarrow> u64 \<Rightarrow> kstate \<Rightarrow>
    (int \<times> u64 \<times> dump) option" where
  "connections_read copy ptr cpus buf f_pos ppos s =
     (if \<not> buf then Some (- EINVAL, ppos, [])
      else if f_pos \<noteq> 0 then Some (0, ppos XOR 1, [])
      else map_option (\<lambda>(rc, out). (sint rc, ppos XOR 1, out)) (dump_connections copy ptr cpus s))"

section \<open>The table of files\<close>

text \<open>Each file has a function that shows it, through \<open>single_open\<close>, one that reads it and possibly one for
  what is written to it. The version is replaced by \<^verbatim>\<open>install.sh\<close>.\<close>

definition KTCP_VERSION :: string where
  "KTCP_VERSION = ''__KTCP_VERSION__''"

definition cbn_version_show :: "int \<times> string" where
  "cbn_version_show = (0, KTCP_VERSION @ [CHR 0x0A])"

datatype proc_show = Cbn_proc_show | Cbn_version_show | Cbn_transparent_show
datatype proc_read = Seq_read | Connections_read
datatype proc_write = Cbn_add_server | Cbn_del_server | Preconn_proc_command | Cbn_transparent_command

record file_operations =
  fop_open :: proc_show
  fop_read :: proc_read
  fop_write :: "proc_write option"

definition cbn_proc_open :: proc_show where "cbn_proc_open = Cbn_proc_show"
definition cbn_version_open :: proc_show where "cbn_version_open = Cbn_version_show"
definition cbn_transparent_open :: proc_show where "cbn_transparent_open = Cbn_transparent_show"

definition connections_fops :: file_operations where
  "connections_fops = \<lparr>fop_open = cbn_proc_open, fop_read = Connections_read, fop_write = None\<rparr>"

definition preconn_proc_fops :: file_operations where
  "preconn_proc_fops = \<lparr>fop_open = cbn_proc_open, fop_read = Seq_read, fop_write = Some Preconn_proc_command\<rparr>"

definition cbn_add_fops :: file_operations where
  "cbn_add_fops = \<lparr>fop_open = cbn_proc_open, fop_read = Seq_read, fop_write = Some Cbn_add_server\<rparr>"

definition cbn_del_fops :: file_operations where
  "cbn_del_fops = \<lparr>fop_open = cbn_proc_open, fop_read = Seq_read, fop_write = Some Cbn_del_server\<rparr>"

definition cbn_transparent_fops :: file_operations where
  "cbn_transparent_fops = \<lparr>fop_open = cbn_transparent_open, fop_read = Seq_read, fop_write = Some Cbn_transparent_command\<rparr>"

definition cbn_version_fops :: file_operations where
  "cbn_version_fops = \<lparr>fop_open = cbn_version_open, fop_read = Seq_read, fop_write = None\<rparr>"

text \<open>The files with their modes, octal in the source.\<close>

definition proc_files :: "(string \<times> nat \<times> file_operations) list" where
  "proc_files = [(''connections'', 6 * 64 + 6 * 8 + 6, connections_fops), (''cbn_proc'', 6 * 64 + 6 * 8 + 6, cbn_add_fops),
     (''cbn_del'', 6 * 64 + 6 * 8 + 6, cbn_del_fops), (''conn_pool'', 6 * 64 + 6 * 8 + 6, preconn_proc_fops),
     (''cbn_transparent'', 6 * 64 + 6 * 8 + 6, cbn_transparent_fops), (''version'', 4 * 64 + 4 * 8 + 4, cbn_version_fops)]"

text \<open>Reading the text of a file and writing to it. The virtual file system refuses a write to a file
  without a write function.\<close>

fun run_show :: "proc_show \<Rightarrow> bool \<Rightarrow> cp_state \<Rightarrow> (int \<times> string) option" where
  "run_show Cbn_proc_show kzalloc_ok s = cbn_proc_show kzalloc_ok s"
| "run_show Cbn_version_show kzalloc_ok s = Some cbn_version_show"
| "run_show Cbn_transparent_show kzalloc_ok s = Some (cbn_transparent_show s)"

fun run_write :: "proc_write \<Rightarrow> rbtree_lib \<Rightarrow> cpu list \<Rightarrow> proc_env \<Rightarrow> nat \<Rightarrow> cp_state \<Rightarrow> (int \<times> cp_state) option" where
  "run_write Cbn_add_server L cpus e sz s = cbn_add_server e sz s"
| "run_write Cbn_del_server L cpus e sz s = cbn_del_server L e sz s"
| "run_write Preconn_proc_command L cpus e sz s = preconn_proc_command cpus e sz s"
| "run_write Cbn_transparent_command L cpus e sz s = cbn_transparent_command e sz s"

abbreviation (input) ENOENT :: int where "ENOENT \<equiv> 2"

definition write_file :: "rbtree_lib \<Rightarrow> cpu list \<Rightarrow> proc_env \<Rightarrow> string \<Rightarrow> nat \<Rightarrow> cp_state \<Rightarrow> (int \<times> cp_state) option" where
  "write_file L cpus e name sz s = (case map_of proc_files name of
     None \<Rightarrow> Some (- ENOENT, s)
   | Some (mode, fops) \<Rightarrow> (case fop_write fops of
       None \<Rightarrow> Some (- EINVAL, s)
     | Some w \<Rightarrow> run_write w L cpus e sz s))"

section \<open>Lemmas\<close>

lemmas proc_fops_defs = connections_fops_def preconn_proc_fops_def cbn_add_fops_def cbn_del_fops_def
  cbn_transparent_fops_def cbn_version_fops_def

lemma sint_double:
  assumes "0 \<le> sint (w :: s32)"
  shows "sint (w + w) = (if 2 * sint w < 2 ^ 31 then 2 * sint w else 2 * sint w - 2 ^ 32)"
proof -
  have b: "sint w < 2 ^ 31" using sint_lt [of w] by simp
  have d: "sint (w + w) = signed_take_bit 31 (2 * sint w)" by (simp add: signed_take_bit_add sint_word_ariths)
  have z: "- (2 ^ 31) \<le> (0 :: int)" by simp
  show ?thesis
  proof (cases "2 * sint w < 2 ^ 31")
    case True
    have "- (2 ^ 31) \<le> 2 * sint w" using z assms by linarith
    from signed_take_bit_int_eq_self [OF this True] show ?thesis using d True by simp
  next
    case False
    have "signed_take_bit 31 (2 * sint w) = signed_take_bit 31 (2 * sint w - 2 ^ 32)"
      by (rule signed_take_bit_eq_iff_take_bit_eq [THEN iffD2]) (simp add: take_bit_eq_mod flip: take_bit_diff)
    moreover have "- (2 ^ 31) \<le> 2 * sint w - 2 ^ 32" "2 * sint w - 2 ^ 32 < 2 ^ 31" using False b by simp_all
    ultimately show ?thesis using d False signed_take_bit_int_eq_self [of 31 "2 * sint w - 2 ^ 32"] by simp
  qed
qed

lemma dump_negative: "\<forall>c \<in> set cpus. connections_root li c = Leaf \<Longrightarrow> sint loc < 0 \<Longrightarrow>
    dump_connections_per_tennat copy ptr qs li cpus loc out = Some (loc, out)"
  by (cases cpus) simp_all

lemma dump_small: "\<forall>c \<in> set cpus. connections_root li c = Leaf \<Longrightarrow> 0 \<le> sint loc \<Longrightarrow> sint loc * 2 ^ length cpus < 2 ^ 31 \<Longrightarrow>
    \<exists>r. dump_connections_per_tennat copy ptr qs li cpus loc out = Some (r, out) \<and> sint r = sint loc * 2 ^ length cpus"
proof (induction cpus arbitrary: loc)
  case (Cons c cpus)
  have m: "2 * sint loc * 1 \<le> 2 * sint loc * 2 ^ length cpus" using Cons.prems(2) by (intro mult_left_mono) simp_all
  have e: "sint loc * 2 ^ length (c # cpus) = 2 * sint loc * 2 ^ length cpus" by simp
  have "2 * sint loc < 2 ^ 31" using m Cons.prems(3) unfolding e by linarith
  then have d: "sint (loc + loc) = 2 * sint loc" using sint_double [OF Cons.prems(2)] by simp
  have "sint (loc + loc) * 2 ^ length cpus < 2 ^ 31" using Cons.prems(3) unfolding d e .
  then show ?case using Cons.IH [of "loc + loc"] Cons.prems d by (simp add: algebra_simps)
qed simp

lemma dump_overflow: "\<forall>c \<in> set cpus. connections_root li c = Leaf \<Longrightarrow> 0 < sint loc \<Longrightarrow> 2 ^ 31 \<le> sint loc * 2 ^ length cpus \<Longrightarrow>
    \<exists>r. dump_connections_per_tennat copy ptr qs li cpus loc out = Some (r, out) \<and> sint r < 0"
proof (induction cpus arbitrary: loc)
  case Nil
  then show ?case using sint_lt [of loc] by simp
next
  case (Cons c cpus)
  show ?case
  proof (cases "2 * sint loc < 2 ^ 31")
    case True
    then have d: "sint (loc + loc) = 2 * sint loc" using sint_double [of loc] Cons.prems(2) by simp
    then have "2 ^ 31 \<le> sint (loc + loc) * 2 ^ length cpus" using Cons.prems(3) by (simp add: mult.assoc)
    then show ?thesis using Cons.IH [of "loc + loc"] Cons.prems d by simp
  next
    case False
    then have "sint (loc + loc) < 0" using sint_double [of loc] Cons.prems(2) sint_lt [of loc] by simp
    then show ?thesis using dump_negative [of cpus li "loc + loc" copy ptr qs out] Cons.prems by simp
  qed
qed

section \<open>Properties\<close>

text \<open>C33. What the four commands do, for any parser that fills in its array: a text of the wrong size, or one
  that cannot be copied, is refused and changes nothing. Starting a server takes exactly two numbers
  and hands them to \<open>split_server\<close>, from which \<open>void2uint\<close> gets them back. Stopping one takes exactly one;
  if it and the ids of all tenants lie in one half-range window and the socket of that tenant's listener is
  open, that tenant and no other is removed. Preparing connections takes exactly four numbers, and
  \<open>preconn_write_cb\<close> gets these four. Transparent mode takes exactly the numbers 0 and 1. Everything else
  is \<open>-EINVAL\<close> and changes nothing.\<close>

theorem proc_commands:
  assumes "rbtree_lib_ok L" and "\<forall>str n. length (get_options e str n) = n"
  shows "(sz \<le> 1 \<or> PAGE_SIZE \<le> sz \<or> (\<exists>err. memdup_user_nul e = Inl err) \<longrightarrow>
      (\<exists>err. cbn_add_server e sz s = Some (err, s) \<and> cbn_del_server L e sz s = Some (err, s) \<and>
        preconn_proc_command cpus e sz s = Some (err, s) \<and> cbn_transparent_command e sz s = Some (err, s))) \<and>
    (1 < sz \<and> sz < PAGE_SIZE \<and> memdup_user_nul e = Inr str \<longrightarrow>
      (let v = get_options e str 3; w = get_options e str 2; u = get_options e str 5 in
       cbn_add_server e sz s = Some (if v ! 0 = 2 then (int sz, cp_run (Split_server (uint2void (v ! 1) (v ! 2))) None s)
         else (- EINVAL, s)) \<and>
       void2uint (uint2void (v ! 1) (v ! 2)) = (v ! 1, v ! 2) \<and>
       (v ! 0 \<noteq> 1 \<longrightarrow> cbn_del_server L e sz s = Some (- EINVAL, s)) \<and>
       (v ! 0 = 1 \<and> tenants_ok b (base s) \<and> window b (v ! 1) \<and>
         (\<forall>l. tenants (base s) (v ! 1) = Some l \<longrightarrow> sock_open (base s) l) \<longrightarrow>
         (\<exists>s'. cbn_del_server L e sz s = Some (int sz, s') \<and> tenants (base s') = (tenants (base s))(v ! 1 := None))) \<and>
       preconn_proc_command cpus e sz s = Some (if u ! 0 = 4 then (int sz, preconn_write_cb cpus [u ! 1, u ! 2, u ! 3, u ! 4] s)
         else (- EINVAL, s)) \<and>
       cbn_transparent_command e sz s = Some (if w ! 0 = 1 \<and> (w ! 1 = 0 \<or> w ! 1 = 1)
         then (int sz, s\<lparr>base := (base s)\<lparr>ip_transparent := w ! 1\<rparr>\<rparr>) else (- EINVAL, s))))"
proof (intro conjI impI)
  assume "sz \<le> 1 \<or> PAGE_SIZE \<le> sz \<or> (\<exists>err. memdup_user_nul e = Inl err)"
  then obtain err where "\<forall>n. proc_values e n sz = Inl err"
    by (cases "sz \<le> 1 \<or> PAGE_SIZE \<le> sz") (auto simp: proc_values_def)
  then show "\<exists>err. cbn_add_server e sz s = Some (err, s) \<and> cbn_del_server L e sz s = Some (err, s) \<and>
        preconn_proc_command cpus e sz s = Some (err, s) \<and> cbn_transparent_command e sz s = Some (err, s)"
    by (simp add: cbn_add_server_def cbn_del_server_def preconn_proc_command_def cbn_transparent_command_def)
next
  assume "1 < sz \<and> sz < PAGE_SIZE \<and> memdup_user_nul e = Inr str"
  then have v: "proc_values e n sz = Inr (get_options e str n)" for n by (simp add: proc_values_def)
  define v where "v = get_options e str 3"
  define w where "w = get_options e str 2"
  define u where "u = get_options e str 5"
  have l: "length v = 3" "length w = 2" "length u = 5" using assms(2) by (simp_all add: v_def w_def u_def)
  have u: "tl u = [u ! 1, u ! 2, u ! 3, u ! 4]"
    using l(3) by (auto simp: numeral_eq_Suc length_Suc_conv)
  have "\<exists>s'. cbn_del_server L e sz s = Some (int sz, s') \<and> tenants (base s') = (tenants (base s))(v ! 1 := None)"
    if d: "v ! 0 = 1" "tenants_ok b (base s)" "window b (v ! 1)" "\<forall>l. tenants (base s) (v ! 1) = Some l \<longrightarrow> sock_open (base s) l"
  proof -
    have "\<exists>s'. del_server_cb L (v ! 1) (base s) = Some s' \<and> tenants s' = (tenants (base s))(v ! 1 := None)"
      using del_server_tenants [OF assms(1) d(2,3)] d(4) by blast
    then show ?thesis using v [of 3] l d(1) by (auto simp: cbn_del_server_def v_def)
  qed
  then show "let v = get_options e str 3; w = get_options e str 2; u = get_options e str 5 in
       cbn_add_server e sz s = Some (if v ! 0 = 2 then (int sz, cp_run (Split_server (uint2void (v ! 1) (v ! 2))) None s)
         else (- EINVAL, s)) \<and>
       void2uint (uint2void (v ! 1) (v ! 2)) = (v ! 1, v ! 2) \<and>
       (v ! 0 \<noteq> 1 \<longrightarrow> cbn_del_server L e sz s = Some (- EINVAL, s)) \<and>
       (v ! 0 = 1 \<and> tenants_ok b (base s) \<and> window b (v ! 1) \<and>
         (\<forall>l. tenants (base s) (v ! 1) = Some l \<longrightarrow> sock_open (base s) l) \<longrightarrow>
         (\<exists>s'. cbn_del_server L e sz s = Some (int sz, s') \<and> tenants (base s') = (tenants (base s))(v ! 1 := None))) \<and>
       preconn_proc_command cpus e sz s = Some (if u ! 0 = 4 then (int sz, preconn_write_cb cpus [u ! 1, u ! 2, u ! 3, u ! 4] s)
         else (- EINVAL, s)) \<and>
       cbn_transparent_command e sz s = Some (if w ! 0 = 1 \<and> (w ! 1 = 0 \<or> w ! 1 = 1)
         then (int sz, s\<lparr>base := (base s)\<lparr>ip_transparent := w ! 1\<rparr>\<rparr>) else (- EINVAL, s))"
    using v [of 3] v [of 2] v [of 5] l u unfolding v_def [symmetric] w_def [symmetric] u_def [symmetric] Let_def
    by (simp add: cbn_add_server_def cbn_del_server_def cbn_transparent_command_def preconn_proc_command_def
        add_server_cb_def cp_run_def void2uint_uint2void)
qed

text \<open>The dump of the pending connections loses track of its position. With nothing to print for a
  tenant, the offset in the user's buffer must not move; instead it doubles on every core, and on 31 or
  more cores it always becomes negative, which the caller takes for an error.\<close>

theorem dump_offsets_double:
  assumes "\<forall>c \<in> set cpus. connections_root li c = Leaf" and "0 < sint loc"
  shows "(sint loc * 2 ^ length cpus < 2 ^ 31 \<longrightarrow>
      (\<exists>r. dump_connections_per_tennat copy ptr qs li cpus loc out = Some (r, out) \<and> sint r = sint loc * 2 ^ length cpus)) \<and>
    (31 \<le> length cpus \<longrightarrow> (\<exists>r. dump_connections_per_tennat copy ptr qs li cpus loc out = Some (r, out) \<and> sint r < 0))"
proof (intro conjI impI)
  show "\<exists>r. dump_connections_per_tennat copy ptr qs li cpus loc out = Some (r, out) \<and> sint r = sint loc * 2 ^ length cpus"
    if "sint loc * 2 ^ length cpus < 2 ^ 31" using dump_small [OF assms(1) _ that] assms(2) by simp
  show "\<exists>r. dump_connections_per_tennat copy ptr qs li cpus loc out = Some (r, out) \<and> sint r < 0" if "31 \<le> length cpus"
  proof -
    have "(2 :: int) ^ 31 \<le> 2 ^ length cpus" using that by (rule power_increasing) simp
    also have "1 * 2 ^ length cpus \<le> sint loc * 2 ^ length cpus" using assms(2) by (intro mult_right_mono) simp_all
    finally show ?thesis using dump_overflow [OF assms(1,2)] by simp
  qed
qed

subsection \<open>Witnesses\<close>

definition ex_proc_env :: "s32 list \<Rightarrow> proc_env" where
  "ex_proc_env xs = \<lparr>memdup_user_nul = Inr ''2,7,443'', get_options = (\<lambda>_ n. take n (xs @ replicate n 0))\<rparr>"

theorem proc_commands_witness:
  "cbn_add_server (ex_proc_env [2, 7, 443]) 7 ex_cp = Some (7, cp_run (Split_server (uint2void 7 443)) None ex_cp) \<and>
   cbn_transparent_command (ex_proc_env [2, 7, 443]) 7 ex_cp = Some (- 22, ex_cp) \<and>
   preconn_proc_command [0, 1] (ex_proc_env [4, 10, 0, 0, 1]) 7 ex_cp = Some (7, preconn_write_cb [0, 1] [10, 0, 0, 1] ex_cp) \<and>
   preconn_proc_command [0, 1] (ex_proc_env [2, 7, 443]) 7 ex_cp = Some (- 22, ex_cp) \<and>
   (\<exists>s'. cbn_del_server plain_lib (ex_proc_env [1, 7]) 7 ex_cp = Some (7, s') \<and> tenants (base s') 7 = None)"
proof -
  have l: "\<forall>str n. length (get_options (ex_proc_env xs) str n) = n" for xs by (auto simp: ex_proc_env_def min_def)
  note c = proc_commands [OF plain_lib_ok l, where sz = 7 and s = ex_cp and str = "''2,7,443''" and cpus = "[0, 1]" and b = 0]
  have "tenants_ok 0 (base ex_cp)" "window 0 (7 :: s32)" "tenants (base ex_cp) 7 = Some 9" "sock_open (base ex_cp) 9"
    by (simp_all add: ex_cp_def kstate0_def bare_listner_def listner_tree_def rb_ordered_def window_def listner_map_def
        rb_map_def sock_open_def)
  then show ?thesis using c [of "[2, 7, 443]"] c [of "[4, 10, 0, 0, 1]"] c [of "[1, 7]"]
    by (auto simp: ex_proc_env_def Let_def numeral_eq_Suc)
qed

theorem dump_offsets_double_witness:
  "\<exists>r. dump_connections_per_tennat (\<lambda>_ _. 0) (\<lambda>_. []) Map.empty (bare_listner 7) [0, 1] 100 [] = Some (r, []) \<and> sint r = 400"
  using dump_offsets_double [of "[0, 1]" "bare_listner 7" 100 "\<lambda>_ _. 0" "\<lambda>_. []" Map.empty "[]"] by (simp add: bare_listner_def)

end
