(* ===== verification/Module_Load.thy ===== *)
theory Module_Load
  imports Thread_Pool Proc_Debug
begin

text \<open>
  Loading and unloading the splitter: \<open>cbn_datapath_init\<close> and \<open>cbn_datapath_clean\<close> of \<^verbatim>\<open>tcpsplit/split.c\<close>,
  with the parts of the other files they call. The state of the module joins the states of its parts,
  which start as static storage; \<open>mcalls\<close> records, in order, the calls that create and destroy what the
  parts use: slab caches, kernel threads, packet hooks and files.
\<close>

section \<open>Definitions\<close>

datatype mcall =
    kmem_cache_create string
  | kmem_cache_destroy string
  | kthread_run string
  | kthread_stop string
  | nf_register_net_hooks
  | nf_unregister_net_hooks
  | proc_mkdir_mode string
  | proc_create string
  | remove_proc_subtree string

record ktcp =
  conns :: cp_state
  pool :: kthread_pool
  listner_thread :: "pl_pc option"
  mcalls :: "mcall list"

text \<open>Static storage, when nothing has run.\<close>

definition cp_state0 :: cp_state where
  "cp_state0 = \<lparr>base = kstate0, preconn = \<lparr>preconns = Map.empty, preconn_root = Leaf\<rparr>,
     pre_conn_list_client = [], pre_conn_list_server = [], pre_conn_listner = None, server_frames = Map.empty\<rparr>"

definition ktcp0 :: ktcp where
  "ktcp0 = \<lparr>conns = cp_state0, pool = cbn_pool0, listner_thread = None, mcalls = []\<rparr>"

definition log_m :: "mcall list \<Rightarrow> ktcp \<Rightarrow> ktcp" where
  "log_m cs m = m\<lparr>mcalls := mcalls m @ cs\<rparr>"

text \<open>The environment: the addresses of kernel symbols, the module's parameter, the allocations for the
  magazines, and the number of cores.\<close>

record load_env =
  kallsyms :: "string \<Rightarrow> u64"
  pool_param :: s32
  load_kz :: "cpu \<Rightarrow> bool \<Rightarrow> u64"
  cores :: nat

definition init_kallsyms :: "(string \<Rightarrow> u64) \<Rightarrow> int" where
  "init_kallsyms lookup =
     (if lookup ''sched_setaffinity'' = 0 \<or> lookup ''kthread_bind_mask'' = 0 \<or> lookup ''__alloc_reserved_percpu'' = 0 then 1 else 0)"

text \<open>The constructor of the cache of QPs, on the bytes of an object: it clears as many as a size takes, eight.\<close>

definition qp_ctor :: "u8 list \<Rightarrow> u8 list" where
  "qp_ctor elem = replicate 8 0 @ drop 8 elem"

definition kthread_pool_start :: "load_env \<Rightarrow> ktcp \<Rightarrow> ktcp option" where
  "kthread_pool_start e m = do {
     P \<leftarrow> cbn_kthread_pool_init (load_kz e) (cores e) (pool m);
     Some (log_m [kmem_cache_create ''pool-thread-cache'', kthread_run ''pool-cache-refill''] (m\<lparr>pool := P\<rparr>)) }"

text \<open>The FIXME in the source: only the refill thread is stopped, the threads of the pool are left.\<close>

definition cbn_kthread_pool_clean :: "ktcp \<Rightarrow> ktcp" where
  "cbn_kthread_pool_clean m = log_m [kthread_stop ''pool-cache-refill'', kmem_cache_destroy ''pool-thread-cache''] m"

definition pre_connect_start :: "ktcp \<Rightarrow> ktcp" where
  "pre_connect_start m = (case cbn_pre_connect_init (conns m) of (pc, s) \<Rightarrow>
     log_m [kmem_cache_create ''cbn_preconn_slab'', kthread_run ''pre-conn-server''] (m\<lparr>conns := s, listner_thread := Some pc\<rparr>))"

definition cbn_proc_init :: "ktcp \<Rightarrow> ktcp" where
  "cbn_proc_init m = log_m (proc_mkdir_mode ''cbn'' # map (\<lambda>(name, mode, fops). proc_create name) proc_files) m"

definition cbn_proc_clean :: "ktcp \<Rightarrow> ktcp" where
  "cbn_proc_clean m = log_m [remove_proc_subtree ''cbn''] m"

definition cbn_datapath_init :: "load_env \<Rightarrow> ktcp \<Rightarrow> (int \<times> ktcp) option" where
  "cbn_datapath_init e m = (let m = m\<lparr>pool := parse_module_params (pool_param e) (pool m)\<rparr> in
     if init_kallsyms (kallsyms e) \<noteq> 0 then Some (- 1, m)
     else do {
       let m = log_m (map kmem_cache_create [''cbn_qp_mdata'', ''cbn_listner'', ''cbn_syn_mdata'', ''cbn_probe_headers'']) m;
       m \<leftarrow> kthread_pool_start e m;
       let m = pre_connect_start m;
       let m = log_m [nf_register_net_hooks] m;
       Some (0, cbn_proc_init m) })"

definition cbn_datapath_clean :: "rbtree_lib \<Rightarrow> ktcp \<Rightarrow> ktcp option" where
  "cbn_datapath_clean L m = do {
     let m = log_m [nf_unregister_net_hooks] (cbn_proc_clean m);
     s \<leftarrow> cbn_pre_connect_end (conns m);
     let m = log_m [kmem_cache_destroy ''cbn_preconn_slab''] (m\<lparr>conns := s\<rparr>);
     b \<leftarrow> stop_sockets L (base (conns m));
     let m = cbn_kthread_pool_clean (m\<lparr>conns := (conns m)\<lparr>base := b\<rparr>\<rparr>);
     Some (log_m (map kmem_cache_destroy [''cbn_qp_mdata'', ''cbn_syn_mdata'', ''cbn_probe_headers'', ''cbn_listner'']) m) }"

section \<open>Lemmas\<close>

lemma qp_ctor_partial: "8 \<le> i \<Longrightarrow> i < length elem \<Longrightarrow> qp_ctor elem ! i = elem ! i"
  by (simp add: qp_ctor_def nth_append)

fun made :: "mcall list \<Rightarrow> string list" where
  "made (kmem_cache_create n # cs) = n # made cs"
| "made (_ # cs) = made cs"
| "made [] = []"

fun unmade :: "mcall list \<Rightarrow> string list" where
  "unmade (kmem_cache_destroy n # cs) = n # unmade cs"
| "unmade (_ # cs) = unmade cs"
| "unmade [] = []"

definition load_calls :: "mcall list" where
  "load_calls = map kmem_cache_create [''cbn_qp_mdata'', ''cbn_listner'', ''cbn_syn_mdata'', ''cbn_probe_headers'', ''pool-thread-cache''] @
     [kthread_run ''pool-cache-refill'', kmem_cache_create ''cbn_preconn_slab'', kthread_run ''pre-conn-server'',
      nf_register_net_hooks, proc_mkdir_mode ''cbn''] @
     map proc_create [''connections'', ''cbn_proc'', ''cbn_del'', ''conn_pool'', ''cbn_transparent'', ''version'']"

definition unload_calls :: "mcall list" where
  "unload_calls = [remove_proc_subtree ''cbn'', nf_unregister_net_hooks, kmem_cache_destroy ''cbn_preconn_slab'',
     kthread_stop ''pool-cache-refill''] @
     map kmem_cache_destroy [''pool-thread-cache'', ''cbn_qp_mdata'', ''cbn_syn_mdata'', ''cbn_probe_headers'', ''cbn_listner'']"

lemma caches_balanced: "mset (made load_calls) = mset (unmade unload_calls)" "distinct (made load_calls)"
  by (simp_all add: load_calls_def unload_calls_def add_mset_commute)

lemma stop_all_sockets:
  assumes "rbtree_lib_ok L" and "tenants_ok b s" and "\<forall>l \<in> set_tree (listner_root s). sock_open s l"
  shows "\<exists>s'. stop_sockets L s = Some s' \<and> tenants_ok b s'"
proof -
  have "p \<in> set_tree (listner_root s)" if "rb_first_postorder (listner_root s) = Some p" for p
    using that set_postorder_tree [of "listner_root s"] unfolding rb_first_postorder_def
    by (cases "postorder (listner_root s)") auto
  from stop_loop_ends [OF assms(1,2) this order.refl, of "rb_first_postorder (listner_root s)"] assms(3) show ?thesis
    unfolding stop_sockets_def by blast
qed

text \<open>The thread that listens for other hops: it has not registered its socket, or still runs, so that the
  registered pointer into its stack can be read.\<close>

definition hop_listner_runs :: "cp_state \<Rightarrow> bool" where
  "hop_listner_runs s \<longleftrightarrow> (\<forall>f. pre_conn_listner s = Some f \<longrightarrow> server_frames s f \<noteq> None)"

text \<open>No operation of the module adds to the two lists of prepared connections, so they are empty.\<close>

lemma pre_connect_end_empty:
  assumes "pre_conn_list_client s = []" and "pre_conn_list_server s = []"
  shows "if hop_listner_runs s
    then \<exists>s'. cbn_pre_connect_end s = Some s' \<and> listners (base s') = listners (base s) \<and>
      listner_root (base s') = listner_root (base s) \<and> preconn s' = preconn s \<and> sock_open (base s') = sock_open (base s)
    else cbn_pre_connect_end s = None"
  using assms
  by (auto simp: cbn_pre_connect_end_def clear_client_pre_connections_def hop_listner_runs_def sock_open_def fun_eq_iff
      split: option.splits)

section \<open>Properties\<close>

text \<open>C34. Loading with all kernel symbols, and magazines that can be allocated and do not overlap, brings every part into the
  initial state its theorems start from: an empty pool of the size asked for, no tenants, no prepared
  connections, and a thread about to listen for other hops. The caches and the pool exist before the
  hooks are registered, and the hooks before the files. Without a symbol nothing is created. Unloading
  from a state whose listeners are in order, with nothing in the two lists of prepared connections (which
  no code fills), depends on two threads: it succeeds if the thread that listens for other hops, once it
  has registered its socket, still runs, and if no server thread has released the socket of a
  listener that is still in the tree. Then it undoes the loading in the opposite order and destroys exactly
  the caches that loading created; the threads of the pool are not stopped. It oopses if the thread that
  listens for other hops has returned: \<open>pre_conn_listner\<close> points into its stack.\<close>

theorem module_lifecycle:
  assumes "rbtree_lib_ok L" and "distinct (kz_addrs (load_kz e) [0..<cores e])" and "\<forall>c < cores e. \<forall>b. load_kz e c b \<noteq> 0"
  shows "(if kallsyms e ''sched_setaffinity'' = 0 \<or> kallsyms e ''kthread_bind_mask'' = 0 \<or> kallsyms e ''__alloc_reserved_percpu'' = 0
      then \<exists>m. cbn_datapath_init e ktcp0 = Some (- 1, m) \<and> mcalls m = []
      else \<exists>m. cbn_datapath_init e ktcp0 = Some (0, m) \<and> mcalls m = load_calls \<and> pool_init (pool m) \<and>
        pool_size (pool m) = (if 0 < sint (pool_param e) then pool_param e else DEF_CBN_POOL_SIZE) \<and>
        (\<forall>c < cores e. on_core (c, False) (pool m)) \<and>
        tenants_ok b (base (conns m)) \<and> tenants (base (conns m)) = Map.empty \<and> preconn_inv b C (preconn (conns m)) \<and>
        listner_thread m = Some (Pl_start (ucast PRECONN_SERVER_PORT))) \<and>
    (tenants_ok b (base (conns m')) \<and> pre_conn_list_client (conns m') = [] \<and> pre_conn_list_server (conns m') = [] \<longrightarrow>
      (hop_listner_runs (conns m') \<and> (\<forall>l \<in> set_tree (listner_root (base (conns m'))). sock_open (base (conns m')) l) \<longrightarrow>
        (\<exists>m. cbn_datapath_clean L m' = Some m \<and> mcalls m = mcalls m' @ unload_calls \<and> tenants_ok b (base (conns m)) \<and>
          elems (pool m) = elems (pool m'))) \<and>
      (\<not> hop_listner_runs (conns m') \<longrightarrow> cbn_datapath_clean L m' = None)) \<and>
    mset (made load_calls) = mset (unmade unload_calls)"
proof (intro conjI impI)
  show "mset (made load_calls) = mset (unmade unload_calls)" by (rule caches_balanced)
next
  assume "tenants_ok b (base (conns m')) \<and> pre_conn_list_client (conns m') = [] \<and> pre_conn_list_server (conns m') = []"
  then have m': "tenants_ok b (base (conns m'))" "pre_conn_list_client (conns m') = []" "pre_conn_list_server (conns m') = []"
    by simp_all
  show "\<exists>m. cbn_datapath_clean L m' = Some m \<and> mcalls m = mcalls m' @ unload_calls \<and> tenants_ok b (base (conns m)) \<and>
      elems (pool m) = elems (pool m')"
    if h: "hop_listner_runs (conns m') \<and> (\<forall>l \<in> set_tree (listner_root (base (conns m'))). sock_open (base (conns m')) l)"
  proof -
    obtain s where s: "cbn_pre_connect_end (conns m') = Some s" "listners (base s) = listners (base (conns m'))"
      "listner_root (base s) = listner_root (base (conns m'))" "sock_open (base s) = sock_open (base (conns m'))"
      using pre_connect_end_empty [OF m'(2,3)] h by auto
    then obtain b' where "stop_sockets L (base s) = Some b'" "tenants_ok b b'"
      using stop_all_sockets [OF assms(1), of b "base s"] m'(1) h by auto
    then show ?thesis
      using s(1) by (simp add: cbn_datapath_clean_def cbn_kthread_pool_clean_def cbn_proc_clean_def log_m_def unload_calls_def Let_def)
  qed
  show "cbn_datapath_clean L m' = None" if "\<not> hop_listner_runs (conns m')"
    using pre_connect_end_empty [OF m'(2,3)] that
    by (simp add: cbn_datapath_clean_def cbn_proc_clean_def log_m_def Let_def)
next
  obtain a where a: "mag_allocator_init (load_kz e) (cores e) mag_state0 = Some a" "mag_inv a" "contents a = {#}"
    "length (pcp_pair (allocator a)) = cores e" using mag_init_ok [OF assms(2,3)] by blast
  define P where "P = (parse_module_params (pool_param e) cbn_pool0)\<lparr>top_count := 0, pool_alloc := a\<rparr>"
  have p: "cbn_kthread_pool_init (load_kz e) (cores e) (parse_module_params (pool_param e) cbn_pool0) = Some P"
    using a(1) by (simp add: P_def cbn_kthread_pool_init_def parse_module_params_def cbn_pool0_def)
  have "pool_init P" "pool_size P = (if 0 < sint (pool_param e) then pool_param e else DEF_CBN_POOL_SIZE)"
    "\<forall>c < cores e. on_core (c, False) P"
    using a(2-4) by (simp_all add: P_def pool_init_def parse_module_params_def cbn_pool0_def on_core_def)
  moreover have "tenants_ok b kstate0" "tenants kstate0 = Map.empty"
    "preconn_inv b C \<lparr>preconns = Map.empty, preconn_root = Leaf\<rparr>"
    by (simp_all add: kstate0_def listner_tree_def rb_ordered_def listner_map_def rb_map_def fun_eq_iff preconn_inv_def)
  ultimately show "if kallsyms e ''sched_setaffinity'' = 0 \<or> kallsyms e ''kthread_bind_mask'' = 0 \<or> kallsyms e ''__alloc_reserved_percpu'' = 0
      then \<exists>m. cbn_datapath_init e ktcp0 = Some (- 1, m) \<and> mcalls m = []
      else \<exists>m. cbn_datapath_init e ktcp0 = Some (0, m) \<and> mcalls m = load_calls \<and> pool_init (pool m) \<and>
        pool_size (pool m) = (if 0 < sint (pool_param e) then pool_param e else DEF_CBN_POOL_SIZE) \<and>
        (\<forall>c < cores e. on_core (c, False) (pool m)) \<and>
        tenants_ok b (base (conns m)) \<and> tenants (base (conns m)) = Map.empty \<and> preconn_inv b C (preconn (conns m)) \<and>
        listner_thread m = Some (Pl_start (ucast PRECONN_SERVER_PORT))"
    using p by (simp add: cbn_datapath_init_def init_kallsyms_def ktcp0_def cp_state0_def kthread_pool_start_def pre_connect_start_def
        cbn_pre_connect_init_def cbn_proc_init_def proc_files_def log_m_def load_calls_def Let_def)
qed

section \<open>Witnesses\<close>

definition ex_load :: load_env where
  "ex_load = \<lparr>kallsyms = (\<lambda>_. 1), pool_param = 8, load_kz = kz_ex, cores = 1\<rparr>"

theorem module_lifecycle_witness:
  "\<exists>m m1. cbn_datapath_init ex_load ktcp0 = Some (0, m) \<and> pool_size (pool m) = 8 \<and> cbn_datapath_clean plain_lib ktcp0 = Some m1"
proof -
  have "distinct (kz_addrs (load_kz ex_load) [0..<cores ex_load])" "\<forall>c < cores ex_load. \<forall>b. load_kz ex_load c b \<noteq> 0"
    by (simp_all add: ex_load_def kz_addrs_def kz_ex_def ALIGN_def)
  moreover have "tenants_ok 0 (base (conns ktcp0))" "pre_conn_list_client (conns ktcp0) = []" "pre_conn_list_server (conns ktcp0) = []"
    "hop_listner_runs (conns ktcp0)" "\<forall>l \<in> set_tree (listner_root (base (conns ktcp0))). sock_open (base (conns ktcp0)) l"
    by (simp_all add: ktcp0_def cp_state0_def kstate0_def listner_tree_def rb_ordered_def hop_listner_runs_def)
  ultimately show ?thesis
    using module_lifecycle [OF plain_lib_ok, of ex_load 0 "{}" ktcp0] by (auto simp: ex_load_def)
qed

end
