(* ===== verification/Module_Machine.thy ===== *)
theory Module_Machine
  imports Module_Load
begin

unbundle bit_operations_syntax

text \<open>
  The splitter as one transition system, from loading to unloading. Its state is that of \<open>Module_Load\<close> with
  the list of the kernel threads that work for it; an event is a packet at a hook, a write to a file under
  \<^verbatim>\<open>/proc/cbn\<close>, or a thread that runs to its next stop. Every function that an event hands to the thread
  pool becomes a thread, so the parts of the program drive each other here as they do in the kernel: the
  SYN of a client starts \<open>start_probe_syn\<close>, the probe starts \<open>start_new_connection_syn\<close>, a command starts
  \<open>split_server\<close>, which starts \<open>start_new_connection\<close>, and so on.

  What the pool does between being asked for a thread and the thread's start is the matter of
  \<open>Thread_Pool\<close>; a thread that is never scheduled here covers a request that fails there.
\<close>

section \<open>The machine\<close>

datatype task =
    T_syn tx_pc
  | T_conn rx_pc
  | T_pre ps_pc
  | T_pend cpu pn_pc
  | T_half addr
  | T_server sv_pc
  | T_listner pl_pc
  | T_probe addr
  | T_pool u64
  | T_prealloc cpu u64
  | T_end int

text \<open>The first stop of a function of the pool, on the core it was asked for.\<close>

fun start_task :: "pool_fn \<Rightarrow> cpu \<Rightarrow> task" where
  "start_task (Start_new_connection_syn a) c = T_syn (Tx_start c a)"
| "start_task (Start_new_pre_connection_syn a) c = T_pre (Ps_start c a)"
| "start_task (Start_probe_syn p) c = T_probe p"
| "start_task (Start_new_connection q) c = T_conn (Rx_start q)"
| "start_task (Split_server u) c = T_server (Sv_start u)"
| "start_task (Prealloc_connection_pool u) c = T_pool u"
| "start_task (Prealloc_connection u) c = T_prealloc c u"
| "start_task (Start_new_pending_connection q) c = T_pend c (Pn_start q)"
| "start_task (Start_half_duplex f) c = T_half f"
| "start_task (Other_task n) c = T_end 0"

fun spawned :: "cpu \<Rightarrow> kcall list \<Rightarrow> task list" where
  "spawned c [] = []"
| "spawned c (run_in_pool f co # cs) = start_task f (case co of Some c' \<Rightarrow> c' | None \<Rightarrow> c) # spawned c cs"
| "spawned c (_ # cs) = spawned c cs"

text \<open>What the kernel provides to an event: the environments of the parts, the cores of the loop of
  \<open>preconn_write_cb\<close>, and the core on which a thread starts that was asked for without one.\<close>

record sys_env =
  cpe :: cp_env
  sve :: sv_env
  nfe :: nf_env
  pre :: proc_env
  cmd_cpus :: "cpu list"
  free_core :: cpu

record system =
  md :: ktcp
  tasks :: "task list"

fun task_step :: "rbtree_lib \<Rightarrow> sys_env \<Rightarrow> task \<Rightarrow> cp_state \<Rightarrow> (task \<times> cp_state) option" where
  "task_step L e (T_syn pc) s = do {
     (pc, b) \<leftarrow> start_new_connection_syn L (kenv (cpe e)) pc (base s); Some (T_syn pc, s\<lparr>base := b\<rparr>) }"
| "task_step L e (T_conn pc) s = do {
     (pc, b) \<leftarrow> start_new_connection L (kenv (cpe e)) pc (base s); Some (T_conn pc, s\<lparr>base := b\<rparr>) }"
| "task_step L e (T_pre pc) s = do { (pc, s) \<leftarrow> start_new_pre_connection_syn L (cpe e) pc s; Some (T_pre pc, s) }"
| "task_step L e (T_pend c pc) s = do {
     (pc, b) \<leftarrow> start_new_pending_connection L (cpe e) c pc (base s); Some (T_pend c pc, s\<lparr>base := b\<rparr>) }"
| "task_step L e (T_half f) s = do { (rc, b) \<leftarrow> start_half_duplex (cpe e) f (base s); Some (T_end rc, s\<lparr>base := b\<rparr>) }"
| "task_step L e (T_server pc) s = do { (pc, b) \<leftarrow> split_server L (sve e) pc (base s); Some (T_server pc, s\<lparr>base := b\<rparr>) }"
| "task_step L e (T_listner pc) s = do { (pc, s) \<leftarrow> prec_conn_listner_server (cpe e) pc s; Some (T_listner pc, s) }"
| "task_step L e (T_probe p) s = do {
     (rc, b) \<leftarrow> start_probe_syn (rc_of (kenv (cpe e))) p (base s); Some (T_end rc, s\<lparr>base := b\<rparr>) }"
| "task_step L e (T_pool u) s = do { s \<leftarrow> prealloc_connection_pool (cpe e) u s; Some (T_end 0, s) }"
| "task_step L e (T_prealloc c u) s = do { (rc, s) \<leftarrow> prealloc_connection L (cpe e) c u s; Some (T_end rc, s) }"
| "task_step L e (T_end rc) s = Some (T_end rc, s)"

datatype event = Ingress sk_buff | Egress sk_buff | Write_file string nat | Run nat

fun event_step :: "rbtree_lib \<Rightarrow> sys_env \<Rightarrow> event \<Rightarrow> task list \<Rightarrow> cp_state \<Rightarrow> (task list \<times> cp_state) option" where
  "event_step L e (Ingress skb) ts s = do {
     (v, b) \<leftarrow> cbn_ingress_hook (nfe e) ''RX'' skb (base s); Some (ts, s\<lparr>base := b\<rparr>) }"
| "event_step L e (Egress skb) ts s = do {
     (v, skb, b) \<leftarrow> cbn_egress_hook (nfe e) skb (base s); Some (ts, s\<lparr>base := b\<rparr>) }"
| "event_step L e (Write_file name sz) ts s = do {
     (rc, s) \<leftarrow> write_file L (cmd_cpus e) (pre e) name sz s; Some (ts, s) }"
| "event_step L e (Run i) ts s = do { t \<leftarrow> arr_get ts i; (t, s) \<leftarrow> task_step L e t s; Some (ts[i := t], s) }"

definition sys_step :: "rbtree_lib \<Rightarrow> sys_env \<Rightarrow> event \<Rightarrow> system \<Rightarrow> system option" where
  "sys_step L e ev S = (let s0 = conns (md S) in do {
     (ts, s) \<leftarrow> event_step L e ev (tasks S) s0;
     Some \<lparr>md = (md S)\<lparr>conns := s\<rparr>,
       tasks = ts @ spawned (free_core e) (drop (length (calls (base s0))) (calls (base s)))\<rparr> })"

text \<open>The state after loading: the module's, and the thread that listens for other hops.\<close>

definition sys_loaded :: "load_env \<Rightarrow> system \<Rightarrow> bool" where
  "sys_loaded e S \<longleftrightarrow> (\<exists>pc. cbn_datapath_init e ktcp0 = Some (0, md S) \<and> listner_thread (md S) = Some pc \<and> tasks S = [T_listner pc])"

text \<open>
  The assumptions on the world: objects that are allocated are not in use, arrays have their length, the
  loops over cores visit the cores \<open>C\<close>, and the tenants that servers are started for have ids in one
  window of half the range.
\<close>

definition sys_env_ok :: "cpu set \<Rightarrow> sys_env \<Rightarrow> cp_state \<Rightarrow> bool" where
  "sys_env_ok C e s \<longleftrightarrow> (\<forall>l. new_listner (sve e) = Some l \<longrightarrow> listners (base s) l = None) \<and> qp_wf (sv_qp_mem (sve e)) \<and>
     qp_wf (qp_mem (kenv (cpe e))) \<and> preconn_env_ok C (penv (cpe e)) (preconn s)"

definition event_ok :: "s32 \<Rightarrow> sys_env \<Rightarrow> event \<Rightarrow> bool" where
  "event_ok b e ev \<longleftrightarrow> (\<forall>sz v. ev = Write_file ''cbn_proc'' sz \<and> proc_values (pre e) (PROC_CSV_NUM + 1) sz = Inr v \<longrightarrow> window b (v ! 1))"

inductive sys_move :: "rbtree_lib \<Rightarrow> s32 \<Rightarrow> cpu set \<Rightarrow> system \<Rightarrow> system \<Rightarrow> bool" for L b C where
  "sys_env_ok C e (conns (md S)) \<Longrightarrow> event_ok b e ev \<Longrightarrow> sys_step L e ev S = Some S' \<Longrightarrow> sys_move L b C S S'"

section \<open>Well-formed states\<close>

fun call_ok :: "s32 \<Rightarrow> kcall \<Rightarrow> bool" where
  "call_ok b (run_in_pool (Split_server u) c) = window b (fst (void2uint u))"
| "call_ok b k = True"

definition kst_ok :: "s32 \<Rightarrow> kstate \<Rightarrow> bool" where
  "kst_ok b s \<longleftrightarrow> tenants_ok b s \<and> (\<forall>q x. qps s q = Some x \<longrightarrow> qp_wf x) \<and> list_all (call_ok b) (calls s)"

definition pcpl_len :: "percpu_list \<Rightarrow> bool" where
  "pcpl_len l \<longleftrightarrow> len l = of_nat (length (plist l))"

definition pool_live :: "cpu set \<Rightarrow> preconn_state \<Rightarrow> bool" where
  "pool_live C p \<longleftrightarrow> (\<forall>n \<in> set_tree (preconn_root p). \<exists>x l. preconns p n = Some x \<and> pcp_list x = Some l \<and> (\<forall>c \<in> C. pcpl_len (l c)))"

definition cp_ok :: "s32 \<Rightarrow> cpu set \<Rightarrow> cp_state \<Rightarrow> bool" where
  "cp_ok b C s \<longleftrightarrow> kst_ok b (base s) \<and> pool_live C (preconn s) \<and> pre_conn_list_client s = [] \<and> pre_conn_list_server s = []"

fun task_ok :: "s32 \<Rightarrow> task \<Rightarrow> bool" where
  "task_ok b (T_server (Sv_start u)) = window b (fst (void2uint u))"
| "task_ok b (T_server (Sv_register m p)) = window b m"
| "task_ok b t = True"

definition sys_inv :: "s32 \<Rightarrow> cpu set \<Rightarrow> system \<Rightarrow> bool" where
  "sys_inv b C S \<longleftrightarrow> cp_ok b C (conns (md S)) \<and> list_all (task_ok b) (tasks S) \<and> mcalls (md S) = load_calls"

section \<open>The shared state stays well formed\<close>

lemma kst_ok_log [simp]: "kst_ok b (log_call k s) \<longleftrightarrow> kst_ok b s \<and> call_ok b k"
  by (auto simp: kst_ok_def)

lemma kst_ok_fields [simp]: "kst_ok b (s\<lparr>syns := x\<rparr>) = kst_ok b s" "kst_ok b (s\<lparr>probes := y\<rparr>) = kst_ok b s"
  "kst_ok b (s\<lparr>ip_transparent := z\<rparr>) = kst_ok b s" "kst_ok b (s\<lparr>pair_frames := f\<rparr>) = kst_ok b s"
  by (simp_all add: kst_ok_def)

definition qps_wf :: "(addr \<rightharpoonup> cbn_qp) \<Rightarrow> bool" where
  "qps_wf m \<longleftrightarrow> (\<forall>q x. m q = Some x \<longrightarrow> qp_wf x)"

lemma qps_wf_upd [simp]: "qps_wf m \<Longrightarrow> qp_wf x \<Longrightarrow> qps_wf (m(q \<mapsto> x))" "qps_wf m \<Longrightarrow> qps_wf (m(q := None))"
  by (auto simp: qps_wf_def)

lemma kst_ok_qps [simp]: "kst_ok b s \<Longrightarrow> qps_wf (qps s)" "kst_ok b s \<Longrightarrow> qps_wf m \<Longrightarrow> kst_ok b (s\<lparr>qps := m\<rparr>)"
  by (auto simp: kst_ok_def qps_wf_def)

lemma kst_ok_qp [simp]: "kst_ok b s \<Longrightarrow> qp_wf x \<Longrightarrow> kst_ok b (s\<lparr>qps := (qps s)(q \<mapsto> x)\<rparr>)"
  "kst_ok b s \<Longrightarrow> kst_ok b (s\<lparr>qps := (qps s)(q := None)\<rparr>)"
  by simp_all

lemma kst_ok_wf [simp]: "kst_ok b s \<Longrightarrow> qps s q = Some x \<Longrightarrow> qp_wf x"
  by (auto simp: kst_ok_def)

lemma kst_ok_listners:
  assumes "kst_ok b s" and "\<And>x. map_option lkey (ls x) = map_option lkey (listners s x)"
  shows "kst_ok b (s\<lparr>listners := ls\<rparr>)"
  using assms listner_tree_cong(1) [of "listner_root s" ls "listners s" b] by (simp add: kst_ok_def)

lemma upd_qp_ok: "upd_qp q f s = Some s' \<Longrightarrow> kst_ok b s \<Longrightarrow> (\<And>x. qp_wf x \<Longrightarrow> qp_wf (f x)) \<Longrightarrow> kst_ok b s'"
  by (auto simp: upd_qp_def)

lemma upd_listner_ok: "upd_listner l f s = Some s' \<Longrightarrow> kst_ok b s \<Longrightarrow> (\<And>x. lkey (f x) = lkey x) \<Longrightarrow> kst_ok b s'"
  by (auto simp: upd_listner_def intro!: kst_ok_listners)

lemma set_qp_root_keeps: "set_qp_root l c t s = Some s' \<Longrightarrow> kst_ok b s \<Longrightarrow> kst_ok b s'"
  by (auto simp: set_qp_root_def intro!: kst_ok_listners)

lemma put_bytes_wf: "qp_wf x \<Longrightarrow> off + length bs \<le> RB_KEY_LENGTH \<Longrightarrow> qp_wf (put_bytes off bs x)"
  by (simp add: put_bytes_def)

lemma qp_field_wf [simp]: "qp_wf x \<Longrightarrow> qp_wf (set_conn ad ps pd as x)" "qp_wf x \<Longrightarrow> qp_wf (set_tid m x)"
  "qp_wf x \<Longrightarrow> qp_wf (set_addr_d ad x)" "qp_wf x \<Longrightarrow> qp_wf (set_port_d pd x)"
  by (simp_all add: set_tid_def set_addr_d_def set_port_d_def put_bytes_wf byte_simps)

lemma sock_call_ok [simp]: "(\<And>k. call_ok b (f k)) \<Longrightarrow> kst_ok b (sock_call f p s) = kst_ok b s"
  by (cases p) (simp_all add: sock_call_def)

lemma fin_connected_keeps: "fin_connected_qp L c q s = Some s' \<Longrightarrow> kst_ok b s \<Longrightarrow> kst_ok b s'"
  by (auto simp: fin_connected_qp_def bind_eq_Some_conv split: option.splits dest: set_qp_root_keeps)

lemma get_qp_keeps: "get_qp L c q s = Some s' \<Longrightarrow> kst_ok b s \<Longrightarrow> kst_ok b s'"
  by (auto simp: get_qp_def upd_qp_def bind_eq_Some_conv Let_def split: if_splits dest!: fin_connected_keeps)

lemma put_qp_keeps: "put_qp q s = Some (n, s') \<Longrightarrow> kst_ok b s \<Longrightarrow> kst_ok b s'"
  by (auto simp: put_qp_def upd_qp_def bind_eq_Some_conv Let_def split: if_splits)

lemma qp_exists_keeps:
  assumes "qp_exists L c p d s = Some (r, s')" and "kst_ok b s"
  shows "kst_ok b s'"
proof -
  obtain x l li dup root s1 where s1: "set_qp_root l c root s = Some s1" "(case dup of
        Some qp \<Rightarrow> do {
          y \<leftarrow> qps s1 qp;
          if qp_dir y d \<noteq> NULL then Some (None, s1)
          else do { s \<leftarrow> upd_qp qp (set_qp_dir d (qp_dir x d)) s1; Some (Some qp, s\<lparr>qps := (qps s)(p := None)\<rparr>) } }
      | None \<Rightarrow> Some (Some p, s1)) = Some (r, s')"
    using assms(1) unfolding qp_exists_def Let_def by (auto simp: bind_eq_Some_conv)
  have "kst_ok b s1" by (rule set_qp_root_keeps [OF s1(1) assms(2)])
  then show ?thesis using s1(2) by (auto simp: upd_qp_def bind_eq_Some_conv split: if_splits option.splits)
qed

lemma wait_enter_keeps: "wait_qp_enter L c q d s = Some (r, s') \<Longrightarrow> kst_ok b s \<Longrightarrow> kst_ok b s'"
  by (auto simp: wait_qp_enter_def bind_eq_Some_conv split: if_splits dest: get_qp_keeps)

lemma wait_leave_keeps: "wait_qp_leave L c q rc s = Some (r, s') \<Longrightarrow> kst_ok b s \<Longrightarrow> kst_ok b s'"
  by (cases "rc = 0") (auto simp: wait_qp_leave_timeout bind_eq_Some_conv dest!: fin_connected_keeps put_qp_keeps)

lemma hd_end_cases: "(case x of Stopped \<Rightarrow> A | Recv_end \<Rightarrow> B | Send_end \<Rightarrow> B) = (if x = Stopped then A else B)"
  by (cases x) simp_all

lemma half_duplex_keeps:
  assumes "half_duplex e q s = Some (r, s')" and "kst_ok b s"
  shows "kst_ok b s'"
proof -
  let ?s = "log_call (sched_setaffinity None) s"
  have "s' = ?s \<or> (\<exists>n. put_qp q ?s = Some (n, s'))"
    using assms(1) unfolding half_duplex_def Let_def hd_end_cases
    by (auto simp: bind_eq_Some_conv split: prod.splits if_splits)
  then show ?thesis using assms(2) put_qp_keeps [of q ?s] by auto
qed

text \<open>The steps of the connection threads.\<close>

lemma syn_socket_keeps: "syn_socket e a s = (r, t, a', s') \<Longrightarrow> kst_ok b s \<Longrightarrow> kst_ok b s'"
  by (auto simp: syn_socket_def do_call_def Let_def split: if_splits)

lemma accepted_socket_keeps: "accepted_socket e r m s = (res, s') \<Longrightarrow> kst_ok b s \<Longrightarrow> kst_ok b s'"
  by (auto simp: accepted_socket_def do_call_def Let_def split: if_splits)

lemma syn_ready_keeps: "syn_ready q s = Some (r, s') \<Longrightarrow> kst_ok b s \<Longrightarrow> kst_ok b s'"
  by (auto simp: syn_ready_def bind_eq_Some_conv Let_def split: if_splits dest: put_qp_keeps)

lemma conn_ready_keeps: "conn_ready q s = Some (r, s') \<Longrightarrow> kst_ok b s \<Longrightarrow> kst_ok b s'"
  by (auto simp: conn_ready_def bind_eq_Some_conv Let_def split: if_splits)

lemma tx_connect_keeps:
  assumes "start_new_connection_syn L e (Tx_connect c a q) s = Some (pc', s')" and "kst_ok b s"
  shows "kst_ok b s'"
proof -
  obtain ad where ad: "syns s a = Some ad" using assms(1) by (auto simp: bind_eq_Some_conv)
  obtain r t ad' s1 where so: "syn_socket e ad s = (r, t, ad', s1)" by (cases "syn_socket e ad s") auto
  have "kst_ok b s1" by (rule syn_socket_keeps [OF so assms(2)])
  then show ?thesis using assms(1) ad so unfolding start_new_connection_syn.simps Let_def
    by (auto simp: bind_eq_Some_conv upd_qp_def split: sum.splits if_splits dest!: wait_enter_keeps syn_ready_keeps)
qed

lemma rx_start_keeps:
  assumes "start_new_connection L e (Rx_start q) s = Some (pc', s')" and "kst_ok b s"
  shows "kst_ok b s'"
proof -
  obtain x r where x: "qps s q = Some x" "sock_of (rx x) = Some r" using assms(1) by (auto simp: bind_eq_Some_conv)
  obtain res s1 where so: "accepted_socket e r (tid x) s = (res, s1)" by (cases "accepted_socket e r (tid x) s") auto
  have "kst_ok b s1" "qp_wf x" using accepted_socket_keeps [OF so assms(2)] x(1) assms(2) by simp_all
  then show ?thesis using assms(1) x so unfolding start_new_connection.simps Let_def
    by (auto simp: bind_eq_Some_conv do_call_def upd_qp_def split: sum.splits if_splits
        dest!: qp_exists_keeps wait_enter_keeps conn_ready_keeps)
qed

lemma tx_start_keeps:
  assumes "start_new_connection_syn L e (Tx_start c a) s = Some (pc', s')" and "qp_wf (qp_mem e)" and "kst_ok b s"
  shows "kst_ok b s'"
proof -
  obtain ad p li where ad: "syns s a = Some ad" "new_qp e = Some p" "search_rb_listner (listners s) (listner_root s) (mark ad) = Some li"
    using assms(1) by (auto simp: bind_eq_Some_conv Let_def)
  define x where "x = (set_conn (sin_addr (dest ad)) (sin_port (src ad)) (sin_port (dest ad)) (sin_addr (src ad))
      (qp_mem e))\<lparr>ref_cnt := 0, rx := NULL, tx := ERR_PTR (- EINVAL), listner := li\<rparr>"
  obtain qp s1 where s1: "qp_exists L c p TX_QP (s\<lparr>qps := (qps s)(p \<mapsto> x)\<rparr>) = Some (qp, s1)"
    "s' = s1 \<or> s' = s1\<lparr>syns := (syns s1)(a := None)\<rparr>"
    using assms(1) ad by (auto simp: bind_eq_Some_conv x_def Let_def split: option.splits)
  have "kst_ok b (s\<lparr>qps := (qps s)(p \<mapsto> x)\<rparr>)" using assms(2,3) by (simp add: x_def)
  from qp_exists_keeps [OF s1(1) this] show ?thesis using s1(2) by auto
qed

lemma tx_keeps:
  assumes "start_new_connection_syn L e pc s = Some (pc', s')" and "qp_wf (qp_mem e)" and "kst_ok b s"
  shows "kst_ok b s'"
proof (cases pc)
  case (Tx_start c a)
  then show ?thesis using tx_start_keeps assms by metis
next
  case (Tx_connect c a q)
  then show ?thesis using tx_connect_keeps assms by metis
qed (use assms in \<open>auto simp: bind_eq_Some_conv split: if_splits dest!: wait_leave_keeps syn_ready_keeps half_duplex_keeps\<close>)

lemma rx_keeps:
  assumes "start_new_connection L e pc s = Some (pc', s')" and "kst_ok b s"
  shows "kst_ok b s'"
proof (cases pc)
  case (Rx_start q)
  then show ?thesis using rx_start_keeps assms by metis
qed (use assms in \<open>auto simp: bind_eq_Some_conv split: if_splits dest!: wait_leave_keeps conn_ready_keeps half_duplex_keeps\<close>)

text \<open>Hooks, probe and commands.\<close>

lemma ingress_keeps:
  assumes "cbn_ingress_hook e priv skb s = Some (v, s')" and "kst_ok b s"
  shows "kst_ok b s'"
proof (cases "priv = ''RX'' \<and> skb_mark skb \<noteq> 0")
  case True
  then obtain l where l: "search_rb_listner (listners s) (listner_root s) (skb_mark skb) = Some l"
    using assms(1) by (auto simp: cbn_ingress_hook_def bind_eq_Some_conv)
  then show ?thesis using assms True
    by (cases l; cases "new_probe e") (auto simp: cbn_ingress_hook_def Let_def split: if_splits)
qed (use assms in \<open>auto simp: cbn_ingress_hook_def split: if_splits\<close>)

lemma egress_keeps:
  assumes "cbn_egress_hook e skb s = Some (v, skb', s')" and "kst_ok b s"
  shows "kst_ok b s'"
proof -
  obtain ao s1 where s1: "build_addresses e skb s = (ao, s1)" by (cases "build_addresses e skb s") auto
  then have "kst_ok b s1" using assms(2) by (auto simp: build_addresses_def Let_def split: option.splits)
  then show ?thesis
    using assms s1 unfolding cbn_egress_hook_def set_cbn_probe_def Let_def
    by (auto simp: bind_eq_Some_conv split: if_splits option.splits)
qed

lemma probe_keeps: "start_probe_syn rc p s = Some (n, s') \<Longrightarrow> kst_ok b s \<Longrightarrow> kst_ok b s'"
  by (auto simp: start_probe_syn_def bind_eq_Some_conv Let_def)

text \<open>What the search returns is in the tree, whatever is searched for.\<close>

lemma rb_search_in: "rb_search res t = Some (Some x) \<Longrightarrow> x \<in> set_tree t"
  by (induction t) (auto simp: bind_eq_Some_conv split: if_splits)

lemma remove_keeps: "rbtree_lib_ok L \<Longrightarrow> remove_listner_server L l s = Some s' \<Longrightarrow> kst_ok b s \<Longrightarrow> kst_ok b s'"
proof -
  assume a: "rbtree_lib_ok L" "remove_listner_server L l s = Some s'" "kst_ok b s"
  then have l: "l \<in> set_tree (listner_root s)" and q: "qps s' = qps s"
    by (auto simp: remove_listner_server_def bind_eq_Some_conv Let_def split: if_splits option.splits)
  have "sock_open s l"
    using a(2) by (auto simp: remove_listner_server_def sock_open_def bind_eq_Some_conv split: if_splits)
  from remove_any [OF a(1) _ l this, of b] a(2,3) q show "kst_ok b s'"
    by (auto simp: kst_ok_def split: option.splits)
qed

lemma del_server_keeps: "rbtree_lib_ok L \<Longrightarrow> del_server_cb L t s = Some s' \<Longrightarrow> kst_ok b s \<Longrightarrow> kst_ok b s'"
  by (auto simp: del_server_cb_def bind_eq_Some_conv split: option.splits dest: remove_keeps)

section \<open>The server thread\<close>

lemma sv_error_keeps: "rbtree_lib_ok L \<Longrightarrow> sv_error L rc srv k s = Some (pc, s') \<Longrightarrow> kst_ok b s \<Longrightarrow> kst_ok b s' \<and> pc = Sv_done rc"
  by (cases srv; cases k) (auto simp: sv_error_def bind_eq_Some_conv dest!: remove_keeps)

lemma raw_socket_keeps: "craete_prec_conn_probe rc t m s = (r, s') \<Longrightarrow> kst_ok b s \<Longrightarrow> kst_ok b s'"
  by (auto simp: craete_prec_conn_probe_def Let_def split: if_splits)

lemma register_keeps:
  assumes "rbtree_lib_ok L" and "register_server_sock L e t k s = Some (r, s')" and "kst_ok b s" and "window b t"
    and "\<forall>l. new_listner e = Some l \<longrightarrow> listners s l = None"
  shows "kst_ok b s'"
proof (cases "s' = s")
  case False
  then obtain l cr where l: "new_listner e = Some l" and li: "(let li = (listner_mem e)\<lparr>connections_root := cr, lkey := t, lsock := k\<rparr>;
        s = s\<lparr>listners := (listners s)(l \<mapsto> li)\<rparr> in do {
        (_, root) \<leftarrow> add_rb_listner L (listners s) (listner_root s) l; Some (Some l, s\<lparr>listner_root := root\<rparr>) }) = Some (r, s')"
    using assms(2) unfolding register_server_sock_def by (auto split: option.splits)
  let ?li = "(listner_mem e)\<lparr>connections_root := cr, lkey := t, lsock := k\<rparr>"
  let ?ls = "(listners s)(l \<mapsto> ?li)"
  have t: "tenants_ok b s" using assms(3) by (simp add: kst_ok_def)
  have "l \<notin> set_tree (listner_root s)" using listner_tree_live [OF t] l assms(5) by blast
  then have "map_option lkey (?ls x) = map_option lkey (listners s x)" if "x \<in> set_tree (listner_root s)" for x
    using that by auto
  then have "listner_tree b ?ls (listner_root s)" using listner_tree_cong(1) [of "listner_root s" ?ls "listners s" b] t by simp
  then obtain dup root where "add_rb_listner L ?ls (listner_root s) l = Some (dup, root)" "listner_tree b ?ls root"
    using add_listner_map [OF assms(1), of b ?ls "listner_root s" l ?li] assms(4) by auto
  then show ?thesis using li assms(3) by (auto simp: kst_ok_def)
qed (use assms(3) in simp)

lemma server_keeps:
  assumes "rbtree_lib_ok L" and "split_server L e pc s = Some (pc', s')" and "kst_ok b s" and "task_ok b (T_server pc)"
    and "\<forall>l. new_listner e = Some l \<longrightarrow> listners s l = None" and "qp_wf (sv_qp_mem e)"
  shows "kst_ok b s' \<and> task_ok b (T_server pc')"
proof (cases pc)
  case (Sv_register m p)
  obtain srv s1 where s1: "register_server_sock L e m None s = Some (srv, s1)"
    using assms(2) Sv_register by (auto simp: bind_eq_Some_conv)
  have "kst_ok b s1" using register_keeps [OF assms(1) s1 assms(3)] assms(4,5) Sv_register by simp
  then show ?thesis using assms(2) Sv_register s1
    by (auto simp: bind_eq_Some_conv split: option.splits dest!: upd_listner_ok sv_error_keeps [OF assms(1)])
next
  case (Sv_raw m l k)
  obtain r s1 where s1: "craete_prec_conn_probe (sv_rc e) (raw_sock e) m s = (r, s1)"
    by (cases "craete_prec_conn_probe (sv_rc e) (raw_sock e) m s") auto
  have "kst_ok b s1" by (rule raw_socket_keeps [OF s1 assms(3)])
  then show ?thesis using assms(2) Sv_raw s1
    by (auto simp: bind_eq_Some_conv split: if_splits dest!: upd_listner_ok sv_error_keeps [OF assms(1)])
next
  case (Sv_accept m l k)
  then show ?thesis using assms(2,3,6)
    by (auto simp: bind_eq_Some_conv sv_call_def Let_def split: if_splits dest!: upd_listner_ok sv_error_keeps [OF assms(1)])
qed (use assms(2-4) in \<open>auto simp: bind_eq_Some_conv sv_call_def Let_def split: if_splits prod.splits dest!: upd_listner_ok sv_error_keeps [OF assms(1)]\<close>)

section \<open>The pool of connections and its threads\<close>

lemma pool_live_upd:
  assumes "upd_pcpl p c f s = Some s'" and "pool_live C s" and "p \<in> set_tree (preconn_root s)"
    and "\<And>l x. preconns s p = Some x \<Longrightarrow> pcp_list x = Some l \<Longrightarrow> pcpl_len (l c) \<Longrightarrow> pcpl_len (f (l c))"
  shows "pool_live C s'"
proof -
  obtain x l where x: "preconns s p = Some x" "pcp_list x = Some l" "\<forall>c \<in> C. pcpl_len (l c)"
    using assms(2,3) by (auto simp: pool_live_def)
  then have "s' = s\<lparr>preconns := (preconns s)(p \<mapsto> x\<lparr>pcp_list := Some (l(c := f (l c)))\<rparr>)\<rparr>"
    using assms(1) by (simp add: upd_pcpl_def)
  then show ?thesis using assms(2,4) x by (auto simp: pool_live_def)
qed

lemma search_preconn_in: "search_rb_preconn k s = Some (Some p) \<Longrightarrow> p \<in> set_tree (preconn_root s)"
  by (auto simp: search_rb_preconn_def dest: rb_search_in)

lemma map_sum_Inr: "map_sum id f z = Inr t \<longleftrightarrow> (\<exists>y. z = Inr y \<and> t = f y)"
  by (cases z) auto

lemma rb_walk_set: "rb_walk res d t = Some (Inr t') \<Longrightarrow> set_tree t' = insert d (set_tree t)"
  by (induction t arbitrary: t') (auto simp: bind_eq_Some_conv map_sum_Inr split: if_splits)

lemma add_preconn_set:
  assumes "rbtree_lib_ok L" and "add_rb_preconn L d s = Some (dup, s')"
  shows "\<exists>t. s' = s\<lparr>preconn_root := t\<rparr> \<and> set_tree t = (if dup = None then insert d (set_tree (preconn_root s)) else set_tree (preconn_root s))"
proof -
  obtain x w where x: "preconns s d = Some x"
    "rb_walk (\<lambda>this. map_option (\<lambda>y. key_diff (pkey x) (pkey y)) (preconns s this)) d (preconn_root s) = Some w"
    using assms(2) by (auto simp: add_rb_preconn_def bind_eq_Some_conv)
  show ?thesis
  proof (cases w)
    case (Inl q)
    then show ?thesis using assms(2) x by (auto simp: add_rb_preconn_def rb_insert_result_def intro!: exI [of _ "preconn_root s"])
  next
    case (Inr t)
    have "inorder (rb_insert_color L d t) = inorder t" using assms(1) by (simp add: rbtree_lib_ok_def)
    then have "set_tree (rb_insert_color L d t) = insert d (set_tree (preconn_root s))"
      using rb_walk_set [of _ d "preconn_root s" t] x(2) Inr set_inorder by metis
    then show ?thesis using assms(2) x Inr by (auto simp: add_rb_preconn_def rb_insert_result_def)
  qed
qed

lemma get_preconn_keeps:
  assumes "rbtree_lib_ok L" and "get_rb_preconn L e k s = Some (r, s')" and "pool_live C s" and "preconn_env_ok C e s"
  shows "pool_live C s' \<and> (\<forall>p. r = Some p \<longrightarrow> p \<in> set_tree (preconn_root s'))"
proof -
  obtain f where f: "search_rb_preconn k s = Some f" using assms(2) by (auto simp: get_rb_preconn_def bind_eq_Some_conv)
  show ?thesis
  proof (cases "f = None \<and> new_preconn e \<noteq> None")
    case False
    then show ?thesis using assms(2,3) f search_preconn_in [of k s]
      by (auto simp: get_rb_preconn_def split: option.splits if_splits)
  next
    case True
    then obtain p where p: "new_preconn e = Some p" by blast
    have fresh: "preconns s p = None" and C: "C \<subseteq> set (preconn_cpus e)" using assms(4) p by (simp_all add: preconn_env_ok_def)
    have np: "p \<notin> set_tree (preconn_root s)" using fresh assms(3) by (force simp: pool_live_def)
    obtain l where l: "percpu_area e = Some l"
      using assms(2) f True p by (cases "percpu_area e") (auto simp: get_rb_preconn_def init_preconn_def add_rb_preconn_def Let_def)
    define x where "x = (preconn_mem e)\<lparr>pkey := k, pcp_list := Some (\<lambda>c. if c \<in> set (preconn_cpus e) then \<lparr>plist = [], len = 0\<rparr> else l c)\<rparr>"
    define s1 where "s1 = s\<lparr>preconns := (preconns s)(p \<mapsto> x)\<rparr>"
    obtain dup s2 where s2: "add_rb_preconn L p s1 = Some (dup, s2)"
      "(r, s') = (if dup \<noteq> None then (None, s2\<lparr>preconns := (preconns s2)(p := None)\<rparr>) else (Some p, s2))"
      using assms(2) f True p l unfolding get_rb_preconn_def init_preconn_def Let_def
      by (auto simp: bind_eq_Some_conv s1_def x_def split: if_splits)
    have x: "pcp_list x = Some l'" "\<forall>c \<in> C. pcpl_len (l' c)" if "l' = (\<lambda>c. if c \<in> set (preconn_cpus e) then \<lparr>plist = [], len = 0\<rparr> else l c)" for l'
      using that C by (auto simp: x_def pcpl_len_def)
    have new: "pool_live C (s1\<lparr>preconn_root := t\<rparr>)" if "set_tree t = insert p (set_tree (preconn_root s))" for t
      using that assms(3) x np by (auto simp: pool_live_def s1_def)
    have old: "pool_live C (s1\<lparr>preconns := (preconns s1)(p := None)\<rparr>)"
      using assms(3) np by (auto simp: pool_live_def s1_def)
    obtain t where t: "s2 = s1\<lparr>preconn_root := t\<rparr>" "set_tree t = (if dup = None then insert p (set_tree (preconn_root s1)) else set_tree (preconn_root s1))"
      using add_preconn_set [OF assms(1) s2(1)] by blast
    have "preconn_root s1 = preconn_root s" by (simp add: s1_def)
    then show ?thesis using t s2(2) new old assms(3) np by (auto simp: pool_live_def s1_def split: if_splits)
  qed
qed

lemma cp_ok_parts: "cp_ok b C s \<Longrightarrow> kst_ok b (base s)" "cp_ok b C s \<Longrightarrow> pool_live C (preconn s)"
  by (simp_all add: cp_ok_def)

lemma cp_ok_base [simp]: "cp_ok b C s \<Longrightarrow> kst_ok b b' \<Longrightarrow> cp_ok b C (s\<lparr>base := b'\<rparr>)"
  by (simp add: cp_ok_def)

lemma cp_ok_preconn [simp]: "cp_ok b C s \<Longrightarrow> pool_live C p \<Longrightarrow> cp_ok b C (s\<lparr>preconn := p\<rparr>)"
  by (simp add: cp_ok_def)

lemma cp_ok_run [simp]: "cp_ok b C s \<Longrightarrow> call_ok b (run_in_pool f c) \<Longrightarrow> cp_ok b C (cp_run f c s)"
  by (simp add: cp_ok_def cp_run_def)

lemma cp_ok_runs: "cp_ok b C s \<Longrightarrow> call_ok b (run_in_pool f c) \<Longrightarrow> cp_ok b C ((cp_run f c ^^ n) s)"
  by (induction n) simp_all

lemma prealloc_loop_keeps: "prealloc_loop p arg cs s = Some s' \<Longrightarrow> cp_ok b C s \<Longrightarrow> cp_ok b C s'"
proof (induction cs arbitrary: s)
  case (Cons c cs)
  have "cp_ok b C ((cp_run (Prealloc_connection arg) (Some c) ^^ PER_CORE_POOL_MIN) s)"
    using Cons.prems(2) by (rule cp_ok_runs) simp
  then show ?case using Cons by (auto simp: bind_eq_Some_conv Let_def simp del: funpow.simps split: if_splits)
qed simp

lemma alloc_keeps:
  assumes "alloc_prexeisting_conn c ip s = Some (q, s')" and "cp_ok b C s"
  shows "cp_ok b C s'"
proof -
  obtain p where p: "search_rb_preconn ip (preconn s) = Some p" using assms(1) by (auto simp: alloc_prexeisting_conn_def bind_eq_Some_conv)
  show ?thesis
  proof (cases p)
    case None
    then show ?thesis using assms p by (auto simp: alloc_prexeisting_conn_def)
  next
    case (Some n)
    have n: "n \<in> set_tree (preconn_root (preconn s))" using search_preconn_in p Some by simp
    obtain x l where x: "preconns (preconn s) n = Some x" "pcp_list x = Some l"
      using assms(1) p Some by (auto simp: alloc_prexeisting_conn_def bind_eq_Some_conv Let_def)
    show ?thesis
    proof (cases "plist (l c)")
      case Nil
      then show ?thesis using assms p Some x by (auto simp: alloc_prexeisting_conn_def)
    next
      case (Cons z zs)
      let ?f = "\<lambda>l. l\<lparr>len := len l - 1, plist := tl (plist l)\<rparr>"
      obtain pc where pc: "upd_pcpl n c ?f (preconn s) = Some pc"
        using x by (simp add: upd_pcpl_def)
      have "pool_live C pc"
        by (rule pool_live_upd [OF pc cp_ok_parts(2) [OF assms(2)] n]) (use x Cons in \<open>auto simp: pcpl_len_def\<close>)
      then show ?thesis using assms p Some x Cons pc by (auto simp: alloc_prexeisting_conn_def)
    qed
  qed
qed

lemma add_qp_keeps:
  assumes "rbtree_lib_ok L" and "add_preconn_qp L e c q s = Some (rc, s')" and "cp_ok b C s" and "preconn_env_ok C (penv e) (preconn s)"
  shows "cp_ok b C s'"
proof -
  obtain x p pc where x: "qps (base s) q = Some x" "get_rb_preconn L (penv e) (addr_d x) (preconn s) = Some (p, pc)"
    using assms(2) by (auto simp: add_preconn_qp_def bind_eq_Some_conv)
  have pc: "pool_live C pc" "\<And>n. p = Some n \<Longrightarrow> n \<in> set_tree (preconn_root pc)"
    using get_preconn_keeps [OF assms(1) x(2) cp_ok_parts(2) [OF assms(3)] assms(4)] by auto
  show ?thesis
  proof (cases p)
    case None
    then show ?thesis using assms(2,3) x pc(1) by (auto simp: add_preconn_qp_def)
  next
    case (Some n)
    then obtain pc' where pc': "upd_pcpl n c (\<lambda>l. l\<lparr>plist := q # plist l, len := len l + 1\<rparr>) pc = Some pc'" "s' = s\<lparr>preconn := pc'\<rparr>"
      using assms(2) x by (auto simp: add_preconn_qp_def bind_eq_Some_conv)
    have "pool_live C pc'" by (rule pool_live_upd [OF pc'(1) pc(1)]) (use pc(2) Some in \<open>auto simp: pcpl_len_def\<close>)
    then show ?thesis using assms(3) pc'(2) by simp
  qed
qed

lemma prealloc_socket_keeps: "prealloc_socket e a s = (rc, t, s') \<Longrightarrow> kst_ok b s \<Longrightarrow> kst_ok b s'"
  by (auto simp: prealloc_socket_def do_call_def Let_def split: if_splits)

lemma prealloc_keeps:
  assumes "rbtree_lib_ok L" and "prealloc_connection L e c arg s = Some (rc, s')" and "cp_ok b C s"
    and "preconn_env_ok C (penv e) (preconn s)" and "qp_wf (qp_mem (kenv e))"
  shows "cp_ok b C s'"
proof -
  define a where "a = fill_preconn_address (ucast arg) zero_addresses"
  obtain q where q: "new_qp (kenv e) = Some q" using assms(2) by (auto simp: prealloc_connection_def bind_eq_Some_conv Let_def)
  define x where "x = set_port_d (sin_port (dest a)) (set_addr_d (sin_addr (dest a)) ((qp_mem (kenv e))\<lparr>ref_cnt := 0\<rparr>))"
  have "qp_wf x" using assms(5) by (simp add: x_def)
  then have s1: "kst_ok b ((base s)\<lparr>qps := (qps (base s))(q \<mapsto> x)\<rparr>)" using cp_ok_parts(1) [OF assms(3)] by simp
  obtain rc1 t b1 where so: "prealloc_socket e a ((base s)\<lparr>qps := (qps (base s))(q \<mapsto> x)\<rparr>) = (rc1, t, b1)"
    by (cases "prealloc_socket e a ((base s)\<lparr>qps := (qps (base s))(q \<mapsto> x)\<rparr>)") auto
  have b1: "kst_ok b b1" by (rule prealloc_socket_keeps [OF so s1])
  show ?thesis
  proof (cases "rc1 = 0")
    case False
    then have "s' = s\<lparr>base := sock_call sock_release t b1\<rparr>"
      using assms(2) q so by (simp add: prealloc_connection_def a_def [symmetric] x_def [symmetric] Let_def)
    then show ?thesis using assms(3) b1 by simp
  next
    case True
    then obtain b2 s2 rc2 where b2: "upd_qp q (\<lambda>x. x\<lparr>tx := t, rx := NULL\<rparr>) b1 = Some b2"
      "add_preconn_qp L e c q (s\<lparr>base := b2\<rparr>) = Some (rc2, s2)"
      "s' = (if rc2 \<noteq> 0 then s2\<lparr>base := sock_call sock_release t (base s2)\<rparr> else s2)"
      using assms(2) q so by (auto simp: prealloc_connection_def a_def [symmetric] x_def [symmetric] bind_eq_Some_conv Let_def)
    have "kst_ok b b2" by (rule upd_qp_ok [OF b2(1) b1]) simp
    then have "cp_ok b C s2" using add_qp_keeps [OF assms(1) b2(2)] assms(3,4) by simp
    then show ?thesis using b2(3) cp_ok_parts(1) by simp
  qed
qed

lemma pre_ready_keeps: "pre_ready e q s = Some (pc, s') \<Longrightarrow> s' = s"
  by (auto simp: pre_ready_def bind_eq_Some_conv)

lemma ps_start_keeps:
  assumes "start_new_pre_connection_syn L e (Ps_start c a) s = Some (pc', s')" and "cp_ok b C s"
  shows "cp_ok b C s'"
proof -
  obtain ad q s1 where s1: "syns (base s) a = Some ad" "alloc_prexeisting_conn c (hop_addr ad) s = Some (q, s1)"
    using assms(1) by (auto simp: bind_eq_Some_conv)
  have k: "cp_ok b C s1" by (rule alloc_keeps [OF s1(2) assms(2)])
  show ?thesis
  proof (cases q)
    case None
    then show ?thesis using assms(1) s1 k by auto
  next
    case (Some z)
    obtain b1 li where b1: "upd_qp z (set_conn (sin_addr (dest ad)) (sin_port (src ad)) (sin_port (dest ad)) (sin_addr (src ad))) (base s1) = Some b1"
      "search_rb_listner (listners b1) (listner_root b1) (mark ad) = Some li"
      using assms(1) s1 Some by (auto simp: bind_eq_Some_conv)
    have k1: "kst_ok b b1" by (rule upd_qp_ok [OF b1(1) cp_ok_parts(1) [OF k]]) simp
    show ?thesis
    proof (cases li)
      case None
      then show ?thesis using assms(1) s1 Some b1 k k1 by auto
    next
      case (Some l)
      obtain b2 r b3 where b2: "upd_qp z (\<lambda>x. x\<lparr>listner := Some l\<rparr>) b1 = Some b2" "qp_exists L c z TX_QP b2 = Some (r, b3)"
        "s' = s1\<lparr>base := b3\<rparr>"
        using assms(1) s1 \<open>q = Some z\<close> b1 Some by (auto simp: bind_eq_Some_conv split: option.splits)
      have "kst_ok b b2" by (rule upd_qp_ok [OF b2(1) k1]) simp
      then show ?thesis using qp_exists_keeps [OF b2(2)] k b2(3) by simp
    qed
  qed
qed

lemma ps_keeps:
  assumes "start_new_pre_connection_syn L e pc s = Some (pc', s')" and "cp_ok b C s" and "qp_wf (qp_mem (kenv e))"
  shows "cp_ok b C s'"
proof (cases pc)
  case (Ps_start c a)
  then show ?thesis using ps_start_keeps assms by metis
next
  case (Ps_syn rc pc1)
  then show ?thesis using assms cp_ok_parts(1) [OF assms(2)] by (auto simp: bind_eq_Some_conv dest!: tx_keeps)
qed (use assms cp_ok_parts(1) [OF assms(2)] in \<open>auto simp: bind_eq_Some_conv forward_conn_info_def do_call_def Let_def
  split: if_splits dest!: wait_enter_keeps wait_leave_keeps half_duplex_keeps pre_ready_keeps\<close>)

lemma pending_socket_keeps: "pending_socket e t a s = (r, s') \<Longrightarrow> kst_ok b s \<Longrightarrow> kst_ok b s'"
  by (auto simp: pending_socket_def do_call_def Let_def split: if_splits)

lemma pn_keeps:
  assumes "start_new_pending_connection L e c pc s = Some (pc', s')" and "kst_ok b s"
  shows "kst_ok b s'"
proof (cases pc)
  case (Pn_start q)
  show ?thesis
  proof (cases "rc_of (kenv e) sock_create_kern = 0")
    case True
    let ?s = "log_call sock_create_kern s"
    obtain x r where x: "qps s q = Some x" "sock_of (rx x) = Some r"
      using assms(1) Pn_start True by (auto simp: do_call_def bind_eq_Some_conv)
    obtain res s2 where so: "pending_socket e (new_sock (kenv e)) (recv_addr e) (log_call (recvmsg_addresses r) ?s) = (res, s2)"
      by (cases "pending_socket e (new_sock (kenv e)) (recv_addr e) (log_call (recvmsg_addresses r) ?s)") auto
    have "kst_ok b s2" using pending_socket_keeps [OF so] assms(2) by simp
    then show ?thesis using assms Pn_start True x so
      by (auto simp: do_call_def preconn_wait_for_next_hop_def bind_eq_Some_conv upd_qp_def Let_def
          split: if_splits sum.splits dest!: get_qp_keeps)
  qed (use assms Pn_start in \<open>auto simp: do_call_def\<close>)
qed (use assms in \<open>auto simp: bind_eq_Some_conv dest: half_duplex_keeps\<close>)

lemma listner_socket_keeps: "listner_socket e arg s = (r, s') \<Longrightarrow> kst_ok b s \<Longrightarrow> kst_ok b s'"
  by (auto simp: listner_socket_def do_call_def Let_def split: if_splits)

lemma pl_keeps:
  assumes "prec_conn_listner_server e pc s = Some (pc', s')" and "cp_ok b C s" and "qp_wf (qp_mem (kenv e))"
  shows "cp_ok b C s'"
proof (cases pc)
  case (Pl_start arg)
  obtain r b1 where so: "listner_socket e arg (base s) = (r, b1)" by (cases "listner_socket e arg (base s)") auto
  have "kst_ok b b1" by (rule listner_socket_keeps [OF so cp_ok_parts(1) [OF assms(2)]])
  then show ?thesis using assms(1,2) Pl_start so
    by (auto simp: preconn_resgister_server_def cp_ok_def Let_def split: sum.splits option.splits)
next
  case (Pl_accept f k)
  then show ?thesis using assms cp_ok_parts(1) [OF assms(2)]
    by (auto simp: do_call_def listner_out_def cp_ok_def bind_eq_Some_conv Let_def split: if_splits)
qed (use assms in auto)

text \<open>Writing to a file.\<close>

lemma preconn_write_keeps: "cp_ok b C s \<Longrightarrow> cp_ok b C (preconn_write_cb cpus xs s)"
proof -
  assume s: "cp_ok b C s"
  have "cp_ok b C (fold (\<lambda>c. cp_run (Prealloc_connection u) (Some c) ^^ PER_CORE_POOL_MIN) cpus s)" for u
    using s
  proof (induction cpus arbitrary: s)
    case (Cons c cpus)
    from cp_ok_runs [OF Cons.prems, of "Prealloc_connection u" "Some c" PER_CORE_POOL_MIN] show ?case
      using Cons.IH by (simp del: funpow.simps)
  qed simp
  then show ?thesis using s by (simp add: preconn_write_cb_def Let_def)
qed

lemma write_file_keeps:
  assumes "rbtree_lib_ok L" and "write_file L cpus e name sz s = Some (rc, s')" and "cp_ok b C s"
    and "\<And>v. name = ''cbn_proc'' \<Longrightarrow> proc_values e (PROC_CSV_NUM + 1) sz = Inr v \<Longrightarrow> window b (v ! 1)"
  shows "cp_ok b C s'"
proof -
  have 1: "cp_ok b C s'" if "cbn_add_server e sz s = Some (rc, s')" "name = ''cbn_proc''"
    using that assms(3) cp_ok_parts(1) [OF assms(3)] assms(4)
    by (auto simp: cbn_add_server_def arr_get_def add_server_cb_def void2uint_uint2void bind_eq_Some_conv split: sum.splits if_splits)
  have 2: "cp_ok b C s'" if "cbn_del_server L e sz s = Some (rc, s')"
    using that assms(3) cp_ok_parts(1) [OF assms(3)]
    by (auto simp: cbn_del_server_def bind_eq_Some_conv split: sum.splits if_splits dest!: del_server_keeps [OF assms(1)])
  have 3: "cp_ok b C s'" if "preconn_proc_command cpus e sz s = Some (rc, s')"
    using that assms(3) by (auto simp: preconn_proc_command_def bind_eq_Some_conv preconn_write_keeps split: sum.splits if_splits)
  have 4: "cp_ok b C s'" if "cbn_transparent_command e sz s = Some (rc, s')"
    using that assms(3) cp_ok_parts(1) [OF assms(3)]
    by (auto simp: cbn_transparent_command_def bind_eq_Some_conv split: sum.splits if_splits)
  show ?thesis using assms(2,3) 1 2 3 4
    by (auto simp: write_file_def proc_files_def proc_fops_defs split: if_splits)
qed

section \<open>Every event keeps the invariant\<close>

lemma task_keeps:
  assumes "rbtree_lib_ok L" and "task_step L e t s = Some (t', s')" and "cp_ok b C s" and "task_ok b t" and "sys_env_ok C e s"
  shows "cp_ok b C s' \<and> task_ok b t'"
proof -
  note k = cp_ok_parts(1) [OF assms(3)]
  have e: "qp_wf (qp_mem (kenv (cpe e)))" "preconn_env_ok C (penv (cpe e)) (preconn s)" "qp_wf (sv_qp_mem (sve e))"
    "\<forall>l. new_listner (sve e) = Some l \<longrightarrow> listners (base s) l = None" using assms(5) by (simp_all add: sys_env_ok_def)
  show ?thesis
  proof (cases t)
    case (T_server pc)
    then obtain pc' b1 where "split_server L (sve e) pc (base s) = Some (pc', b1)" "t' = T_server pc'" "s' = s\<lparr>base := b1\<rparr>"
      using assms(2) by (auto simp: bind_eq_Some_conv)
    then show ?thesis using server_keeps [OF assms(1) _ k _ e(4,3)] assms(3,4) T_server by auto
  next
    case (T_pre pc)
    then show ?thesis using assms(2,3) e(1) by (auto simp: bind_eq_Some_conv dest: ps_keeps)
  next
    case (T_listner pc)
    then show ?thesis using assms(2,3) e(1) by (auto simp: bind_eq_Some_conv dest: pl_keeps)
  next
    case (T_prealloc c u)
    then show ?thesis using assms(1-3) e(1,2) by (auto simp: bind_eq_Some_conv dest: prealloc_keeps)
  next
    case (T_pool u)
    then show ?thesis using assms(2,3) by (auto simp: bind_eq_Some_conv prealloc_connection_pool_def dest: prealloc_loop_keeps)
  qed (use assms(2,3) k e(1) in \<open>auto simp: bind_eq_Some_conv start_half_duplex_def
    dest!: tx_keeps rx_keeps pn_keeps probe_keeps half_duplex_keeps\<close>)
qed

lemma event_keeps:
  assumes "rbtree_lib_ok L" and "event_step L e ev ts s = Some (ts', s')" and "cp_ok b C s" and "list_all (task_ok b) ts"
    and "sys_env_ok C e s" and "event_ok b e ev"
  shows "cp_ok b C s' \<and> list_all (task_ok b) ts'"
proof (cases ev)
  case (Run i)
  then obtain t t' where t: "task_step L e t s = Some (t', s')" "t \<in> set ts" "ts' = ts[i := t']"
    using assms(2) by (auto simp: arr_get_def bind_eq_Some_conv split: if_splits)
  then have "cp_ok b C s' \<and> task_ok b t'" using task_keeps [OF assms(1) t(1) assms(3) _ assms(5)] assms(4) by (simp add: list_all_iff)
  then show ?thesis using t(3) assms(4) set_update_subset_insert [of ts i t'] by (auto simp: list_all_iff)
next
  case (Write_file name sz)
  then show ?thesis using assms(2-4,6) write_file_keeps [OF assms(1), of "cmd_cpus e" "pre e" name sz s _ s' b C]
    by (auto simp: bind_eq_Some_conv event_ok_def)
qed (use assms(2-4) cp_ok_parts(1) [OF assms(3)] in \<open>auto simp: bind_eq_Some_conv dest!: ingress_keeps egress_keeps\<close>)

lemma spawned_ok: "list_all (call_ok b) cs \<Longrightarrow> list_all (task_ok b) (spawned c cs)"
proof (induction c cs rule: spawned.induct)
  case (2 c f co cs)
  then show ?case by (cases f) auto
qed simp_all

lemma sys_move_inv:
  assumes "rbtree_lib_ok L" and "sys_inv b C S" and "sys_move L b C S S'"
  shows "sys_inv b C S'"
  using assms(3)
proof cases
  case (1 e ev)
  then obtain ts s where ts: "event_step L e ev (tasks S) (conns (md S)) = Some (ts, s)"
    "S' = \<lparr>md = (md S)\<lparr>conns := s\<rparr>, tasks = ts @ spawned (free_core e) (drop (length (calls (base (conns (md S))))) (calls (base s)))\<rparr>"
    by (auto simp: sys_step_def bind_eq_Some_conv Let_def)
  have s: "cp_ok b C s" "list_all (task_ok b) ts"
    using event_keeps [OF assms(1) ts(1) _ _ 1(1,2)] assms(2) by (simp_all add: sys_inv_def)
  have "list_all (call_ok b) (calls (base s))" using cp_ok_parts(1) [OF s(1)] by (simp add: kst_ok_def)
  then have "list_all (call_ok b) (drop n (calls (base s)))" for n by (auto simp: list_all_iff dest: in_set_dropD)
  then show ?thesis using s ts(2) assms(2) spawned_ok by (simp add: sys_inv_def)
qed

lemma loaded_state:
  assumes "cbn_datapath_init le ktcp0 = Some (0, m)"
  shows "conns m = cp_state0" "mcalls m = load_calls" "listner_thread m = Some (Pl_start (ucast PRECONN_SERVER_PORT))"
  using assms by (auto simp: cbn_datapath_init_def kthread_pool_start_def pre_connect_start_def cbn_pre_connect_init_def
      cbn_proc_init_def log_m_def ktcp0_def cp_state0_def proc_files_def load_calls_def bind_eq_Some_conv Let_def split: if_splits)

lemma cp_state0_ok: "cp_ok b C cp_state0"
  by (simp add: cp_ok_def cp_state0_def kst_ok_def kstate0_def pool_live_def listner_tree_def rb_ordered_def)

lemma sys_loaded_inv: "sys_loaded le S \<Longrightarrow> sys_inv b C S"
  by (auto simp: sys_loaded_def sys_inv_def loaded_state cp_state0_ok)

interpretation sys: invariant_system "sys_loaded le" "\<lambda>S S'. rbtree_lib_ok L \<and> sys_move L b C S S'" "sys_inv b C" for le L b C
  by unfold_locales (auto intro: sys_loaded_inv sys_move_inv)

lemma sys_reach_inv: "rbtree_lib_ok L \<Longrightarrow> reach (sys_loaded le) (sys_move L b C) S \<Longrightarrow> sys_inv b C S"
  using sys.reach_inv [of le L b C S] by simp

lemma stop_loop_qps: "stop_loop L n p s = Some s' \<Longrightarrow> qps s' = qps s"
proof (induction n arbitrary: p s)
  case 0
  then show ?case by (cases p) simp_all
next
  case (Suc n)
  then show ?case
    by (cases p) (auto simp: bind_eq_Some_conv remove_listner_server_def Let_def split: if_splits option.splits)
qed

section \<open>Properties\<close>


text \<open>C6. What unloading does at any moment after loading, under the assumptions on tenant ids and allocations of
  \<open>module_well_formed\<close>. It does not oops if the thread that listens for other hops, once it has registered
  its socket, still runs, and no server thread has released the socket of a listener that is still in the
  tree: then it destroys exactly the caches that loading created and leaves the listener tree in order, but
  releases no connection, so that every QP is still there when its cache is destroyed. If the thread that
  listens for other hops has returned, unloading always oopses.\<close>

theorem module_unloads:
  assumes "rbtree_lib_ok L" and "reach (sys_loaded le) (sys_move L b C) S"
  shows "if hop_listner_runs (conns (md S))
    then (\<forall>l \<in> set_tree (listner_root (base (conns (md S)))). sock_open (base (conns (md S))) l) \<longrightarrow>
      (\<exists>m. cbn_datapath_clean L (md S) = Some m \<and> mcalls m = load_calls @ unload_calls \<and>
        mset (made (mcalls m)) = mset (unmade (mcalls m)) \<and> tenants_ok b (base (conns m)) \<and>
        qps (base (conns m)) = qps (base (conns (md S))))
    else cbn_datapath_clean L (md S) = None"
proof -
  have i: "tenants_ok b (base (conns (md S)))" "pre_conn_list_client (conns (md S)) = []"
    "pre_conn_list_server (conns (md S)) = []" "mcalls (md S) = load_calls"
    using sys_reach_inv [OF assms] by (simp_all add: sys_inv_def cp_ok_def kst_ok_def)
  note e = pre_connect_end_empty [OF i(2,3)]
  show ?thesis
  proof (cases "hop_listner_runs (conns (md S))")
    case True
    then obtain s where s: "cbn_pre_connect_end (conns (md S)) = Some s" "listners (base s) = listners (base (conns (md S)))"
      "listner_root (base s) = listner_root (base (conns (md S)))" "sock_open (base s) = sock_open (base (conns (md S)))"
      using e by auto
    have q: "qps (base s) = qps (base (conns (md S)))"
      using s(1) i(2,3) by (auto simp: cbn_pre_connect_end_def clear_client_pre_connections_def bind_eq_Some_conv split: option.splits)
    have "\<exists>m. cbn_datapath_clean L (md S) = Some m \<and> mcalls m = load_calls @ unload_calls \<and>
        mset (made (mcalls m)) = mset (unmade (mcalls m)) \<and> tenants_ok b (base (conns m)) \<and>
        qps (base (conns m)) = qps (base (conns (md S)))"
      if op: "\<forall>l \<in> set_tree (listner_root (base (conns (md S)))). sock_open (base (conns (md S))) l"
    proof -
      obtain b' where b': "stop_sockets L (base s) = Some b'" "tenants_ok b b'"
        using stop_all_sockets [OF assms(1), of b "base s"] i(1) s(2-4) op by auto
      then have "qps b' = qps (base s)" by (simp add: stop_sockets_def stop_loop_qps)
      then show ?thesis using s(1) b' q i(4)
        by (simp add: cbn_datapath_clean_def cbn_kthread_pool_clean_def cbn_proc_clean_def log_m_def unload_calls_def load_calls_def
            Let_def add_mset_commute)
    qed
    then show ?thesis using True by simp
  next
    case False
    then show ?thesis using e by (simp add: cbn_datapath_clean_def cbn_proc_clean_def log_m_def Let_def)
  qed
qed

subsection \<open>Witnesses\<close>

text \<open>The command that starts the server of tenant 7 on port 443, and its thread up to the registration.\<close>

definition ex_sys_env :: sys_env where
  "ex_sys_env = \<lparr>cpe = ex_cpenv (\<lambda>_. 0),
     sve = \<lparr>sv_rc = (\<lambda>_. 0), new_listner = Some 5, listner_mem = bare_listner 0, percpu_roots = Some (\<lambda>_. True),
       percpu_lists = Some (\<lambda>_. True), possible_cpus = [0], sv_sock = 30, raw_sock = 33, accepted = 60, sv_qp = Some 2,
       sv_qp_mem = bare_qp (replicate 12 0), should_stop = False\<rparr>,
     nfe = ex_nf_env, pre = ex_proc_env [2, 7, 443], cmd_cpus = [0], free_core = 0\<rparr>"

lemma ex_sys_env_ok: "listners (base s) 5 = None \<Longrightarrow> preconns (preconn s) 6 = None \<Longrightarrow> sys_env_ok {0} ex_sys_env s"
  by (simp add: sys_env_ok_def ex_sys_env_def preconn_env_ok_def ex_cpenv_def ex_kenv_def)

lemma ex_event_ok: "event_ok 0 ex_sys_env ev"
proof -
  have "get_options (ex_proc_env [2, 7, 443]) str (PROC_CSV_NUM + 1) = [2, 7, 443]" for str by (simp add: ex_proc_env_def)
  moreover have "window 0 7" by (simp add: window_def)
  ultimately show ?thesis
    by (auto simp: event_ok_def ex_sys_env_def proc_values_def split: if_splits sum.splits)
qed

lemma ex_move:
  assumes "sys_step plain_lib ex_sys_env ev S = Some S'" and "listners (base (conns (md S))) 5 = None"
    and "preconns (preconn (conns (md S))) 6 = None"
  shows "sys_move plain_lib 0 {0} S S'"
  by (rule sys_move.intros [OF ex_sys_env_ok [OF assms(2,3)] ex_event_ok assms(1)])

lemma ex_sys_loaded: "\<exists>m. sys_loaded ex_load \<lparr>md = m, tasks = [T_listner (Pl_start (ucast PRECONN_SERVER_PORT))]\<rparr> \<and> conns m = cp_state0"
proof -
  have "distinct (kz_addrs (load_kz ex_load) [0..<cores ex_load])" "\<forall>c < cores ex_load. \<forall>b. load_kz ex_load c b \<noteq> 0"
    by (simp_all add: ex_load_def kz_addrs_def kz_ex_def ALIGN_def)
  from mag_init_ok [OF this] obtain a where a: "mag_allocator_init (load_kz ex_load) (cores ex_load) mag_state0 = Some a" by blast
  then have "\<exists>m. cbn_datapath_init ex_load ktcp0 = Some (0, m)"
    by (simp add: cbn_datapath_init_def init_kallsyms_def ktcp0_def kthread_pool_start_def cbn_kthread_pool_init_def
        parse_module_params_def cbn_pool0_def log_m_def pre_connect_start_def cbn_pre_connect_init_def Let_def)
      (simp add: ex_load_def)
  then show ?thesis by (auto simp: sys_loaded_def loaded_state)
qed

lemma ex_sys_reach:
  "\<exists>S. reach (sys_loaded ex_load) (sys_move plain_lib 0 {0}) S \<and>
     tasks S = [T_listner (Pl_start (ucast PRECONN_SERVER_PORT)), T_server (Sv_create 7 443 5)] \<and>
     listner_root (base (conns (md S))) = Node Leaf 5 Leaf \<and>
     hop_listner_runs (conns (md S)) \<and> sock_open (base (conns (md S))) 5"
proof -
  let ?pl = "T_listner (Pl_start (ucast PRECONN_SERVER_PORT))" let ?u = "uint2void 7 443"
  obtain m where m: "sys_loaded ex_load \<lparr>md = m, tasks = [?pl]\<rparr>" "conns m = cp_state0" using ex_sys_loaded by blast
  define s1 where "s1 = cp_run (Split_server ?u) None cp_state0"
  define li where "li = (bare_listner 7)\<lparr>status := 1\<rparr>"
  define b3 where "b3 = (base s1)\<lparr>listners := [5 \<mapsto> li], listner_root := Node Leaf 5 Leaf\<rparr>"
  define S1 where "S1 = \<lparr>md = m\<lparr>conns := s1\<rparr>, tasks = [?pl, T_server (Sv_start ?u)]\<rparr>"
  define S2 where "S2 = \<lparr>md = m\<lparr>conns := s1\<rparr>, tasks = [?pl, T_server (Sv_register 7 443)]\<rparr>"
  define S3 where "S3 = \<lparr>md = m\<lparr>conns := s1\<lparr>base := b3\<rparr>\<rparr>, tasks = [?pl, T_server (Sv_create 7 443 5)]\<rparr>"
  have o: "get_options (ex_proc_env [2, 7, 443]) str (PROC_CSV_NUM + 1) = [2, 7, 443]" for str by (simp add: ex_proc_env_def)
  have "proc_values (ex_proc_env [2, 7, 443]) (PROC_CSV_NUM + 1) 7 = Inr [2, 7, 443]"
    unfolding proc_values_def o by (simp add: ex_proc_env_def)
  then have "sys_step plain_lib ex_sys_env (Write_file ''cbn_proc'' 7) \<lparr>md = m, tasks = [?pl]\<rparr> = Some S1"
    by (simp add: sys_step_def m(2) S1_def s1_def ex_sys_env_def write_file_def proc_files_def proc_fops_defs cbn_add_server_def
        arr_get_def add_server_cb_def cp_run_def cp_state0_def kstate0_def log_call_def)
  then have 1: "sys_move plain_lib 0 {0} \<lparr>md = m, tasks = [?pl]\<rparr> S1"
    by (rule ex_move) (simp_all add: m(2) cp_state0_def kstate0_def)
  have s1: "base s1 = kstate0\<lparr>calls := [run_in_pool (Split_server ?u) None]\<rparr>" "preconn s1 = preconn cp_state0"
    by (simp_all add: s1_def cp_run_def cp_state0_def log_call_def kstate0_def)
  have "sys_step plain_lib ex_sys_env (Run 1) S1 = Some S2"
    by (simp add: sys_step_def S1_def S2_def void2uint_uint2void s1(1) kstate0_def search_rb_listner_def)
  then have 2: "sys_move plain_lib 0 {0} S1 S2"
    by (rule ex_move) (simp_all add: S1_def s1 kstate0_def cp_state0_def)
  have "sys_step plain_lib ex_sys_env (Run 1) S2 = Some S3"
    by (simp add: sys_step_def S2_def S3_def ex_sys_env_def register_server_sock_def s1(1) kstate0_def add_rb_listner_def
        rb_insert_result_def plain_lib_def upd_listner_def b3_def li_def bare_listner_def fun_eq_iff)
  then have 3: "sys_move plain_lib 0 {0} S2 S3"
    by (rule ex_move) (simp_all add: S2_def s1 kstate0_def cp_state0_def)
  have "reach (sys_loaded ex_load) (sys_move plain_lib 0 {0}) S3"
    using reach_init [of "sys_loaded ex_load", OF m(1)] 1 2 3 by (blast intro: reach_step)
  moreover have "hop_listner_runs s1" by (simp add: s1_def cp_run_def cp_state0_def hop_listner_runs_def)
  then have "hop_listner_runs (s1\<lparr>base := b3\<rparr>)" by (simp add: hop_listner_runs_def)
  ultimately show ?thesis
    by (intro exI [of _ S3]) (simp add: S3_def b3_def li_def bare_listner_def sock_open_def)
qed


text \<open>The thread that listens for other hops opens its socket, and returns when its \<open>kernel_accept\<close> fails.\<close>

lemma ex_listner_gone: "\<exists>S. reach (sys_loaded ex_load) (sys_move plain_lib 0 {0}) S \<and> \<not> hop_listner_runs (conns (md S))"
proof -
  obtain m where m: "sys_loaded ex_load \<lparr>md = m, tasks = [T_listner (Pl_start (ucast PRECONN_SERVER_PORT))]\<rparr>" "conns m = cp_state0"
    using ex_sys_loaded by blast
  define f where "f = (0x900 :: addr)"
  define b where "b = (snd (listner_socket (cpe ex_sys_env) (ucast PRECONN_SERVER_PORT) kstate0))"
  have so: "listner_socket (cpe ex_sys_env) (ucast PRECONN_SERVER_PORT) kstate0 = (Inr 50, b)"
    by (simp add: b_def listner_socket_def do_call_def ex_sys_env_def ex_cpenv_def ex_kenv_def Let_def)
  have c: "spawned 0 (calls b) = []" "listners b 5 = None"
    by (simp_all add: b_def listner_socket_def do_call_def ex_sys_env_def ex_cpenv_def ex_kenv_def kstate0_def log_call_def Let_def)
  define s1 where "s1 = cp_state0\<lparr>base := b, server_frames := [f \<mapsto> 50], pre_conn_listner := Some f\<rparr>"
  define s2 where "s2 = listner_out f 50 (s1\<lparr>base := log_call (kernel_accept 50) b\<rparr>)"
  define S1 where "S1 = \<lparr>md = m\<lparr>conns := s1\<rparr>, tasks = [T_listner (Pl_accept f 50)]\<rparr>"
  define S2 where "S2 = \<lparr>md = m\<lparr>conns := s2\<rparr>, tasks = [T_listner (Pl_done (- 4))]\<rparr>"
  let ?e = "ex_sys_env\<lparr>cpe := ex_cpenv (\<lambda>_. - 4)\<rparr>"
  have "stack_frame (cpe ex_sys_env) = f" "free_core ex_sys_env = 0"
    by (simp_all add: ex_sys_env_def ex_cpenv_def f_def)
  then have "sys_step plain_lib ex_sys_env (Run 0) \<lparr>md = m, tasks = [T_listner (Pl_start (ucast PRECONN_SERVER_PORT))]\<rparr> = Some S1"
    using so c(1) by (simp add: sys_step_def m(2) S1_def s1_def cp_state0_def kstate0_def preconn_resgister_server_def Let_def)
  then have 1: "sys_move plain_lib 0 {0} \<lparr>md = m, tasks = [T_listner (Pl_start (ucast PRECONN_SERVER_PORT))]\<rparr> S1"
    by (rule ex_move) (simp_all add: m(2) cp_state0_def kstate0_def)
  have "rc_of (kenv (cpe ?e)) (kernel_accept 50) = - 4" by (simp add: ex_cpenv_def ex_kenv_def)
  then have "sys_step plain_lib ?e (Run 0) S1 = Some S2"
    by (simp add: sys_step_def S1_def S2_def s1_def s2_def do_call_def listner_out_def log_call_def)
  moreover have "sys_env_ok {0} ?e (conns (md S1))"
    by (simp add: sys_env_ok_def ex_sys_env_def preconn_env_ok_def ex_cpenv_def ex_kenv_def S1_def s1_def c(2) cp_state0_def)
  moreover have "event_ok 0 ?e (Run 0)" by (simp add: event_ok_def)
  ultimately have 2: "sys_move plain_lib 0 {0} S1 S2" using sys_move.intros by blast
  have "reach (sys_loaded ex_load) (sys_move plain_lib 0 {0}) S2"
    using reach_init [of "sys_loaded ex_load", OF m(1)] 1 2 by (blast intro: reach_step)
  moreover have "\<not> hop_listner_runs (conns (md S2))"
    by (simp add: S2_def s2_def s1_def listner_out_def hop_listner_runs_def)
  ultimately show ?thesis by blast
qed

theorem module_unloads_witness:
  "(\<exists>(S :: system) m. listner_root (base (conns (md S))) = Node Leaf 5 Leaf \<and> cbn_datapath_clean plain_lib (md S) = Some m \<and>
     mcalls m = load_calls @ unload_calls) \<and>
   (\<exists>S. reach (sys_loaded ex_load) (sys_move plain_lib 0 {0}) S \<and> cbn_datapath_clean plain_lib (md S) = None)"
proof
  obtain S where S: "reach (sys_loaded ex_load) (sys_move plain_lib 0 {0}) S"
    "listner_root (base (conns (md S))) = Node Leaf 5 Leaf" "hop_listner_runs (conns (md S))" "sock_open (base (conns (md S))) 5"
    using ex_sys_reach by blast
  have "\<forall>l \<in> set_tree (listner_root (base (conns (md S)))). sock_open (base (conns (md S))) l" using S(2,4) by simp
  then show "\<exists>(S :: system) m. listner_root (base (conns (md S))) = Node Leaf 5 Leaf \<and> cbn_datapath_clean plain_lib (md S) = Some m \<and>
     mcalls m = load_calls @ unload_calls"
    using module_unloads [OF plain_lib_ok S(1)] S(2,3) by (intro exI [of _ S]) auto
next
  obtain S where S: "reach (sys_loaded ex_load) (sys_move plain_lib 0 {0}) S" "\<not> hop_listner_runs (conns (md S))"
    using ex_listner_gone by blast
  then show "\<exists>S. reach (sys_loaded ex_load) (sys_move plain_lib 0 {0}) S \<and> cbn_datapath_clean plain_lib (md S) = None"
    using module_unloads [OF plain_lib_ok S(1)] by auto
qed

end
