(* ===== verification/Mag_Stats.thy ===== *)
theory Mag_Stats
  imports Magazine Format
begin

text \<open>
  The statistics of the allocators, \<^verbatim>\<open>tcpsplit/lib/mag_stats.c\<close>: a table of registered devices with four
  allocators each, and a debugfs file whose reader prints the counts of all of them. The first
  registration creates the file. The build does not compile this file.

  \<open>struct dev_iova_mag\<close> is declared in a header of a patched kernel; the code only reads its array of
  allocators, which is the parameter \<open>allocators\<close>: \<open>None\<close> for an address that is no such object.
\<close>

section \<open>Definitions\<close>

type_synonym iova_mags = "addr \<Rightarrow> nat \<Rightarrow> mag_allocator option"

datatype debugfs_call = debugfs_create_dir string | debugfs_create_file string nat "nat kptr"

record mag_stats =
  dir :: "nat kptr"
  users :: nat
  entries :: "addr kptr list"
  debugfs :: "debugfs_call list"

definition mag_stats0 :: mag_stats where
  "mag_stats0 = \<lparr>dir = NULL, users = 0, entries = replicate 8 NULL, debugfs = []\<rparr>"

text \<open>\<open>new_dir\<close> is the result of \<open>debugfs_create_dir\<close>; \<open>PTR_ERR\<close> of \<open>NULL\<close> is 0.\<close>

definition pcop_debug_init :: "nat kptr \<Rightarrow> mag_stats \<Rightarrow> int \<times> mag_stats" where
  "pcop_debug_init new_dir s =
     (let s = s\<lparr>dir := new_dir, debugfs := debugfs s @ [debugfs_create_dir ''pcop_debug'']\<rparr> in
      if dir s = NULL then (0, s)
      else (0, s\<lparr>debugfs := debugfs s @ [debugfs_create_file ''get_stats'' (6 * 64 + 6 * 8 + 6) (dir s)]\<rparr>))"

definition mag_stats_register :: "nat kptr \<Rightarrow> addr \<Rightarrow> mag_stats \<Rightarrow> mag_stats option" where
  "mag_stats_register new_dir reg s =
     (let idx = users s;
          s = s\<lparr>users := users s + 1\<rparr>;
          s = (if users s = 1 then snd (pcop_debug_init new_dir s) else s)
      in do {
        es \<leftarrow> arr_set (entries s) idx (PTR reg);
        Some (s\<lparr>entries := es\<rparr>) })"

definition count_line :: "nat \<Rightarrow> mag_allocator \<Rightarrow> string" where
  "count_line i a = ''idx '' @ nat_dec i @ '' full count '' @ nat_dec (unat (full_count a)) @ '' empty count '' @
     nat_dec (unat (empty_count a)) @ [CHR 0x0A]"

fun iova_loop :: "(nat \<Rightarrow> mag_allocator option) \<Rightarrow> nat list \<Rightarrow> string list option" where
  "iova_loop al [] = Some []"
| "iova_loop al (i # is) = do {
     a \<leftarrow> al i;
     out \<leftarrow> iova_loop al is;
     Some (count_line i a # out) }"

definition dump_iova_mag :: "iova_mags \<Rightarrow> addr kptr \<Rightarrow> string list option" where
  "dump_iova_mag allocators entry = (case entry of PTR a \<Rightarrow> iova_loop (allocators a) [0..<4] | _ \<Rightarrow> None)"

fun dump_loop :: "iova_mags \<Rightarrow> addr kptr list \<Rightarrow> nat \<Rightarrow> nat \<Rightarrow> string list option" where
  "dump_loop allocators es i 0 = Some []"
| "dump_loop allocators es i (Suc n) = do {
     e \<leftarrow> arr_get es i;
     o1 \<leftarrow> dump_iova_mag allocators e;
     o2 \<leftarrow> dump_loop allocators es (Suc i) n;
     Some (o1 @ o2) }"

definition dump_stats :: "iova_mags \<Rightarrow> mag_stats \<Rightarrow> string list option" where
  "dump_stats allocators s = dump_loop allocators (entries s) 0 (users s)"

text \<open>The reader of the file: the result of the show function, and what it prints to the trace.\<close>

definition ta_dump_show :: "iova_mags \<Rightarrow> mag_stats \<Rightarrow> (int \<times> string list) option" where
  "ta_dump_show allocators s = map_option (\<lambda>out. (0, out)) (dump_stats allocators s)"

section \<open>Lemmas\<close>

fun register_all :: "nat kptr \<Rightarrow> addr list \<Rightarrow> mag_stats \<Rightarrow> mag_stats option" where
  "register_all d [] s = Some s"
| "register_all d (r # rs) s = do { s \<leftarrow> mag_stats_register d r s; register_all d rs s }"

text \<open>A table that holds the registered objects in order.\<close>

definition holds :: "addr list \<Rightarrow> mag_stats \<Rightarrow> bool" where
  "holds rs s \<longleftrightarrow> users s = length rs \<and> length (entries s) = 8 \<and> take (length rs) (entries s) = map PTR rs"

lemma holds_length: "holds rs s \<Longrightarrow> length rs \<le> 8"
  unfolding holds_def by (metis length_map length_take min.cobounded1 min.commute)

lemma register_holds:
  assumes "holds rs s" and "length rs < 8"
  shows "\<exists>s'. mag_stats_register d r s = Some s' \<and> holds (rs @ [r]) s'"
  using assms by (simp add: mag_stats_register_def pcop_debug_init_def holds_def Let_def take_Suc_update)

text \<open>The ninth registration writes behind the table.\<close>

lemma register_overrun:
  assumes "holds rs s" and "length rs = 8"
  shows "mag_stats_register d r s = None"
  using assms by (simp add: mag_stats_register_def pcop_debug_init_def holds_def Let_def arr_set_def)

lemma register_all_holds:
  assumes "holds done_rs s"
  shows "case register_all d rs s of Some s' \<Rightarrow> length (done_rs @ rs) \<le> 8 \<and> holds (done_rs @ rs) s'
    | None \<Rightarrow> 8 < length (done_rs @ rs)"
  using assms
proof (induction rs arbitrary: done_rs s)
  case Nil then show ?case using holds_length by simp
next
  case (Cons r rs)
  show ?case
  proof (cases "length done_rs < 8")
    case True
    from register_holds [OF Cons.prems this, of d r] obtain s' where "mag_stats_register d r s = Some s'" "holds (done_rs @ [r]) s'"
      by blast
    then show ?thesis using Cons.IH [of "done_rs @ [r]" s'] by (simp split: option.splits)
  next
    case False
    then show ?thesis using register_overrun [OF Cons.prems, of d r] holds_length [OF Cons.prems] by simp
  qed
qed

lemma iova_loop_ok:
  assumes "\<forall>i \<in> set is. \<exists>a. al i = Some a"
  shows "iova_loop al is = Some (map (\<lambda>i. count_line i (the (al i))) is)"
  using assms by (induction "is") auto

lemma dump_loop_ok:
  assumes "take n (drop i es) = map PTR rs" and "length rs = n" and "\<forall>r \<in> set rs. \<forall>i < 4. \<exists>a. allocators r i = Some a"
  shows "dump_loop allocators es i n = Some (concat (map (\<lambda>r. map (\<lambda>i. count_line i (the (allocators r i))) [0..<4]) rs))"
  using assms
proof (induction n arbitrary: i rs)
  case (Suc n)
  then obtain r rs' where rs: "rs = r # rs'" by (cases rs) auto
  have i: "i < length es" using Suc.prems(1,2) by (metis Suc.prems(1) drop_all length_map list.size(3) nat_neq_iff not_less0 rs
        list.distinct(1) take_Nil linorder_not_le map_is_Nil_conv)
  then have "drop i es = es ! i # drop (Suc i) es" by (simp add: Cons_nth_drop_Suc)
  with Suc.prems(1) rs have e: "es ! i = PTR r" "take n (drop (Suc i) es) = map PTR rs'" by simp_all
  have "dump_iova_mag allocators (PTR r) = Some (map (\<lambda>i. count_line i (the (allocators r i))) [0..<4])"
    using iova_loop_ok [of "[0..<4]" "allocators r"] Suc.prems(3) rs by (simp add: dump_iova_mag_def)
  then show ?case using Suc.IH [OF e(2)] Suc.prems(2,3) rs i e(1) by simp
qed simp

text \<open>
  Up to eight devices can be registered, and then reading the file prints the counts of every allocator
  of each of them, in the order of registration; registering more corrupts memory.
\<close>

lemma mag_stats_table:
  "case register_all d rs mag_stats0 of
     Some s \<Rightarrow> length rs \<le> 8 \<and> ((\<forall>r \<in> set rs. \<forall>i < 4. \<exists>a. allocators r i = Some a) \<longrightarrow>
       ta_dump_show allocators s = Some (0, concat (map (\<lambda>r. map (\<lambda>i. count_line i (the (allocators r i))) [0..<4]) rs)))
   | None \<Rightarrow> 8 < length rs"
proof -
  have "holds [] mag_stats0" by (simp add: holds_def mag_stats0_def)
  from register_all_holds [OF this, of rs d] show ?thesis
    using dump_loop_ok [of "length rs" 0 _ rs allocators]
    by (auto simp: ta_dump_show_def dump_stats_def holds_def split: option.splits)
qed

end
