(* ===== verification/Logger.thy ===== *)
theory Logger
  imports Ktcp_Prelude
begin

unbundle bit_operations_syntax

text \<open>
  The stream logger, the separate module \<^verbatim>\<open>logger/\<close>: a text buffer of almost one page (\<^verbatim>\<open>dpb.h\<close>), the
  list of callbacks that append their statistics to it (\<^verbatim>\<open>stats_cb_mgr.h\<close>), and the two files
  \<^verbatim>\<open>/proc/dp_logger/log\<close> and \<^verbatim>\<open>/proc/dp_logger/stats\<close> (\<^verbatim>\<open>logger.c\<close>).

  A pointer into the buffer is its offset. The list of callbacks is the kernel's circular doubly linked
  list, with its links as two functions, because the module can link the same entry twice; a fresh
  \<open>trvl_buffer_mgr\<close> is only ever appended, so the list of a \<open>dp_logger\<close> is a HOL list. The loop over the
  callbacks gets a number of rounds and reports whether it has ended.
\<close>

section \<open>The buffer\<close>

text \<open>\<open>TRVL_BUFFER_SIZE\<close> is \<open>PAGE_SIZE - 128\<close>, an \<open>unsigned long\<close>, so that the \<open>int\<close> it is compared with is
  converted.\<close>

abbreviation (input) BUFF_SIZE :: nat where "BUFF_SIZE \<equiv> 3968"

definition ulong :: "s32 \<Rightarrow> u64" where
  "ulong i = scast i"

record trvl_buffer_mgr =
  blen :: s32
  buffer :: string

text \<open>Writing bytes at an offset; writing past the end of the buffer is an oops.\<close>

definition mem_write :: "string \<Rightarrow> s32 \<Rightarrow> string \<Rightarrow> string option" where
  "mem_write buf off bs =
     (if 0 \<le> sint off \<and> nat (sint off) + length bs \<le> length buf
      then Some (take (nat (sint off)) buf @ bs @ drop (nat (sint off) + length bs) buf) else None)"

definition mem_read :: "string \<Rightarrow> u64 \<Rightarrow> string option" where
  "mem_read buf n = (if unat n \<le> length buf then Some (take (unat n) buf) else None)"

definition trvlb_init :: "trvl_buffer_mgr \<Rightarrow> trvl_buffer_mgr" where
  "trvlb_init mgr = mgr\<lparr>blen := 0\<rparr>"

definition trvlb_close :: "trvl_buffer_mgr \<Rightarrow> trvl_buffer_mgr" where
  "trvlb_close mgr = mgr\<lparr>blen := 0\<rparr>"

definition trvlb_log_formated_string :: "trvl_buffer_mgr \<Rightarrow> string \<Rightarrow> s32 \<Rightarrow> (s32 \<times> trvl_buffer_mgr) option" where
  "trvlb_log_formated_string mgr buff n =
     (if of_nat BUFF_SIZE < ulong n then Some (0, mgr)
      else do {
        let mgr = (if of_nat BUFF_SIZE < ulong (n + blen mgr) then mgr\<lparr>blen := 0\<rparr> else mgr);
        src \<leftarrow> mem_read buff (ulong n);
        b \<leftarrow> mem_write (buffer mgr) (blen mgr) src;
        Some (n, mgr\<lparr>buffer := b, blen := blen mgr + n\<rparr>) })"

text \<open>The buffer and its size.\<close>

definition trvlb_pull_formated_buffer :: "trvl_buffer_mgr \<Rightarrow> string \<times> s32" where
  "trvlb_pull_formated_buffer mgr = (buffer mgr, blen mgr)"

definition trvlb_put_formated_buffer :: "trvl_buffer_mgr \<Rightarrow> s32 \<Rightarrow> trvl_buffer_mgr" where
  "trvlb_put_formated_buffer mgr flag = (if flag \<noteq> 0 then mgr\<lparr>blen := 0\<rparr> else mgr)"

text \<open>The offset of the free part and its size.\<close>

definition trvlb_get_buff_head :: "trvl_buffer_mgr \<Rightarrow> s32 \<times> s32" where
  "trvlb_get_buff_head mgr = (blen mgr, ucast (of_nat BUFF_SIZE - ulong (blen mgr)))"

definition trvlb_put_buff_head :: "trvl_buffer_mgr \<Rightarrow> s32 \<Rightarrow> int \<times> trvl_buffer_mgr" where
  "trvlb_put_buff_head mgr n =
     (if of_nat BUFF_SIZE < ulong (blen mgr + n) then (- EINVAL, mgr) else (0, mgr\<lparr>blen := blen mgr + n\<rparr>))"

section \<open>A list of buffers\<close>

record dp_logger =
  bufs :: "trvl_buffer_mgr list"
  cnt :: s32

definition dp_logger_init :: dp_logger where
  "dp_logger_init = \<lparr>bufs = [], cnt = 0\<rparr>"

text \<open>The result of \<open>kmalloc\<close> is \<open>None\<close>, or an object with whatever its memory holds. A head is the offset in
  the last buffer, with the room behind it.\<close>

definition dp_logger_next_head :: "trvl_buffer_mgr option \<Rightarrow> dp_logger \<Rightarrow> (s32 \<times> s32) option \<times> dp_logger" where
  "dp_logger_next_head kmalloc l = (case kmalloc of
     None \<Rightarrow> (None, l)
   | Some mgr \<Rightarrow> (let mgr = trvlb_init mgr
       in (Some (trvlb_get_buff_head mgr), l\<lparr>bufs := bufs l @ [mgr], cnt := cnt l + 1\<rparr>)))"

definition dp_logger_get_head :: "dp_logger \<Rightarrow> (s32 \<times> s32) option" where
  "dp_logger_get_head l = (if cnt l = 0 then None else Some (trvlb_get_buff_head (last (bufs l))))"

definition dp_logger_put_buff_head :: "s32 \<Rightarrow> dp_logger \<Rightarrow> int \<times> dp_logger" where
  "dp_logger_put_buff_head n l =
     (if cnt l = 0 then (- EINVAL, l)
      else (case trvlb_put_buff_head (last (bufs l)) n of (rc, mgr) \<Rightarrow> (rc, l\<lparr>bufs := butlast (bufs l) @ [mgr]\<rparr>)))"

section \<open>Callbacks\<close>

text \<open>A callback gets its context and the room behind the pointer; its result is the size it returns and the
  bytes it wrote there.\<close>

record stats_cb_entry =
  ctx :: addr
  get_stat :: "addr \<Rightarrow> s32 \<Rightarrow> s32 \<times> string"

datatype lnode = Head | Entry addr

record links =
  nxt :: "lnode \<Rightarrow> lnode"
  prv :: "lnode \<Rightarrow> lnode"

text \<open>\<open>INIT_LIST_HEAD\<close> and \<open>list_add_tail\<close> of \<^verbatim>\<open>linux/list.h\<close>, without \<open>CONFIG_DEBUG_LIST\<close>.\<close>

definition INIT_LIST_HEAD :: "lnode \<Rightarrow> links \<Rightarrow> links" where
  "INIT_LIST_HEAD h l = l\<lparr>nxt := (nxt l)(h := h), prv := (prv l)(h := h)\<rparr>"

definition list_add_tail :: "lnode \<Rightarrow> lnode \<Rightarrow> links \<Rightarrow> links" where
  "list_add_tail new h l = (let p = prv l h in
     l\<lparr>nxt := (nxt l)(new := h, p := new), prv := (prv l)(h := new, new := p)\<rparr>)"

definition scbm_init :: "links \<Rightarrow> links" where
  "scbm_init l = INIT_LIST_HEAD Head l"

definition scbm_close :: "links \<Rightarrow> links" where
  "scbm_close scbm = scbm"

definition scbm_register :: "addr \<Rightarrow> links \<Rightarrow> links" where
  "scbm_register entry l = list_add_tail (Entry entry) Head l"

text \<open>The body of the loop of \<open>scbm_collect_stats\<close>, and the loop, \<open>list_for_each_safe\<close>.\<close>

definition collect_entry :: "(s32 \<Rightarrow> s32 \<times> string) \<Rightarrow> trvl_buffer_mgr \<Rightarrow> trvl_buffer_mgr option" where
  "collect_entry get mgr = do {
     let (buff, tailroom) = trvlb_get_buff_head mgr;
     let (n, bs) = get tailroom;
     b \<leftarrow> mem_write (buffer mgr) buff bs;
     Some (snd (trvlb_put_buff_head (mgr\<lparr>buffer := b\<rparr>) n)) }"

fun collect_loop :: "(addr \<rightharpoonup> stats_cb_entry) \<Rightarrow> links \<Rightarrow> nat \<Rightarrow> lnode \<Rightarrow> lnode \<Rightarrow> trvl_buffer_mgr \<Rightarrow>
    (bool \<times> trvl_buffer_mgr) option" where
  "collect_loop es l n Head tmp mgr = Some (True, mgr)"
| "collect_loop es l 0 (Entry itr) tmp mgr = Some (False, mgr)"
| "collect_loop es l (Suc n) (Entry itr) tmp mgr = do {
     entry \<leftarrow> es itr;
     mgr \<leftarrow> collect_entry (get_stat entry (ctx entry)) mgr;
     collect_loop es l n tmp (nxt l tmp) mgr }"

definition scbm_collect_stats :: "(addr \<rightharpoonup> stats_cb_entry) \<Rightarrow> nat \<Rightarrow> links \<Rightarrow> trvl_buffer_mgr \<Rightarrow> (bool \<times> trvl_buffer_mgr) option" where
  "scbm_collect_stats es n l mgr = collect_loop es l n (nxt l Head) (nxt l (nxt l Head)) mgr"

section \<open>The module\<close>

text \<open>\<open>scnprintf\<close> of a text: what it returns and the bytes it writes.\<close>

definition scnprintf_bytes :: "s32 \<Rightarrow> string \<Rightarrow> s32 \<times> string" where
  "scnprintf_bytes sz str = (if sint sz \<le> 0 then (0, [])
     else (let t = take (nat (sint sz) - 1) str in (of_nat (length t), t @ [CHR 0x00])))"

definition debug_stats :: "addr \<Rightarrow> s32 \<Rightarrow> s32 \<times> string" where
  "debug_stats _ tailroom = scnprintf_bytes tailroom (''Hello World'' @ [CHR 0x0A])"

text \<open>The address of the static \<open>debug_entry\<close>; other entries belong to other modules.\<close>

abbreviation (input) debug_entry :: addr where "debug_entry \<equiv> 0"

definition debug_cb :: stats_cb_entry where
  "debug_cb = \<lparr>ctx = 0, get_stat = debug_stats\<rparr>"

datatype proc_call = proc_mkdir | proc_create string | remove_proc_subtree

record logger =
  stats :: trvl_buffer_mgr
  cbm :: links
  entries :: "addr \<rightharpoonup> stats_cb_entry"
  bufsize :: u32
  proc_calls :: "proc_call list"

definition logger_log_write :: "int + string \<Rightarrow> nat \<Rightarrow> logger \<Rightarrow> (int \<times> logger) option" where
  "logger_log_write memdup sz s =
     (if sz \<le> 1 \<or> PAGE_SIZE \<le> sz then Some (- EINVAL, s)
      else case memdup of
        Inl err \<Rightarrow> Some (err, s)
      | Inr str \<Rightarrow> do {
          (_, mgr) \<leftarrow> trvlb_log_formated_string (stats s) (str @ [CHR 0x00]) (of_nat sz);
          Some (int sz, s\<lparr>stats := mgr\<rparr>) })"

definition stats_log_write :: "nat \<Rightarrow> logger \<Rightarrow> int \<times> logger" where
  "stats_log_write sz s = (int sz, s\<lparr>cbm := scbm_register debug_entry (cbm s)\<rparr>)"

text \<open>The loop of \<open>stats_log_read\<close>; \<open>copy\<close> tells whether \<open>copy_to_user\<close> to an offset fails, and \<open>out\<close> records
  what was copied where.\<close>

function drain_loop :: "(u64 \<Rightarrow> bool) \<Rightarrow> u64 \<Rightarrow> u64 \<Rightarrow> (u64 \<times> string) list \<Rightarrow> trvl_buffer_mgr \<Rightarrow>
    (int \<times> (u64 \<times> string) list \<times> trvl_buffer_mgr) option" where
  "drain_loop copy n c out mgr =
     (if c < n then
        (let (buf, sz) = trvlb_pull_formated_buffer mgr in
         if sz = 0 then Some (sint c, out, mgr)
         else if n < c + ulong sz then Some (sint c, out, trvlb_put_formated_buffer mgr 0)
         else (case mem_read buf (ulong sz) of
           None \<Rightarrow> None
         | Some bs \<Rightarrow>
             if copy c then Some (- EFAULT, out, trvlb_put_formated_buffer mgr 0)
             else drain_loop copy n (c + ulong sz) (out @ [(c, bs)]) (trvlb_put_formated_buffer mgr sz)))
      else Some (sint c, out, mgr))"
  by pat_completeness auto

termination
  by (relation "measure (\<lambda>(copy, n, c, out, mgr). if blen mgr = 0 then 0 else 1)")
    (auto simp: trvlb_pull_formated_buffer_def trvlb_put_formated_buffer_def)

declare drain_loop.simps [simp del]

text \<open>The result \<open>None\<close> inside: the collection of the statistics has not ended after \<open>fuel\<close> rounds. Otherwise the
  value returned, the new position of the file and what was copied.\<close>

definition stats_log_read :: "nat \<Rightarrow> (u64 \<Rightarrow> bool) \<Rightarrow> bool \<Rightarrow> u64 \<Rightarrow> u64 \<Rightarrow> logger \<Rightarrow>
    ((int \<times> u64 \<times> (u64 \<times> string) list) option \<times> logger) option" where
  "stats_log_read fuel copy buf n ppos s =
     (if \<not> buf then Some (Some (- EINVAL, ppos, []), s)
      else if ppos AND 1 \<noteq> 0 then Some (Some (0, ppos + 1, []), s)
      else do {
        (ended, mgr) \<leftarrow> scbm_collect_stats (entries s) fuel (cbm s) (stats s);
        if \<not> ended then Some (None, s\<lparr>stats := mgr\<rparr>)
        else do {
          (rc, out, mgr) \<leftarrow> drain_loop copy n 0 [] mgr;
          Some (Some (rc, ppos + 1, out), s\<lparr>stats := mgr\<rparr>) } })"

text \<open>The two files: both read the statistics and the log, they differ in what a write does.\<close>

record log_fops =
  lop_open :: int
  lop_read :: "nat \<Rightarrow> (u64 \<Rightarrow> bool) \<Rightarrow> bool \<Rightarrow> u64 \<Rightarrow> u64 \<Rightarrow> logger \<Rightarrow>
    ((int \<times> u64 \<times> (u64 \<times> string) list) option \<times> logger) option"
  lop_write :: "int + string \<Rightarrow> nat \<Rightarrow> logger \<Rightarrow> (int \<times> logger) option"

definition stats_log_open :: int where
  "stats_log_open = 0"

definition logger_log_fops :: log_fops where
  "logger_log_fops = \<lparr>lop_open = stats_log_open, lop_read = stats_log_read, lop_write = logger_log_write\<rparr>"

definition stats_log_fops :: log_fops where
  "stats_log_fops = \<lparr>lop_open = stats_log_open, lop_read = stats_log_read, lop_write = \<lambda>_ sz s. Some (stats_log_write sz s)\<rparr>"

text \<open>Loading and unloading.\<close>

fun fls :: "nat \<Rightarrow> nat" where
  "fls n = (if n = 0 then 0 else Suc (fls (n div 2)))"

declare fls.simps [simp del]

definition roundup_pow_of_two :: "u32 \<Rightarrow> u32" where
  "roundup_pow_of_two n = of_nat (2 ^ fls (unat n - 1))"

definition md_init :: "logger \<Rightarrow> int \<times> logger" where
  "md_init s = (0, s\<lparr>bufsize := roundup_pow_of_two (bufsize s), stats := trvlb_init (stats s), cbm := scbm_init (cbm s)\<rparr>)"

definition md_close :: "logger \<Rightarrow> logger" where
  "md_close s = s\<lparr>cbm := scbm_close (cbm s), stats := trvlb_close (stats s)\<rparr>"

text \<open>\<open>ok\<close> tells which of the calls for files succeed.\<close>

definition log_proc :: "proc_call \<Rightarrow> logger \<Rightarrow> logger" where
  "log_proc c s = s\<lparr>proc_calls := proc_calls s @ [c]\<rparr>"

definition dp_log_init :: "(proc_call \<Rightarrow> bool) \<Rightarrow> logger \<Rightarrow> int \<times> logger" where
  "dp_log_init ok s =
     (if bufsize s = 0 then (- EINVAL, s)
      else (case md_init s of (ret, s) \<Rightarrow>
        if ret \<noteq> 0 then (ret, s)
        else let s = log_proc proc_mkdir s in
        if \<not> ok proc_mkdir then (ret, md_close s)
        else let s = log_proc (proc_create ''stats'') s in
        if \<not> ok (proc_create ''stats'') then (ret, md_close (log_proc remove_proc_subtree s))
        else let s = log_proc (proc_create ''log'') s in
        if \<not> ok (proc_create ''log'') then (ret, md_close (log_proc remove_proc_subtree s))
        else (0, s)))"

definition dp_log_exit :: "logger \<Rightarrow> logger" where
  "dp_log_exit s = md_close (log_proc remove_proc_subtree s)"

section \<open>Lemmas\<close>

lemma uint_ulong: "uint (ulong i) = sint i mod 2 ^ 64"
  unfolding ulong_def scast_eq uint_word_of_int by simp

lemma ulong_nonneg: "0 \<le> sint i \<Longrightarrow> uint (ulong i) = sint i"
  using sint_lt [of i] by (simp add: uint_ulong)

lemma ulong_fits: "of_nat BUFF_SIZE < ulong i \<longleftrightarrow> \<not> (0 \<le> sint i \<and> sint i \<le> int BUFF_SIZE)"
proof (cases "0 \<le> sint i")
  case True
  then show ?thesis using ulong_nonneg [OF True] by (auto simp: word_less_def not_le)
next
  case False
  have "- (2 ^ 31) \<le> sint i" using sint_ge [of i] by simp
  then have "(sint i + 2 ^ 64) mod 2 ^ 64 = sint i + 2 ^ 64" using False by (intro mod_pos_pos_trivial) simp_all
  then have "uint (ulong i) = sint i + 2 ^ 64" unfolding uint_ulong mod_add_self2 .
  then show ?thesis using False \<open>- (2 ^ 31) \<le> sint i\<close> by (simp add: word_less_def)
qed

text \<open>The invariant of a buffer and the text it holds.\<close>

definition mgr_ok :: "trvl_buffer_mgr \<Rightarrow> bool" where
  "mgr_ok mgr \<longleftrightarrow> 0 \<le> sint (blen mgr) \<and> sint (blen mgr) \<le> int BUFF_SIZE \<and> length (buffer mgr) = BUFF_SIZE"

definition log_text :: "trvl_buffer_mgr \<Rightarrow> string" where
  "log_text mgr = take (nat (sint (blen mgr))) (buffer mgr)"

lemma sint_of_nat_small: "n < 2 ^ 31 \<Longrightarrow> sint (of_nat n :: s32) = int n"
  by (simp add: signed_of_nat signed_take_bit_int_eq_self)

lemma sint_add_if:
  assumes "0 \<le> sint (a :: s32)"
  shows "sint (a + b) = (if sint a + sint b < 2 ^ 31 then sint a + sint b else sint a + sint b - 2 ^ 32)"
proof -
  have r: "sint a < 2 ^ 31" "sint b < 2 ^ 31" "- (2 ^ 31) \<le> sint b"
    using sint_lt [of a] sint_lt [of b] sint_ge [of b] by simp_all
  have d: "sint (a + b) = signed_take_bit 31 (sint a + sint b)" by (simp add: sint_word_ariths)
  show ?thesis
  proof (cases "sint a + sint b < 2 ^ 31")
    case True
    have "- (2 ^ 31) \<le> sint a + sint b" using assms r by linarith
    from signed_take_bit_int_eq_self [OF this True] show ?thesis using d True by simp
  next
    case False
    have "signed_take_bit 31 (sint a + sint b) = signed_take_bit 31 (sint a + sint b - 2 ^ 32)"
      by (rule signed_take_bit_eq_iff_take_bit_eq [THEN iffD2]) (simp add: take_bit_eq_mod flip: take_bit_diff)
    also have "\<dots> = sint a + sint b - 2 ^ 32"
      by (rule signed_take_bit_int_eq_self) (use False r in simp_all)
    finally show ?thesis using d False by simp
  qed
qed

lemma fits_iff:
  assumes "mgr_ok mgr"
  shows "of_nat BUFF_SIZE < ulong (blen mgr + n) \<longleftrightarrow> \<not> (0 \<le> sint (blen mgr) + sint n \<and> sint (blen mgr) + sint n \<le> int BUFF_SIZE)"
  using assms sint_lt [of n] sint_add_if [of "blen mgr" n] unfolding ulong_fits mgr_ok_def by (auto split: if_splits)

lemma put_buff_head:
  assumes "mgr_ok mgr"
  shows "trvlb_put_buff_head mgr n =
    (if 0 \<le> sint (blen mgr) + sint n \<and> sint (blen mgr) + sint n \<le> int BUFF_SIZE then (0, mgr\<lparr>blen := blen mgr + n\<rparr>)
     else (- EINVAL, mgr))"
  unfolding trvlb_put_buff_head_def fits_iff [OF assms] by simp

lemma ucast_room: "ucast (of_nat BUFF_SIZE - ulong i) = (of_nat BUFF_SIZE - i :: s32)"
proof -
  have "3968 - ulong i = word_of_int (3968 - sint i)"
    unfolding ulong_def scast_eq by (simp only: wi_hom_sub [symmetric] word_of_int_numeral)
  moreover have i: "word_of_int (sint i) = i" by simp
  have "(3968 - i :: s32) = word_of_int (3968 - sint i)"
    by (simp only: wi_hom_sub [symmetric] word_of_int_numeral i)
  moreover note this
  moreover have "ucast (word_of_int (3968 - sint i) :: u64) = (word_of_int (3968 - sint i) :: s32)"
    by (rule ucast_down_wi) (simp add: is_down)
  ultimately show ?thesis by (simp only: of_nat_numeral)
qed

lemma get_buff_head:
  assumes "mgr_ok mgr" and "trvlb_get_buff_head mgr = (off, tailroom)"
  shows "off = blen mgr" "sint tailroom = int BUFF_SIZE - sint (blen mgr)"
proof -
  have b: "0 \<le> sint (blen mgr)" "sint (blen mgr) \<le> 3968" using assms(1) by (simp_all add: mgr_ok_def)
  have "tailroom = 3968 - blen mgr"
    using assms(2) by (auto simp: trvlb_get_buff_head_def ucast_room [simplified])
  moreover have "sint (3968 - blen mgr) = signed_take_bit 31 (3968 - sint (blen mgr))" by (simp add: sint_word_ariths)
  moreover have "\<dots> = 3968 - sint (blen mgr)" using b by (intro signed_take_bit_int_eq_self) simp_all
  ultimately show "sint tailroom = int BUFF_SIZE - sint (blen mgr)" by simp
  show "off = blen mgr" using assms(2) by (simp add: trvlb_get_buff_head_def)
qed

lemma mem_write_fits: "0 \<le> sint off \<Longrightarrow> nat (sint off) + length bs \<le> length buf \<Longrightarrow>
    mem_write buf off bs = Some (take (nat (sint off)) buf @ bs @ drop (nat (sint off) + length bs) buf)"
  by (simp add: mem_write_def)

text \<open>Writing behind the text and counting what was written.\<close>

lemma append_text:
  assumes "mgr_ok mgr" and "0 \<le> sint n" and "nat (sint n) \<le> length bs"
    and "nat (sint (blen mgr)) + length bs \<le> BUFF_SIZE"
  shows "\<exists>b. mem_write (buffer mgr) (blen mgr) bs = Some b \<and> mgr_ok (mgr\<lparr>buffer := b, blen := blen mgr + n\<rparr>) \<and>
    log_text (mgr\<lparr>buffer := b, blen := blen mgr + n\<rparr>) = log_text mgr @ take (nat (sint n)) bs"
proof -
  have s: "sint (blen mgr + n) = sint (blen mgr) + sint n"
    using assms by (subst sint_add_if) (auto simp: mgr_ok_def)
  then show ?thesis
    using assms by (auto simp: mem_write_def mgr_ok_def log_text_def nat_add_distrib)
qed

lemma log_formated:
  assumes "mgr_ok mgr" and "nat (sint n) \<le> length buff"
  shows "if \<not> (0 \<le> sint n \<and> sint n \<le> int BUFF_SIZE) then trvlb_log_formated_string mgr buff n = Some (0, mgr)
    else \<exists>mgr'. trvlb_log_formated_string mgr buff n = Some (n, mgr') \<and> mgr_ok mgr' \<and>
      log_text mgr' = (if sint (blen mgr) + sint n \<le> int BUFF_SIZE then log_text mgr else []) @ take (nat (sint n)) buff"
proof (cases "0 \<le> sint n \<and> sint n \<le> int BUFF_SIZE")
  case True
  define m where "m = (if of_nat BUFF_SIZE < ulong (n + blen mgr) then mgr\<lparr>blen := 0\<rparr> else mgr)"
  have f: "of_nat BUFF_SIZE < ulong (n + blen mgr) \<longleftrightarrow> \<not> sint (blen mgr) + sint n \<le> int BUFF_SIZE"
    using fits_iff [OF assms(1), of n] True assms(1) by (simp add: add.commute mgr_ok_def)
  have m: "mgr_ok m" "sint (blen m) + sint n \<le> int BUFF_SIZE"
    "log_text m = (if sint (blen mgr) + sint n \<le> int BUFF_SIZE then log_text mgr else [])"
    using assms(1) True unfolding m_def f by (auto simp: mgr_ok_def log_text_def)
  have u: "unat (ulong n) = nat (sint n)" using True ulong_nonneg [of n] by (simp add: unat_eq_nat_uint)
  have "nat (sint (blen m)) + length (take (nat (sint n)) buff) \<le> BUFF_SIZE"
    using m(1,2) True by (auto simp: mgr_ok_def min_le_iff_disj nat_le_iff simp flip: nat_add_distrib)
  with append_text [OF m(1), of n "take (nat (sint n)) buff"] True assms(2) obtain b where
    "mem_write (buffer m) (blen m) (take (nat (sint n)) buff) = Some b" "mgr_ok (m\<lparr>buffer := b, blen := blen m + n\<rparr>)"
    "log_text (m\<lparr>buffer := b, blen := blen m + n\<rparr>) = log_text m @ take (nat (sint n)) buff"
    by auto
  moreover have "trvlb_log_formated_string mgr buff n = do {
      b \<leftarrow> mem_write (buffer m) (blen m) (take (nat (sint n)) buff);
      Some (n, m\<lparr>buffer := b, blen := blen m + n\<rparr>) }"
    unfolding trvlb_log_formated_string_def Let_def m_def [symmetric] mem_read_def u
    using True assms(2) ulong_fits [of n] by simp
  ultimately show ?thesis using True m(3) by simp
next
  case False
  then show ?thesis using ulong_fits [of n] by (auto simp: trvlb_log_formated_string_def)
qed

text \<open>What a callback must promise: it writes no more than the room it is given, and the size it returns is
  part of what it wrote.\<close>

locale stat_callback =
  fixes get :: "s32 \<Rightarrow> s32 \<times> string"
  assumes stays_inside: "0 \<le> sint room \<Longrightarrow> sint room \<le> int BUFF_SIZE \<Longrightarrow> get room = (n, bs) \<Longrightarrow>
    0 \<le> sint n \<and> nat (sint n) \<le> length bs \<and> length bs \<le> nat (sint room)"
begin

text \<open>Then its bytes are appended to the text.\<close>

lemma collects:
  assumes "mgr_ok mgr" and "get (of_nat BUFF_SIZE - blen mgr) = (n, bs)"
  shows "\<exists>mgr'. collect_entry get mgr = Some mgr' \<and> mgr_ok mgr' \<and> log_text mgr' = log_text mgr @ take (nat (sint n)) bs"
proof -
  obtain off room where g: "trvlb_get_buff_head mgr = (off, room)" by fastforce
  note h = get_buff_head [OF assms(1) g]
  have r: "room = of_nat BUFF_SIZE - blen mgr" using g unfolding trvlb_get_buff_head_def ucast_room by auto
  have c: "0 \<le> sint n" "nat (sint n) \<le> length bs" "length bs \<le> nat (sint room)"
    using stays_inside [of room n bs] h(2) assms unfolding r by (simp_all add: mgr_ok_def)
  have "nat (sint (blen mgr)) + length bs \<le> BUFF_SIZE"
    using c(3) h(2) assms(1) unfolding mgr_ok_def by linarith
  from append_text [OF assms(1) c(1,2) this] obtain b where b: "mem_write (buffer mgr) (blen mgr) bs = Some b"
    "mgr_ok (mgr\<lparr>buffer := b, blen := blen mgr + n\<rparr>)"
    "log_text (mgr\<lparr>buffer := b, blen := blen mgr + n\<rparr>) = log_text mgr @ take (nat (sint n)) bs" by blast
  have ok: "mgr_ok (mgr\<lparr>buffer := b\<rparr>)" using assms(1) b(2) by (simp add: mgr_ok_def)
  have "sint (blen mgr) + sint n \<le> int BUFF_SIZE" using c h(2) assms(1) unfolding mgr_ok_def by linarith
  then have "snd (trvlb_put_buff_head (mgr\<lparr>buffer := b\<rparr>) n) = mgr\<lparr>buffer := b, blen := blen mgr + n\<rparr>"
    using c(1) assms(1) unfolding put_buff_head [OF ok] by (simp add: mgr_ok_def)
  then show ?thesis using g h(1) assms(2) b unfolding r by (simp add: collect_entry_def)
qed

end

lemma scnprintf_bytes_inside:
  assumes "0 \<le> sint room" and "sint room \<le> int BUFF_SIZE" and "scnprintf_bytes room str = (n, bs)"
  shows "0 \<le> sint n \<and> nat (sint n) \<le> length bs \<and> length bs \<le> nat (sint room)"
proof (cases "sint room = 0")
  case False
  define t where "t = take (nat (sint room) - 1) str"
  have "n = of_nat (length t)" "bs = t @ [CHR 0x00]"
    using assms False unfolding t_def by (simp_all add: scnprintf_bytes_def Let_def)
  moreover have "length t \<le> nat (sint room) - 1" by (simp add: t_def)
  ultimately show ?thesis using assms(1,2) False sint_of_nat_small [of "length t"] by simp
qed (use assms in \<open>simp add: scnprintf_bytes_def\<close>)

interpretation dbg: stat_callback "get_stat debug_cb (ctx debug_cb)"
  by unfold_locales (auto simp: debug_cb_def debug_stats_def dest: scnprintf_bytes_inside)

section \<open>The list of callbacks\<close>

text \<open>The entries from a node to the head, and a list that holds exactly these entries.\<close>

fun chain :: "links \<Rightarrow> lnode \<Rightarrow> addr list \<Rightarrow> bool" where
  "chain l u [] = (u = Head)"
| "chain l u (x # xs) = (u = Entry x \<and> chain l (nxt l u) xs)"

definition callbacks :: "links \<Rightarrow> addr list \<Rightarrow> bool" where
  "callbacks l xs \<longleftrightarrow> chain l (nxt l Head) xs \<and> distinct xs \<and> prv l Head = (if xs = [] then Head else Entry (last xs))"

text \<open>The text after the callbacks have appended theirs.\<close>

fun stats_text :: "(addr \<rightharpoonup> stats_cb_entry) \<Rightarrow> addr list \<Rightarrow> string \<Rightarrow> string" where
  "stats_text es [] t = t"
| "stats_text es (x # xs) t = (case get_stat (the (es x)) (ctx (the (es x))) (of_nat BUFF_SIZE - of_nat (length t)) of
     (n, bs) \<Rightarrow> stats_text es xs (t @ take (nat (sint n)) bs))"

definition well_behaved :: "(addr \<rightharpoonup> stats_cb_entry) \<Rightarrow> addr list \<Rightarrow> bool" where
  "well_behaved es xs \<longleftrightarrow> (\<forall>x \<in> set xs. \<exists>e. es x = Some e \<and> stat_callback (get_stat e (ctx e)))"

lemma callbacks_init: "callbacks (scbm_init l) []"
  by (simp add: callbacks_def scbm_init_def INIT_LIST_HEAD_def)

lemma chain_other: "chain l u xs \<Longrightarrow> \<forall>x \<in> set xs. nxt l' (Entry x) = nxt l (Entry x) \<Longrightarrow> chain l' u xs"
  by (induction xs arbitrary: u) auto

lemma chain_snoc:
  "chain l u xs \<Longrightarrow> distinct xs \<Longrightarrow> e \<notin> set xs \<Longrightarrow> xs \<noteq> [] \<Longrightarrow>
    nxt l' = (nxt l)(Entry e := Head, Entry (last xs) := Entry e) \<Longrightarrow> chain l' u (xs @ [e])"
proof (induction xs arbitrary: u)
  case (Cons x xs)
  show ?case
  proof (cases "xs = []")
    case False
    then have "x \<noteq> last xs" using Cons.prems(2) last_in_set by fastforce
    then show ?thesis using Cons.IH [of "nxt l u"] Cons.prems False by auto
  qed (use Cons.prems in auto)
qed simp

lemma callbacks_register:
  assumes "callbacks l xs" and "e \<notin> set xs"
  shows "callbacks (scbm_register e l) (xs @ [e])"
proof (cases "xs = []")
  case False
  have "chain (scbm_register e l) (nxt l Head) (xs @ [e])"
    by (rule chain_snoc [of l]) (use assms False in \<open>simp_all add: callbacks_def scbm_register_def list_add_tail_def Let_def\<close>)
  then show ?thesis using assms False by (simp add: callbacks_def scbm_register_def list_add_tail_def Let_def)
qed (use assms in \<open>simp add: callbacks_def scbm_register_def list_add_tail_def Let_def\<close>)

lemma blen_text: "mgr_ok mgr \<Longrightarrow> blen mgr = of_nat (length (log_text mgr))"
  by (simp add: mgr_ok_def log_text_def min_absorb2 nat_le_iff)

lemma collect_all:
  "chain l u xs \<Longrightarrow> well_behaved es xs \<Longrightarrow> length xs \<le> n \<Longrightarrow> mgr_ok mgr \<Longrightarrow>
    \<exists>mgr'. collect_loop es l n u (nxt l u) mgr = Some (True, mgr') \<and> mgr_ok mgr' \<and>
      log_text mgr' = stats_text es xs (log_text mgr)"
proof (induction xs arbitrary: u n mgr)
  case (Cons x xs)
  then obtain n' where n: "n = Suc n'" by (cases n) auto
  obtain e where e: "es x = Some e" "stat_callback (get_stat e (ctx e))" using Cons.prems(2) by (auto simp: well_behaved_def)
  obtain k bs where g: "get_stat e (ctx e) (of_nat BUFF_SIZE - blen mgr) = (k, bs)" by fastforce
  obtain m where m: "collect_entry (get_stat e (ctx e)) mgr = Some m" "mgr_ok m"
    "log_text m = log_text mgr @ take (nat (sint k)) bs"
    using stat_callback.collects [OF e(2) Cons.prems(4) g] by blast
  have "well_behaved es xs" using Cons.prems(2) by (simp add: well_behaved_def)
  with Cons.IH [of "nxt l u" n' m] Cons.prems(1,3) n m(2) obtain mgr' where
    "collect_loop es l n' (nxt l u) (nxt l (nxt l u)) m = Some (True, mgr')" "mgr_ok mgr'"
    "log_text mgr' = stats_text es xs (log_text m)" by auto
  then show ?case using Cons.prems(1) n e(1) m g [unfolded blen_text [OF Cons.prems(4)]] by simp
qed simp

lemma collect_forever:
  assumes "\<And>x. x \<in> X \<Longrightarrow> \<exists>e. es x = Some e \<and> stat_callback (get_stat e (ctx e))"
    and "\<And>x. x \<in> X \<Longrightarrow> \<exists>y \<in> X. nxt l (Entry x) = Entry y"
  shows "mgr_ok mgr \<Longrightarrow> x \<in> X \<Longrightarrow> \<exists>mgr'. collect_loop es l n (Entry x) (nxt l (Entry x)) mgr = Some (False, mgr') \<and> mgr_ok mgr'"
proof (induction n arbitrary: x mgr)
  case (Suc n)
  obtain e where e: "es x = Some e" "stat_callback (get_stat e (ctx e))" using assms(1) Suc.prems(2) by blast
  obtain y where y: "y \<in> X" "nxt l (Entry x) = Entry y" using assms(2) Suc.prems(2) by blast
  obtain k bs where g: "get_stat e (ctx e) (of_nat BUFF_SIZE - blen mgr) = (k, bs)" by fastforce
  obtain m where m: "collect_entry (get_stat e (ctx e)) mgr = Some m" "mgr_ok m"
    using stat_callback.collects [OF e(2) Suc.prems(1) g] by blast
  then show ?case using Suc.IH [OF m(2) y(1)] e(1) y(2) by simp
qed simp

text \<open>Linking the last entry again makes it its own successor.\<close>

lemma chain_inner: "chain l u xs \<Longrightarrow> x \<in> set xs \<Longrightarrow> x \<noteq> last xs \<Longrightarrow> \<exists>y \<in> set xs. nxt l (Entry x) = Entry y"
proof (induction xs arbitrary: u)
  case (Cons a xs)
  then show ?case by (cases xs) auto
qed simp

lemma collect_twice:
  assumes "callbacks l xs" and "xs \<noteq> []" and "well_behaved es xs" and "mgr_ok mgr"
  shows "\<exists>mgr'. scbm_collect_stats es n (scbm_register (last xs) l) mgr = Some (False, mgr') \<and> mgr_ok mgr'"
proof -
  let ?l = "scbm_register (last xs) l"
  have n: "nxt ?l = (nxt l)(Entry (last xs) := Entry (last xs))" using assms(1,2)
    by (simp add: callbacks_def scbm_register_def list_add_tail_def Let_def)
  have h: "nxt ?l Head = Entry (hd xs)" using assms(1,2) n by (cases xs) (simp_all add: callbacks_def)
  show ?thesis unfolding scbm_collect_stats_def h
  proof (rule collect_forever [of "set xs"])
    show "\<exists>y \<in> set xs. nxt ?l (Entry x) = Entry y" if "x \<in> set xs" for x
      using chain_inner [of l "nxt l Head" xs x] that assms(1,2) n by (auto simp: callbacks_def)
  qed (use assms in \<open>auto simp: well_behaved_def\<close>)
qed

text \<open>The loop that copies the text to the user.\<close>

lemma drain:
  assumes "mgr_ok mgr"
  shows "drain_loop copy n 0 [] mgr =
    (if n = 0 \<or> log_text mgr = [] \<or> n < of_nat (length (log_text mgr)) then Some (0, [], mgr)
     else if copy 0 then Some (- EFAULT, [], mgr)
     else Some (int (length (log_text mgr)), [(0, log_text mgr)], mgr\<lparr>blen := 0\<rparr>))"
proof -
  have b: "0 \<le> sint (blen mgr)" "sint (blen mgr) \<le> 3968" "length (buffer mgr) = 3968" using assms by (simp_all add: mgr_ok_def)
  have L: "length (log_text mgr) = nat (sint (blen mgr))" using b by (simp add: log_text_def nat_le_iff)
  then have z: "blen mgr = 0 \<longleftrightarrow> log_text mgr = []" using blen_text [OF assms] b by auto
  have n: "unat (of_nat (length (log_text mgr)) :: u64) = length (log_text mgr)"
    using L b(2) by (simp add: unat_of_nat)
  have L': "int (length (log_text mgr)) = sint (blen mgr)" using L b(1) by simp
  have u: "ulong (blen mgr) = of_nat (length (log_text mgr))"
    unfolding word_uint_eq_iff ulong_nonneg [OF b(1)] uint_nat [of "of_nat (length (log_text mgr))"] n L' ..
  have s: "sint (of_nat (length (log_text mgr)) :: u64) = int (length (log_text mgr))"
    using L b(2) by (simp add: signed_of_nat signed_take_bit_int_eq_self)
  have r: "mem_read (buffer mgr) (ulong (blen mgr)) = Some (log_text mgr)"
    using L b unfolding mem_read_def u n by (simp add: log_text_def)
  have "drain_loop copy n c out (mgr\<lparr>blen := 0\<rparr>) = Some (sint c, out, mgr\<lparr>blen := 0\<rparr>)" for c out
    by (subst drain_loop.simps) (simp add: trvlb_pull_formated_buffer_def)
  then show ?thesis
    using z r s by (subst drain_loop.simps)
      (auto simp: trvlb_pull_formated_buffer_def trvlb_put_formated_buffer_def u word_greater_zero_iff)
qed

text \<open>Both files read the same log, which only writes to the file \<open>log\<close> fill.\<close>

lemma log_files:
  "lop_read logger_log_fops = lop_read stats_log_fops"
  "lop_write logger_log_fops memdup sz s = logger_log_write memdup sz s"
  "lop_write stats_log_fops memdup sz s = Some (rc, s') \<Longrightarrow> stats s' = stats s"
  by (auto simp: logger_log_fops_def stats_log_fops_def stats_log_write_def)

section \<open>Properties\<close>

text \<open>The invariant of the module: the buffer is in order and the list holds exactly the registered callbacks.\<close>

definition logger_ok :: "addr list \<Rightarrow> logger \<Rightarrow> bool" where
  "logger_ok xs s \<longleftrightarrow> mgr_ok (stats s) \<and> callbacks (cbm s) xs \<and> well_behaved (entries s) xs"

text \<open>The callbacks leave the text in order, and end within as many rounds as there are.\<close>

lemma collect_ok:
  assumes "logger_ok xs s" and "length xs \<le> fuel"
  shows "\<exists>m. scbm_collect_stats (entries s) fuel (cbm s) (stats s) = Some (True, m) \<and> mgr_ok m \<and>
    log_text m = stats_text (entries s) xs (log_text (stats s))"
  using collect_all [of "cbm s" "nxt (cbm s) Head" xs "entries s" fuel "stats s"] assms
  by (simp add: logger_ok_def callbacks_def scbm_collect_stats_def)

lemma log_write_ok:
  assumes "logger_ok xs s" and "1 < sz" and "sz < PAGE_SIZE" and "length str = sz"
  shows "\<exists>s'. logger_log_write (Inr str) sz s = Some (int sz, s') \<and> logger_ok xs s' \<and> entries s' = entries s \<and>
    log_text (stats s') = (if BUFF_SIZE < sz then log_text (stats s)
      else if length (log_text (stats s)) + sz \<le> BUFF_SIZE then log_text (stats s) @ str else str)"
proof -
  have m: "mgr_ok (stats s)" using assms(1) by (simp add: logger_ok_def)
  have n: "sint (of_nat sz :: s32) = int sz" using assms(3) by (intro sint_of_nat_small) simp
  have b: "sint (blen (stats s)) = int (length (log_text (stats s)))"
    using m by (simp add: mgr_ok_def log_text_def nat_le_iff)
  obtain rc m' where "trvlb_log_formated_string (stats s) (str @ [CHR 0x00]) (of_nat sz) = Some (rc, m')" "mgr_ok m'"
    "log_text m' = (if BUFF_SIZE < sz then log_text (stats s)
      else if length (log_text (stats s)) + sz \<le> BUFF_SIZE then log_text (stats s) @ str else str)"
    using log_formated [OF m, of "of_nat sz" "str @ [CHR 0x00]"] m assms(4) unfolding n b
    by (cases "BUFF_SIZE < sz") (auto split: if_splits)
  then show ?thesis using assms by (simp add: logger_log_write_def logger_ok_def)
qed

text \<open>C35. The buffer of the logger stays within its bounds whatever it is called with: any \<open>int\<close>, negative or
  overflowing, is either refused without effect or leaves a text of at most \<open>TRVL_BUFFER_SIZE\<close> bytes, and
  the head is the rest of the buffer. A formatted string is appended if it fits, replaces the whole text
  if it does not, and is dropped if it is longer than the buffer.\<close>

theorem log_buffer_bounds:
  assumes "mgr_ok mgr" and "nat (sint n) \<le> length buff"
  shows "(let fits = 0 \<le> sint (blen mgr) + sint n \<and> sint (blen mgr) + sint n \<le> int BUFF_SIZE in
      (\<exists>m. trvlb_put_buff_head mgr n = (if fits then 0 else - EINVAL, m) \<and> mgr_ok m \<and> (\<not> fits \<longrightarrow> m = mgr)) \<and>
      (\<exists>rc m. trvlb_log_formated_string mgr buff n = Some (rc, m) \<and> mgr_ok m \<and>
        log_text m = (if sint n < 0 \<or> int BUFF_SIZE < sint n then log_text mgr
          else (if fits then log_text mgr else []) @ take (nat (sint n)) buff))) \<and>
    (\<exists>off room. trvlb_get_buff_head mgr = (off, room) \<and> 0 \<le> sint off \<and> 0 \<le> sint room \<and>
      sint off + sint room = int BUFF_SIZE)"
proof (intro conjI)
  let ?fits = "0 \<le> sint (blen mgr) + sint n \<and> sint (blen mgr) + sint n \<le> int BUFF_SIZE"
  have "\<exists>m. trvlb_put_buff_head mgr n = (if ?fits then 0 else - EINVAL, m) \<and> mgr_ok m \<and> (\<not> ?fits \<longrightarrow> m = mgr)"
    using assms(1) put_buff_head [OF assms(1), of n] sint_add_if [of "blen mgr" n] by (auto simp: mgr_ok_def)
  moreover have "\<exists>rc m. trvlb_log_formated_string mgr buff n = Some (rc, m) \<and> mgr_ok m \<and>
      log_text m = (if sint n < 0 \<or> int BUFF_SIZE < sint n then log_text mgr
        else (if ?fits then log_text mgr else []) @ take (nat (sint n)) buff)"
    using log_formated [OF assms] assms(1) by (cases "0 \<le> sint n \<and> sint n \<le> int BUFF_SIZE") (auto simp: mgr_ok_def)
  ultimately show "let fits = ?fits in
      (\<exists>m. trvlb_put_buff_head mgr n = (if fits then 0 else - EINVAL, m) \<and> mgr_ok m \<and> (\<not> fits \<longrightarrow> m = mgr)) \<and>
      (\<exists>rc m. trvlb_log_formated_string mgr buff n = Some (rc, m) \<and> mgr_ok m \<and>
        log_text m = (if sint n < 0 \<or> int BUFF_SIZE < sint n then log_text mgr
          else (if fits then log_text mgr else []) @ take (nat (sint n)) buff))"
    unfolding Let_def by blast
  obtain off room where "trvlb_get_buff_head mgr = (off, room)" by fastforce
  with get_buff_head [OF assms(1) this] show "\<exists>off room. trvlb_get_buff_head mgr = (off, room) \<and> 0 \<le> sint off \<and>
      0 \<le> sint room \<and> sint off + sint room = int BUFF_SIZE"
    using assms(1) by (auto simp: mgr_ok_def)
qed

text \<open>C36. What is written to the log is what a read returns: the text so far with the new string, or only the
  new string when both do not fit, followed by the statistics of the registered callbacks, all at offset
  0 of the user's buffer, and the log is empty afterwards. A user's buffer that is too small, or a copy
  that fails, loses nothing. Every other read, at an odd position, returns nothing.\<close>

theorem log_roundtrip:
  assumes "logger_ok xs s" and "length xs \<le> fuel"
    and "1 < length str" and "length str \<le> BUFF_SIZE" and "ppos AND 1 = 0"
  shows "\<exists>s1 s2. logger_log_write (Inr str) (length str) s = Some (int (length str), s1) \<and> logger_ok xs s1 \<and> logger_ok xs s2 \<and>
    (let old = log_text (stats s);
         text = stats_text (entries s) xs (if length old + length str \<le> BUFF_SIZE then old @ str else str) in
     (if n = 0 \<or> text = [] \<or> n < of_nat (length text)
      then stats_log_read fuel copy True n ppos s1 = Some (Some (0, ppos + 1, []), s2) \<and> log_text (stats s2) = text
      else if copy 0
      then stats_log_read fuel copy True n ppos s1 = Some (Some (- EFAULT, ppos + 1, []), s2) \<and> log_text (stats s2) = text
      else stats_log_read fuel copy True n ppos s1 = Some (Some (int (length text), ppos + 1, [(0, text)]), s2) \<and>
        log_text (stats s2) = [])) \<and>
    stats_log_read fuel copy True n (ppos + 1) s2 = Some (Some (0, ppos + 2, []), s2)"
proof -
  define t where "t = (if length (log_text (stats s)) + length str \<le> BUFF_SIZE then log_text (stats s) @ str else str)"
  obtain s1 where s1: "logger_log_write (Inr str) (length str) s = Some (int (length str), s1)" "logger_ok xs s1"
    "entries s1 = entries s" "log_text (stats s1) = t"
    using log_write_ok [OF assms(1,3) _ refl] assms(4) unfolding t_def by auto
  obtain m where m: "scbm_collect_stats (entries s1) fuel (cbm s1) (stats s1) = Some (True, m)" "mgr_ok m"
    "log_text m = stats_text (entries s) xs t"
    using collect_ok [OF s1(2) assms(2)] unfolding s1(3,4) by blast
  define s2 where "s2 = s1\<lparr>stats := (if n = 0 \<or> log_text m = [] \<or> n < of_nat (length (log_text m)) \<or> copy 0 then m
    else m\<lparr>blen := 0\<rparr>)\<rparr>"
  have ok: "logger_ok xs s2" using s1(2) m(2) by (simp add: s2_def logger_ok_def mgr_ok_def)
  have o: "(ppos + 1) AND 1 \<noteq> 0" using assms(5) by (metis and_one_eq even_add odd_iff_mod_2_eq_one one_neq_zero mod2_eq_if odd_one)
  then have odd: "stats_log_read fuel copy True n (ppos + 1) s2 = Some (Some (0, ppos + 2, []), s2)"
    by (simp add: stats_log_read_def add.assoc)
  have rd: "stats_log_read fuel copy True n ppos s1 = do {
      (rc, out, mgr) \<leftarrow> drain_loop copy n 0 [] m; Some (Some (rc, ppos + 1, out), s1\<lparr>stats := mgr\<rparr>) }"
    using assms(5) m(1) by (simp add: stats_log_read_def)
  show ?thesis
    by (rule exI [of _ s1], rule exI [of _ s2])
      (use s1(1,2) ok odd in \<open>simp add: rd drain [OF m(2)] m(3) s2_def Let_def log_text_def [of "m\<lparr>blen := 0\<rparr>"] t_def\<close>)
qed

text \<open>C37. Writing to the file of the statistics registers the debug callback. One write leaves the list in
  order, with the callback at its end, so that reads end; a second write links the same static entry
  again and makes it its own successor, and no read of the file ever ends.\<close>

theorem stats_write_twice:
  assumes "logger_ok xs s" and "entries s debug_entry = Some debug_cb" and "debug_entry \<notin> set xs"
    and "ppos AND 1 = 0"
  shows "case stats_log_write sz s of (rc, s1) \<Rightarrow> rc = int sz \<and> logger_ok (xs @ [debug_entry]) s1 \<and>
    (\<exists>r s'. stats_log_read (length xs + 1) copy True n ppos s1 = Some (Some r, s')) \<and>
    (\<forall>fuel. \<exists>s'. stats_log_read fuel copy True n ppos (snd (stats_log_write sz s1)) = Some (None, s'))"
proof -
  define s1 where "s1 = s\<lparr>cbm := scbm_register debug_entry (cbm s)\<rparr>"
  have ok: "logger_ok (xs @ [debug_entry]) s1"
    using assms(1-3) callbacks_register [of "cbm s" xs debug_entry] dbg.stat_callback_axioms
    by (auto simp: logger_ok_def s1_def well_behaved_def)
  obtain m where m: "scbm_collect_stats (entries s1) (length xs + 1) (cbm s1) (stats s1) = Some (True, m)" "mgr_ok m"
    using collect_ok [OF ok, of "length xs + 1"] by auto
  have "\<exists>r s'. stats_log_read (length xs + 1) copy True n ppos s1 = Some (Some r, s')"
    using assms(4) m(1) drain [OF m(2), of copy n] by (simp add: stats_log_read_def)
  moreover have "\<exists>s'. stats_log_read fuel copy True n ppos (snd (stats_log_write sz s1)) = Some (None, s')" for fuel
  proof -
    obtain m where "scbm_collect_stats (entries s1) fuel (scbm_register debug_entry (cbm s1)) (stats s1) = Some (False, m)"
      using collect_twice [of "cbm s1" "xs @ [debug_entry]" "entries s1" "stats s1" fuel] ok by (auto simp: logger_ok_def)
    then show ?thesis using assms(4) by (simp add: stats_log_read_def stats_log_write_def)
  qed
  ultimately show ?thesis using ok by (simp add: stats_log_write_def s1_def)
qed

text \<open>Loading: with all files created the module starts in order, with an empty log and no callbacks. It
  reports success even if a file cannot be created, since \<open>ret\<close> is 0 by then.\<close>

lemma dp_log_init_result:
  assumes "bufsize s \<noteq> 0" and "length (buffer (stats s)) = BUFF_SIZE"
  shows "fst (dp_log_init ok s) = 0" "logger_ok [] (snd (dp_log_init ok s))" "log_text (stats (snd (dp_log_init ok s))) = []"
  using assms callbacks_init [of "cbm s"]
  by (simp_all add: dp_log_init_def md_init_def md_close_def scbm_close_def log_proc_def logger_ok_def mgr_ok_def well_behaved_def log_text_def
      trvlb_init_def trvlb_close_def Let_def)

section \<open>Witnesses\<close>

definition ex_logger :: logger where
  "ex_logger = \<lparr>stats = \<lparr>blen = 0, buffer = replicate BUFF_SIZE (CHR 0x00)\<rparr>, cbm = scbm_init \<lparr>nxt = id, prv = id\<rparr>,
     entries = [debug_entry \<mapsto> debug_cb], bufsize = 4096, proc_calls = []\<rparr>"

lemma ex_logger_ok: "logger_ok [] ex_logger" "log_text (stats ex_logger) = []"
  using callbacks_init by (simp_all add: ex_logger_def logger_ok_def mgr_ok_def well_behaved_def log_text_def)

theorem log_buffer_bounds_witness:
  "\<exists>m. trvlb_put_buff_head (stats ex_logger) (- 5) = (- 22, m) \<and> mgr_ok m"
proof -
  have "mgr_ok (stats ex_logger)" using ex_logger_ok(1) by (simp add: logger_ok_def)
  from log_buffer_bounds [OF this, of "- 5" "[]"] show ?thesis by (simp add: ex_logger_def Let_def)
qed

theorem log_roundtrip_witness:
  "\<exists>s1 s2. logger_log_write (Inr ''hello'') 5 ex_logger = Some (5, s1) \<and>
     stats_log_read 0 (\<lambda>_. False) True 4096 2 s1 = Some (Some (5, 3, [(0, ''hello'')]), s2)"
proof -
  have "length ''hello'' = 5" by simp
  from log_roundtrip [OF ex_logger_ok(1), of 0 "''hello''" 2 4096 "\<lambda>_. False", unfolded this ex_logger_ok(2)] show ?thesis
    by (auto simp: Let_def)
qed

theorem stats_write_twice_witness:
  "\<forall>fuel. \<exists>s'. stats_log_read fuel (\<lambda>_. False) True 4096 0 (snd (stats_log_write 1 (snd (stats_log_write 1 ex_logger)))) = Some (None, s')"
  using stats_write_twice [OF ex_logger_ok(1), of 0 1 "\<lambda>_. False" 4096]
  by (simp add: ex_logger_def split: prod.splits)

end
