(* ===== verification/Kernel_Client.thy ===== *)
theory Kernel_Client
  imports Half_Duplex
begin

unbundle bit_operations_syntax

text \<open>
  The benchmark client, the separate module \<^verbatim>\<open>kernel_client/client.c\<close>: two server threads that accept
  connections and count what they receive, one by copying and one with the zero-copy receive of a
  patched kernel, and a client that sends when its file in \<^verbatim>\<open>/proc\<close> is written.

  What the outside does is a script, one entry per iteration of a loop; a script that ends before the loop
  stands for a thread that is still running. Pages and sockets are identified by their addresses; the
  calls that create, use and release them are recorded in order. Times are nanoseconds.
\<close>

section \<open>The files\<close>

record client =
  is_zcopy :: int
  woken :: "addr list"

text \<open>\<open>memdup_user_nul\<close> returns the text with a \<open>NUL\<close> at its end; \<open>PTR_ERR(NULL)\<close> is 0.\<close>

definition PTR_ERR :: "'a kptr \<Rightarrow> int" where
  "PTR_ERR p = (case p of ERR_PTR e \<Rightarrow> e | _ \<Rightarrow> 0)"

definition client_write :: "string kptr \<Rightarrow> nat \<Rightarrow> addr \<Rightarrow> client \<Rightarrow> int \<times> client" where
  "client_write memdup n private_data s = (case memdup of
     PTR str \<Rightarrow> (let kbuf = str @ [CHR 0x00] in
       (int n, s\<lparr>is_zcopy := if hd kbuf = CHR ''0'' then 1 else 0, woken := woken s @ [private_data]\<rparr>))
   | p \<Rightarrow> (PTR_ERR p, s))"

definition client_read :: "bool \<Rightarrow> u64 \<Rightarrow> int \<times> u64" where
  "client_read buf ppos =
     (if \<not> buf then (- EINVAL, ppos)
      else if ppos AND 1 \<noteq> 0 then (0, ppos + 1)
      else (0, ppos + 1))"

text \<open>Opening a file makes the thread it was created with its private data.\<close>

definition noop_open :: "addr \<Rightarrow> int \<times> addr" where
  "noop_open pde_data = (0, pde_data)"

record client_file_ops =
  fop_open :: "addr \<Rightarrow> int \<times> addr"
  fop_read :: "bool \<Rightarrow> u64 \<Rightarrow> int \<times> u64"
  fop_write :: "string kptr \<Rightarrow> nat \<Rightarrow> addr \<Rightarrow> client \<Rightarrow> int \<times> client"

definition client_fops :: client_file_ops where
  "client_fops = \<lparr>fop_open = noop_open, fop_read = client_read, fop_write = client_write\<rparr>"

section \<open>Receiving\<close>

abbreviation (input) NSEC_PER_SEC :: int where "NSEC_PER_SEC \<equiv> 1000000000"

text \<open>The counters of a connection, and the reports it has printed: the time since the last one, and bytes.\<close>

record rx =
  rx_start :: int
  rx_bytes :: u64
  reports :: "(int \<times> u64) list"

definition rx_tick :: "int \<Rightarrow> 'a rx_scheme \<Rightarrow> 'a rx_scheme" where
  "rx_tick now r =
     (if rx_start r + NSEC_PER_SEC < now
      then r\<lparr>reports := reports r @ [(now - rx_start r, rx_bytes r)], rx_start := now, rx_bytes := 0\<rparr> else r)"

text \<open>An iteration: whether the thread is told to stop, the time, and the result of \<open>kernel_recvmsg\<close>.\<close>

record rx_io =
  told :: bool
  now :: int
  got :: int

fun recv_loop :: "rx_io list \<Rightarrow> rx \<Rightarrow> int \<Rightarrow> (int \<times> rx) option" where
  "recv_loop [] r rc = None"
| "recv_loop (i # is) r rc =
     (if told i then Some (rc, r)
      else let r = rx_tick (now i) r; rc = got i in
        if rc \<le> 0 then Some (rc, r)
        else recv_loop is (r\<lparr>rx_bytes := rx_bytes r + of_int rc\<rparr>) rc)"

text \<open>The function is named after the module, since the splitter has one of the same name. The arguments are
  the array on the stack before it is filled, the results of the allocations, the time when it starts,
  and the script; the results the value returned, the counters and the pages freed.\<close>

definition start_new_connection_client :: "u64 list \<Rightarrow> u64 list \<Rightarrow> int \<Rightarrow> rx_io list \<Rightarrow> (int \<times> rx \<times> u64 list) option" where
  "start_new_connection_client stack allocs start ios = do {
     let r = \<lparr>rx_start = start, rx_bytes = 0, reports = []\<rparr>;
     let (bases, ok) = kvec_alloc (take VEC_SZ stack) (take VEC_SZ allocs);
     (rc, r) \<leftarrow> (if \<not> ok then Some (0, r) else recv_loop ios r 0);
     Some (rc, r, filter (\<lambda>p. p \<noteq> 0) bases) }"

text \<open>
  The zero-copy variant. \<open>tcp_read_sock_zcopy\<close> belongs to the patched kernel; a look at the queue finds it
  empty, or the call is made, with its result and the array it leaves.
\<close>

datatype rx_poll = Rx_empty | Rx_read int "addr option list"

fun tcp_read_sock_zcopy_blocking :: "rx_poll list \<Rightarrow> addr option list \<Rightarrow> (int \<times> addr option list) option" where
  "tcp_read_sock_zcopy_blocking [] kvec = None"
| "tcp_read_sock_zcopy_blocking (Rx_empty # ps) kvec = tcp_read_sock_zcopy_blocking ps kvec"
| "tcp_read_sock_zcopy_blocking (Rx_read rc kvec' # ps) kvec =
     (if rc < 0 then Some (rc, kvec')
      else if rc = 0 then tcp_read_sock_zcopy_blocking ps kvec'
      else Some (rc, kvec'))"

record rxz = rx +
  zvec :: "addr option list"
  puts :: "addr list"

record rxz_io =
  told_z :: bool
  now_z :: int
  polls :: "rx_poll list"

text \<open>The loop that puts the pages, up to the first slot that is \<open>NULL\<close>.\<close>

fun put_pages :: "addr option list \<Rightarrow> addr list \<times> addr option list" where
  "put_pages [] = ([], [])"
| "put_pages (None # kvec) = ([], None # kvec)"
| "put_pages (Some p # kvec) = (case put_pages kvec of (ps, kvec) \<Rightarrow> (p # ps, None # kvec))"

fun recv_z_loop :: "rxz_io list \<Rightarrow> rxz \<Rightarrow> int \<Rightarrow> (int \<times> rxz) option" where
  "recv_z_loop [] r rc = None"
| "recv_z_loop (i # is) r rc =
     (if told_z i then Some (rc, r)
      else let r = rx_tick (now_z i) r in
        (case tcp_read_sock_zcopy_blocking (polls i) (zvec r) of
           None \<Rightarrow> None
         | Some (rc, kvec) \<Rightarrow>
             let r = r\<lparr>zvec := kvec\<rparr> in
             if rc < 0 then Some (rc, r)
             else if rc = 0 then recv_z_loop is r rc
             else (case put_pages (zvec r) of
               (ps, kvec) \<Rightarrow> recv_z_loop is (r\<lparr>rx_bytes := rx_bytes r + of_int rc, zvec := kvec, puts := puts r @ ps\<rparr>) rc)))"

definition start_new_connection_z :: "int \<Rightarrow> rxz_io list \<Rightarrow> (int \<times> rxz) option" where
  "start_new_connection_z start ios =
     recv_z_loop ios \<lparr>rx_start = start, rx_bytes = 0, reports = [], zvec = replicate VEC_SZ None, puts = []\<rparr> 0"

section \<open>The servers\<close>

datatype conn_fn = Start_new_connection_client | Start_new_connection_z

datatype ccall =
    c_sock_create sock
  | c_bind sock u16
  | c_listen sock nat
  | c_accept sock
  | c_kthread_run conn_fn sock
  | c_sock_set_zerocopy sock
  | c_connect sock u32 u16
  | c_sendmsg sock nat
  | c_sock_release sock
  | c_alloc_pages addr nat
  | c_free_pages addr nat

text \<open>An iteration of the accept loop: the result of \<open>kernel_accept\<close>, the new socket, and whether the thread is
  told to stop.\<close>

record acc_io =
  acc_rc :: int
  nsock :: sock
  acc_stop :: bool

record srv_env =
  lsock_new :: sock
  create_rc :: int
  bind_rc :: int
  listen_rc :: int
  accepts :: "acc_io list"

fun accept_loop :: "conn_fn \<Rightarrow> sock \<Rightarrow> acc_io list \<Rightarrow> ccall list \<Rightarrow> (int \<times> ccall list) option" where
  "accept_loop f k [] cs = None"
| "accept_loop f k (a # as) cs =
     (let cs = cs @ [c_accept k] in
      if acc_rc a \<noteq> 0 then Some (acc_rc a, cs)
      else let cs = cs @ [c_kthread_run f (nsock a)] in
        if acc_stop a then Some (0, cs) else accept_loop f k as cs)"

text \<open>The two servers differ in the port and in the function of the connections only.\<close>

definition run_split_server :: "u16 \<Rightarrow> conn_fn \<Rightarrow> srv_env \<Rightarrow> (int \<times> ccall list) option" where
  "run_split_server prt f e = (let k = lsock_new e in
     if create_rc e \<noteq> 0 then Some (create_rc e, [])
     else let cs = [c_sock_create k, c_bind k prt] in
     if bind_rc e \<noteq> 0 then Some (bind_rc e, cs @ [c_sock_release k])
     else let cs = cs @ [c_listen k 32] in
     if listen_rc e \<noteq> 0 then Some (listen_rc e, cs @ [c_sock_release k])
     else map_option (\<lambda>(rc, cs). (rc, cs @ [c_sock_release k])) (accept_loop f k (accepts e) cs))"

definition split_server_z :: "srv_env \<Rightarrow> (int \<times> ccall list) option" where
  "split_server_z e = run_split_server 8081 Start_new_connection_z e"

definition split_server_client :: "srv_env \<Rightarrow> (int \<times> ccall list) option" where
  "split_server_client e = run_split_server 8080 Start_new_connection_client e"

section \<open>Sending\<close>

text \<open>The script is the results of \<open>trace_sendmsg\<close>; the result counts the calls.\<close>

fun send_loop :: "nat \<Rightarrow> int list \<Rightarrow> nat \<Rightarrow> nat option" where
  "send_loop 0 rcs c = Some c"
| "send_loop (Suc n) [] c = None"
| "send_loop (Suc n) (rc # rcs) c = (if rc \<le> 0 then send_loop (Suc n) rcs (c + 1) else send_loop n rcs (c + 1))"

text \<open>The sixteen buffers: addresses and lengths in the block of \<open>2\<^sup>6\<close> pages.\<close>

definition client_kvec :: "addr \<Rightarrow> (addr \<times> nat) list" where
  "client_kvec base = map (\<lambda>i. (base + i * (PAGE_SIZE * 4), PAGE_SIZE * 4)) [0..<16]"

abbreviation (input) SERVER_ADDR :: u32 where "SERVER_ADDR \<equiv> 0x0A9A0015"

record tc_env =
  tc_base :: "addr option"
  tc_sock :: sock
  tc_create_rc :: int
  tc_connect_rc :: int
  tc_sends :: "int list"

text \<open>
  The result \<open>None\<close> is an oops: at the label \<open>err\<close> without a socket, \<open>sock_release(NULL)\<close>. The result \<open>None\<close>
  inside is a client that is still sending. The calls of \<open>send_loop\<close> are in the log as one entry with
  their number.
\<close>

definition tcp_client :: "tc_env \<Rightarrow> int \<Rightarrow> ccall list option option" where
  "tcp_client e z = (case tc_base e of
     None \<Rightarrow> None
   | Some base \<Rightarrow>
       if tc_create_rc e \<noteq> 0 then None
       else let tx = tc_sock e;
                cs = [c_alloc_pages base 6, c_sock_create tx] @ (if z \<noteq> 0 then [c_sock_set_zerocopy tx] else []) @
                  [c_connect tx (htonl SERVER_ADDR) (htons 8080)];
                clean = [c_sock_release tx, c_free_pages base 6] in
       if tc_connect_rc e \<noteq> 0 then Some (Some (cs @ clean))
       else Some (map_option (\<lambda>n. cs @ [c_sendmsg tx n] @ clean) (send_loop (2 ^ 19) (tc_sends e) 0)))"

definition udp_client :: "tc_env \<Rightarrow> ccall list" where
  "udp_client e = (case tc_base e of
     None \<Rightarrow> []
   | Some base \<Rightarrow> [c_alloc_pages base 0] @
       (if tc_create_rc e \<noteq> 0 then [] else [c_sock_create (tc_sock e), c_sendmsg (tc_sock e) (2 ^ 25)]))"

text \<open>An iteration of the thread that waits for a write: told to stop before it sleeps, told to stop after,
  the mode at that time and what the client meets.\<close>

record poll_io =
  stop_before :: bool
  stop_after :: bool
  mode :: int
  run :: tc_env

fun poll_thread :: "poll_io list \<Rightarrow> ccall list \<Rightarrow> ccall list option option" where
  "poll_thread [] cs = Some None"
| "poll_thread (p # ps) cs =
     (if stop_before p then Some (Some cs)
      else if stop_after p then poll_thread ps cs
      else (case tcp_client (run p) (mode p) of
        None \<Rightarrow> None
      | Some None \<Rightarrow> Some None
      | Some (Some l) \<Rightarrow> poll_thread ps (cs @ l)))"

section \<open>Loading and unloading\<close>

text \<open>The results of the four thread creations and of the two files. \<open>alive\<close> are the threads that have not
  returned: the structure of a thread that has is freed.\<close>

record client_mod =
  udp_task :: "addr kptr"
  tcp_task :: "addr kptr"
  tcp_server :: "addr kptr list"
  alive :: "addr set"
  wakes :: "addr list"
  stops :: "addr list"

record ci_env =
  ci_udp :: "addr kptr"
  ci_tcp :: "addr kptr"
  ci_srv :: "addr kptr"
  ci_srv_z :: "addr kptr"
  udp_file :: bool
  tcp_file :: bool

fun task_of :: "addr kptr \<Rightarrow> addr set" where
  "task_of (PTR t) = {t}"
| "task_of _ = {}"

text \<open>Clearing a flag of a thread reads its pointer.\<close>

definition client_init :: "ci_env \<Rightarrow> client_mod \<Rightarrow> (int \<times> client_mod) option" where
  "client_init e s = (case ci_udp e of PTR u \<Rightarrow> (case ci_tcp e of PTR t \<Rightarrow>
       (let s = s\<lparr>udp_task := PTR u, tcp_task := PTR t, tcp_server := [ci_srv e, ci_srv_z e],
                  alive := {u, t} \<union> task_of (ci_srv e) \<union> task_of (ci_srv_z e), wakes := wakes s @ [u, t]\<rparr> in
        Some (if \<not> udp_file e then - 1 else if \<not> tcp_file e then - 1 else 0, s))
     | _ \<Rightarrow> None) | _ \<Rightarrow> None)"

text \<open>The two files that are created: their operations and the thread each belongs to.\<close>

definition client_files :: "ci_env \<Rightarrow> client_mod \<Rightarrow> (string \<times> client_file_ops \<times> addr kptr) list" where
  "client_files e s = (if \<not> udp_file e then []
     else (''udp_client'', client_fops, udp_task s) #
       (if \<not> tcp_file e then [] else [(''tcp_client'', client_fops, tcp_task s)]))"

definition kthread_stop :: "addr kptr \<Rightarrow> client_mod \<Rightarrow> client_mod option" where
  "kthread_stop p s = (case p of
     PTR t \<Rightarrow> if t \<in> alive s then Some (s\<lparr>alive := alive s - {t}, stops := stops s @ [t]\<rparr>) else None
   | _ \<Rightarrow> None)"

definition client_exit :: "client_mod \<Rightarrow> client_mod option" where
  "client_exit s = do {
     s \<leftarrow> kthread_stop (udp_task s) s;
     s \<leftarrow> kthread_stop (tcp_task s) s;
     srv \<leftarrow> arr_get (tcp_server s) 0;
     s \<leftarrow> kthread_stop srv s;
     srv \<leftarrow> arr_get (tcp_server s) 1;
     kthread_stop srv s }"

text \<open>A thread that returns by itself.\<close>

definition thread_returns :: "addr \<Rightarrow> client_mod \<Rightarrow> client_mod" where
  "thread_returns t s = s\<lparr>alive := alive s - {t}\<rparr>"

section \<open>Lemmas\<close>

text \<open>The bytes a connection has counted, reported or not.\<close>

definition counted :: "'a rx_scheme \<Rightarrow> u64" where
  "counted r = sum_list (map snd (reports r)) + rx_bytes r"

definition slow_reports :: "'a rx_scheme \<Rightarrow> bool" where
  "slow_reports r \<longleftrightarrow> (\<forall>(dt, b) \<in> set (reports r). NSEC_PER_SEC < dt)"

lemma rx_tick: "counted (rx_tick t r) = counted r" "slow_reports r \<Longrightarrow> slow_reports (rx_tick t r)"
  by (auto simp: counted_def slow_reports_def rx_tick_def)

lemma rx_tick_more: "rxz.more (rx_tick t r) = rxz.more r" "zvec (rx_tick t r) = zvec r" "puts (rx_tick t r) = puts r" for r :: rxz
  by (simp_all add: rx_tick_def)

lemma counted_add: "counted (r\<lparr>rx_bytes := rx_bytes r + b\<rparr>) = counted r + b" "slow_reports (r\<lparr>rx_bytes := b\<rparr>) = slow_reports r"
  by (simp_all add: counted_def slow_reports_def)

text \<open>The iterations that received something, and the one that ended the loop.\<close>

lemma recv_loop_split:
  "recv_loop is r rc = Some (rc', r') \<Longrightarrow> slow_reports r \<Longrightarrow>
    \<exists>pre last post. is = pre @ last # post \<and> (\<forall>i \<in> set pre. \<not> told i \<and> 0 < got i) \<and>
      (told last \<or> got last \<le> 0) \<and> rc' = (if told last then List.last (rc # map got pre) else got last) \<and>
      counted r' = counted r + of_int (sum_list (map got pre)) \<and> slow_reports r'"
proof (induction "is" r rc rule: recv_loop.induct)
  case (2 i "is" r rc)
  show ?case
  proof (cases "told i \<or> got i \<le> 0")
    case True
    then have "rc' = (if told i then rc else got i)" "counted r' = counted r" "slow_reports r'"
      using 2(2,3) rx_tick by (auto simp: Let_def split: if_splits)
    then show ?thesis using True by (intro exI [of _ "[]"] exI [of _ i] exI [of _ "is"]) simp
  next
    case False
    let ?r = "rx_tick (now i) r\<lparr>rx_bytes := rx_bytes (rx_tick (now i) r) + of_int (got i)\<rparr>"
    have r: "recv_loop is ?r (got i) = Some (rc', r')" "slow_reports ?r" "counted ?r = counted r + of_int (got i)"
      using 2(2,3) False rx_tick by (simp_all add: Let_def counted_add)
    obtain pre last post where IH: "is = pre @ last # post" "\<forall>i \<in> set pre. \<not> told i \<and> 0 < got i" "told last \<or> got last \<le> 0"
      "rc' = (if told last then List.last (got i # map got pre) else got last)"
      "counted r' = counted ?r + of_int (sum_list (map got pre))" "slow_reports r'"
      using 2(1) [OF _ refl refl] r False by blast
    then show ?thesis using False r(3) by (intro exI [of _ "i # pre"] exI [of _ last] exI [of _ post]) auto
  qed
qed simp

text \<open>
  What the thread puts of an array, whatever the kernel left in it: the pages in front of the first empty
  slot. The pages behind it stay.
\<close>

definition no_pages :: "addr option list" where
  "no_pages = replicate VEC_SZ None"

definition lead :: "addr option list \<Rightarrow> addr list" where
  "lead kvec = map the (takeWhile (\<lambda>x. x \<noteq> None) kvec)"

definition behind :: "addr option list \<Rightarrow> addr option list" where
  "behind kvec = replicate (length (lead kvec)) None @ dropWhile (\<lambda>x. x \<noteq> None) kvec"

lemma put_pages_lead: "put_pages kvec = (lead kvec, behind kvec)"
  by (induction kvec rule: put_pages.induct) (simp_all add: lead_def behind_def)

text \<open>A call never returns 0, and does not depend on what was in the array before.\<close>

lemma read_blocking:
  "tcp_read_sock_zcopy_blocking ps kvec = Some (rc, kvec') \<Longrightarrow> rc \<noteq> 0 \<and> tcp_read_sock_zcopy_blocking ps no_pages = Some (rc, kvec')"
proof (induction ps arbitrary: kvec)
  case (Cons p ps)
  show ?case
  proof (cases p)
    case Rx_empty
    then show ?thesis using Cons by simp
  next
    case (Rx_read rc' kv)
    then show ?thesis using Cons.prems Cons.IH [of kv] by (auto split: if_splits)
  qed
qed simp

text \<open>Nothing in the loop that waits looks at \<open>kthread_should_stop\<close>: a connection that the peer has closed, on
  which every read returns 0, keeps it forever.\<close>

lemma read_closed: "\<forall>p \<in> set ps. p = Rx_empty \<or> (\<exists>kvec. p = Rx_read 0 kvec) \<Longrightarrow> tcp_read_sock_zcopy_blocking ps kvec = None"
  by (induction ps arbitrary: kvec) auto

text \<open>The result of the call in an iteration, and the array it leaves.\<close>

abbreviation read_of :: "rxz_io \<Rightarrow> int \<times> addr option list" where
  "read_of i \<equiv> the (tcp_read_sock_zcopy_blocking (polls i) no_pages)"

abbreviation put_of :: "rxz_io list \<Rightarrow> addr list" where
  "put_of pre \<equiv> concat (map (\<lambda>i. lead (snd (read_of i))) pre)"

text \<open>The array when the loop ends: after the last call, if it failed, otherwise after the last pages were put.\<close>

definition final_vec :: "rxz_io list \<Rightarrow> rxz_io \<Rightarrow> addr option list \<Rightarrow> addr option list" where
  "final_vec pre i kvec = (if \<not> told_z i then snd (read_of i) else if pre = [] then kvec else behind (snd (read_of (last pre))))"

lemma recv_z_loop_split:
  "recv_z_loop is r rc = Some (rc', r') \<Longrightarrow> slow_reports r \<Longrightarrow>
    \<exists>pre i post. is = pre @ i # post \<and> (\<forall>j \<in> set pre. \<not> told_z j \<and> 0 < fst (read_of j)) \<and>
      (if told_z i then rc' = last (rc # map (\<lambda>j. fst (read_of j)) pre) else rc' = fst (read_of i) \<and> rc' < 0) \<and>
      zvec r' = final_vec pre i (zvec r) \<and> puts r' = puts r @ put_of pre \<and>
      counted r' = counted r + of_int (sum_list (map (\<lambda>j. fst (read_of j)) pre)) \<and> slow_reports r'"
proof (induction "is" arbitrary: r rc)
  case (Cons i "is")
  let ?t = "rx_tick (now_z i) r"
  show ?case
  proof (cases "told_z i")
    case True
    then show ?thesis using Cons.prems(1,2)
      by (intro exI [of _ "[]"] exI [of _ i] exI [of _ "is"]) (simp add: final_vec_def)
  next
    case False
    then obtain c kvec where b: "tcp_read_sock_zcopy_blocking (polls i) (zvec r) = Some (c, kvec)"
      using Cons.prems(1) rx_tick_more(2) [of "now_z i" r] by (auto simp: Let_def split: option.splits)
    have rd: "c \<noteq> 0" "read_of i = (c, kvec)" using read_blocking [OF b] by simp_all
    show ?thesis
    proof (cases "c < 0")
      case True
      then have "rc' = c" "r' = ?t\<lparr>zvec := kvec\<rparr>"
        using Cons.prems(1) rx_tick_more(2) [of "now_z i" r] b False by (auto simp: Let_def)
      then show ?thesis using True False rd rx_tick [where r = r and t = "now_z i"] Cons.prems(2) rx_tick_more [of "now_z i" r]
        by (intro exI [of _ "[]"] exI [of _ i] exI [of _ "is"]) (simp add: counted_def slow_reports_def final_vec_def)
    next
      case c: False
      then have pos: "0 < c" using rd(1) by simp
      let ?r = "?t\<lparr>rx_bytes := rx_bytes ?t + of_int c, zvec := behind kvec, puts := puts ?t @ lead kvec\<rparr>"
      have r: "recv_z_loop is ?r c = Some (rc', r')"
        using Cons.prems(1) rx_tick_more(2) [of "now_z i" r] b pos False by (simp add: Let_def put_pages_lead)
      have sl: "slow_reports ?r" "counted ?r = counted r + of_int c" "zvec ?r = behind kvec" "puts ?r = puts r @ lead kvec"
        using rx_tick [where r = r and t = "now_z i"] Cons.prems(2) rx_tick_more [of "now_z i" r] by (simp_all add: counted_def slow_reports_def)
      obtain pre j post where IH: "is = pre @ j # post" "\<forall>j \<in> set pre. \<not> told_z j \<and> 0 < fst (read_of j)"
        "if told_z j then rc' = last (c # map (\<lambda>j. fst (read_of j)) pre) else rc' = fst (read_of j) \<and> rc' < 0"
        "zvec r' = final_vec pre j (behind kvec)" "puts r' = puts ?r @ put_of pre"
        "counted r' = counted ?r + of_int (sum_list (map (\<lambda>j. fst (read_of j)) pre))" "slow_reports r'"
        using Cons.IH [OF r sl(1)] unfolding sl(3) by blast
      have "final_vec (i # pre) j (zvec r) = final_vec pre j (behind kvec)" using rd(2) by (simp add: final_vec_def)
      moreover have "if told_z j then rc' = last (rc # map (\<lambda>j. fst (read_of j)) (i # pre)) else rc' = fst (read_of j) \<and> rc' < 0"
        using IH(3) rd(2) by (cases "told_z j") simp_all
      ultimately show ?thesis using IH(1,2,4-7) sl(2,4) False pos rd(2)
        by - (rule exI [of _ "i # pre"], rule exI [of _ j], rule exI [of _ post], auto simp: add.assoc)
    qed
  qed
qed simp

lemma send_loop_ends: "(\<exists>c'. send_loop n rcs c = Some c') \<longleftrightarrow> n \<le> length (filter (\<lambda>rc. 0 < rc) rcs)"
proof (induction n rcs c rule: send_loop.induct)
  case (3 n rc rcs c)
  then show ?case by (cases "rc \<le> 0") simp_all
qed auto

lemma accept_loop_calls:
  "accept_loop f k as cs = Some (rc, cs') \<Longrightarrow>
    \<exists>conns. cs' = cs @ concat (map (\<lambda>x. [c_accept k, c_kthread_run f x]) conns) @ (if rc = 0 then [] else [c_accept k])"
proof (induction as arbitrary: cs)
  case (Cons a as)
  show ?case
  proof (cases "acc_rc a \<noteq> 0")
    case True
    then show ?thesis using Cons.prems by (intro exI [of _ "[]"]) (auto simp: Let_def)
  next
    case f: False
    show ?thesis
    proof (cases "acc_stop a")
      case True
      then show ?thesis using Cons.prems f by (intro exI [of _ "[nsock a]"]) (auto simp: Let_def)
    next
      case False
      then obtain conns where "cs' = (cs @ [c_accept k, c_kthread_run f (nsock a)]) @
          concat (map (\<lambda>x. [c_accept k, c_kthread_run f x]) conns) @ (if rc = 0 then [] else [c_accept k])"
        using Cons.IH [of "cs @ [c_accept k, c_kthread_run f (nsock a)]"] Cons.prems f by (auto simp: Let_def)
      then show ?thesis by (intro exI [of _ "nsock a # conns"]) simp
    qed
  qed
qed simp

text \<open>The sixteen buffers tile the block.\<close>

lemma client_kvec_tiles: "concat (map (\<lambda>(b, n). [b..<b + n]) (client_kvec base)) = [base..<base + 2 ^ 6 * PAGE_SIZE]"
proof -
  have "concat (map (\<lambda>(b, n). [b..<b + n]) (map (\<lambda>i. (base + i * 16384, 16384)) [0..<k])) = [base..<base + k * 16384]" for k
  proof (induction k)
    case (Suc k)
    then show ?case using upt_add_eq_append [of base "base + k * 16384" 16384] by (simp add: ac_simps)
  qed simp
  from this [of 16] show ?thesis by (simp add: client_kvec_def)
qed

text \<open>Writing to a file of the loaded module wakes the thread of that file, and asks for zero copy with \<open>0\<close>.\<close>

lemma write_wakes_task:
  assumes "client_init e s = Some (0, s')" and "(name, fops, PTR t) \<in> set (client_files e s')"
  shows "t = the_elem (task_of (if name = ''udp_client'' then ci_udp e else ci_tcp e)) \<and> t \<in> alive s' \<and>
    fop_write fops (PTR str) n (snd (fop_open fops t)) c =
      (int n, \<lparr>is_zcopy = if take 1 str = ''0'' then 1 else 0, woken = woken c @ [t]\<rparr>)"
  using assms by (cases str) (auto simp: client_init_def client_files_def client_fops_def noop_open_def client_write_def Let_def
      split: kptr.splits if_splits)

section \<open>Properties\<close>

text \<open>C38. Both connection threads account for every byte: when one ends, it has received in some number of
  iterations, and what it has reported and still counts is the sum of what it received, modulo \<open>2\<^sup>6\<^sup>4\<close>;
  every report covers more than a second. The copying thread frees its sixteen buffers; if one of them cannot
  be allocated, it receives nothing, frees those before it, and frees whatever the uninitialised slots
  after it hold. The zero-copy thread puts, after every call that returned something, the pages in front of
  the first empty slot of the array, in order, whatever the kernel left in it; the pages behind that slot,
  those that a call with the result 0 left, and those of the last call when it failed are not put.\<close>

theorem receive_accounting:
  assumes "length stack = VEC_SZ" and "length pages = VEC_SZ"
  shows "(0 \<notin> set pages \<and> start_new_connection_client stack pages start ios = Some (rc, r, freed) \<longrightarrow>
      freed = pages \<and> slow_reports r \<and> (\<exists>pre i post. ios = pre @ i # post \<and> (\<forall>j \<in> set pre. \<not> told j \<and> 0 < got j) \<and>
        (if told i then rc = last (0 # map got pre) else rc = got i \<and> rc \<le> 0) \<and> counted r = of_int (sum_list (map got pre)))) \<and>
    (pages = good @ 0 # rest \<and> 0 \<notin> set good \<longrightarrow>
      (\<exists>r0. start_new_connection_client stack pages start ios =
         Some (0, r0, good @ filter (\<lambda>p. p \<noteq> 0) (drop (Suc (length good)) stack)) \<and> counted r0 = 0)) \<and>
    (start_new_connection_z start zs = Some (rc, z) \<longrightarrow>
      slow_reports z \<and> (\<exists>pre i post. zs = pre @ i # post \<and> (\<forall>j \<in> set pre. \<not> told_z j \<and> 0 < fst (read_of j)) \<and>
        (if told_z i then rc = last (0 # map (\<lambda>j. fst (read_of j)) pre) else rc = fst (read_of i) \<and> rc < 0) \<and>
        puts z = concat (map (\<lambda>j. lead (snd (read_of j))) pre) \<and> zvec z = final_vec pre i no_pages \<and>
        counted z = of_int (sum_list (map (\<lambda>j. fst (read_of j)) pre))))"
proof (intro conjI impI)
  let ?r = "\<lparr>rx_start = start, rx_bytes = 0, reports = []\<rparr>"
  have r: "counted ?r = 0" "slow_reports ?r" by (simp_all add: counted_def slow_reports_def)
  assume h: "0 \<notin> set pages \<and> start_new_connection_client stack pages start ios = Some (rc, r, freed)"
  then have *: "recv_loop ios ?r 0 = Some (rc, r)" "freed = filter (\<lambda>p. p \<noteq> 0) pages"
    using assms kvec_alloc_ok [of stack pages] by (auto simp: start_new_connection_client_def bind_eq_Some_conv)
  have "filter (\<lambda>p. p \<noteq> 0) pages = pages" using h by (auto simp: filter_id_conv)
  then show "freed = pages" using *(2) by simp
  note split = recv_loop_split [OF *(1) r(2)]
  then show "slow_reports r" by blast
  obtain pre i post where p: "ios = pre @ i # post" "\<forall>j \<in> set pre. \<not> told j \<and> 0 < got j" "told i \<or> got i \<le> 0"
    "rc = (if told i then last (0 # map got pre) else got i)" "counted r = counted ?r + of_int (sum_list (map got pre))"
    using split by blast
  then show "\<exists>pre i post. ios = pre @ i # post \<and> (\<forall>j \<in> set pre. \<not> told j \<and> 0 < got j) \<and>
      (if told i then rc = last (0 # map got pre) else rc = got i \<and> rc \<le> 0) \<and> counted r = of_int (sum_list (map got pre))"
    using r(1) by (intro exI [of _ pre] exI [of _ i] exI [of _ post]) auto
next
  assume h: "pages = good @ 0 # rest \<and> 0 \<notin> set good"
  have "length stack = length good + Suc (length rest)" using assms h by simp
  from kvec_alloc_fail [OF this, of rest] have k: "kvec_alloc stack pages = (good @ 0 # drop (Suc (length good)) stack, False)"
    using h by simp
  have "filter (\<lambda>p. p \<noteq> 0) good = good" using h by (auto simp: filter_id_conv)
  then show "\<exists>r0. start_new_connection_client stack pages start ios =
      Some (0, r0, good @ filter (\<lambda>p. p \<noteq> 0) (drop (Suc (length good)) stack)) \<and> counted r0 = 0"
    using assms k by (simp add: start_new_connection_client_def counted_def)
next
  let ?r = "\<lparr>rx_start = start, rx_bytes = 0, reports = [], zvec = replicate VEC_SZ None, puts = []\<rparr>"
  have r: "counted ?r = 0" "slow_reports ?r" "zvec ?r = no_pages" "puts ?r = []"
    by (simp_all add: counted_def slow_reports_def no_pages_def)
  assume "start_new_connection_z start zs = Some (rc, z)"
  then have "recv_z_loop zs ?r 0 = Some (rc, z)" by (simp add: start_new_connection_z_def)
  note split = recv_z_loop_split [OF this r(2), unfolded r(1,3,4) append_Nil add_0]
  then show "slow_reports z" by blast
  show "\<exists>pre i post. zs = pre @ i # post \<and> (\<forall>j \<in> set pre. \<not> told_z j \<and> 0 < fst (read_of j)) \<and>
        (if told_z i then rc = last (0 # map (\<lambda>j. fst (read_of j)) pre) else rc = fst (read_of i) \<and> rc < 0) \<and>
        puts z = concat (map (\<lambda>j. lead (snd (read_of j))) pre) \<and> zvec z = final_vec pre i no_pages \<and>
        counted z = of_int (sum_list (map (\<lambda>j. fst (read_of j)) pre))"
    using split by blast
qed

text \<open>C39. A run of the sending client ends if and only if it got its pages and a socket and either could not
  connect or could send \<open>2\<^sup>1\<^sup>9\<close> times; then the socket is released and the pages are freed, once and last,
  and zero copy was asked for exactly when it was set. Without pages or without a socket it crashes in its
  own clean-up. The sixteen buffers it sends tile the \<open>2\<^sup>6\<close> pages it allocates.\<close>

theorem tcp_client_lifecycle:
  "(tcp_client e z = None \<longleftrightarrow> tc_base e = None \<or> tc_create_rc e \<noteq> 0) \<and>
   ((\<exists>cs. tcp_client e z = Some (Some cs)) \<longleftrightarrow> tc_base e \<noteq> None \<and> tc_create_rc e = 0 \<and>
      (tc_connect_rc e = 0 \<longrightarrow> 2 ^ 19 \<le> length (filter (\<lambda>rc. 0 < rc) (tc_sends e)))) \<and>
   (\<forall>cs. tcp_client e z = Some (Some cs) \<longrightarrow> (\<exists>base mid. tc_base e = Some base \<and>
      cs = c_alloc_pages base 6 # c_sock_create (tc_sock e) # mid @ [c_sock_release (tc_sock e), c_free_pages base 6] \<and>
      (\<forall>c \<in> set mid. (\<forall>k. c \<noteq> c_sock_release k) \<and> (\<forall>b n. c \<noteq> c_free_pages b n)) \<and>
      (c_sock_set_zerocopy (tc_sock e) \<in> set mid \<longleftrightarrow> z \<noteq> 0) \<and>
      (tc_connect_rc e = 0 \<longleftrightarrow> (\<exists>n. c_sendmsg (tc_sock e) n \<in> set mid)) \<and>
      concat (map (\<lambda>(b, n). [b..<b + n]) (client_kvec base)) = [base..<base + 2 ^ 6 * PAGE_SIZE]))"
proof (cases "tc_base e")
  case (Some base)
  show ?thesis
  proof (cases "tc_create_rc e = 0 \<and> tc_connect_rc e = 0")
    case True
    then show ?thesis
    proof (cases "send_loop (2 ^ 19) (tc_sends e) 0")
      case None
      then have "\<not> 2 ^ 19 \<le> length (filter (\<lambda>rc. 0 < rc) (tc_sends e))" using send_loop_ends [of "2 ^ 19" "tc_sends e" 0] by simp
      then show ?thesis using Some True None by (simp add: tcp_client_def Let_def)
    next
      case (Some n)
      then have "2 ^ 19 \<le> length (filter (\<lambda>rc. 0 < rc) (tc_sends e))" using send_loop_ends [of "2 ^ 19" "tc_sends e" 0] by simp
      then show ?thesis using \<open>tc_base e = Some base\<close> True Some client_kvec_tiles [of base]
        by (auto simp: tcp_client_def Let_def)
    qed
  qed (use Some client_kvec_tiles [of base] in \<open>auto simp: tcp_client_def Let_def\<close>)
qed (simp add: tcp_client_def)

text \<open>The servers and the unloading of the module. A server that returns has released its socket, if it got
  one, as its last call, and has handed every connection it accepted to a thread. Loading creates four
  threads, which run even if a file cannot be created and loading fails. Unloading stops all four in
  order if none has returned; if one has, such as a server that could not bind, it crashes.\<close>

theorem client_servers:
  assumes "ci_udp e = PTR u" and "ci_tcp e = PTR t" and "ci_srv e = PTR a" and "ci_srv_z e = PTR b" and "distinct [u, t, a, b]"
  shows "(run_split_server prt f v = Some (rc, cs) \<longrightarrow>
      (if create_rc v \<noteq> 0 then cs = [] \<and> rc = create_rc v
       else \<exists>conns. cs = c_sock_create (lsock_new v) # c_bind (lsock_new v) prt #
         (if bind_rc v \<noteq> 0 then [] else c_listen (lsock_new v) 32 # concat (map (\<lambda>x. [c_accept (lsock_new v), c_kthread_run f x]) conns) @
           (if listen_rc v \<noteq> 0 \<or> rc = 0 then [] else [c_accept (lsock_new v)])) @ [c_sock_release (lsock_new v)])) \<and>
    (\<exists>rc s1. client_init e s = Some (rc, s1) \<and> (rc = 0 \<longleftrightarrow> udp_file e \<and> tcp_file e) \<and> alive s1 = {u, t, a, b} \<and>
      (\<exists>s2. client_exit s1 = Some s2 \<and> alive s2 = {} \<and> stops s2 = stops s @ [u, t, a, b]) \<and>
      (\<forall>x \<in> {u, t, a, b}. client_exit (thread_returns x s1) = None))"
proof (intro conjI impI)
  let ?k = "lsock_new v"
  assume r: "run_split_server prt f v = Some (rc, cs)"
  show "if create_rc v \<noteq> 0 then cs = [] \<and> rc = create_rc v
       else \<exists>conns. cs = c_sock_create ?k # c_bind ?k prt #
         (if bind_rc v \<noteq> 0 then [] else c_listen ?k 32 # concat (map (\<lambda>x. [c_accept ?k, c_kthread_run f x]) conns) @
           (if listen_rc v \<noteq> 0 \<or> rc = 0 then [] else [c_accept ?k])) @ [c_sock_release ?k]"
  proof (cases "create_rc v = 0 \<and> bind_rc v = 0 \<and> listen_rc v = 0")
    case True
    then obtain cs' where "accept_loop f ?k (accepts v) [c_sock_create ?k, c_bind ?k prt, c_listen ?k 32] = Some (rc, cs')"
      "cs = cs' @ [c_sock_release ?k]" using r by (auto simp: run_split_server_def Let_def)
    then show ?thesis using accept_loop_calls True by fastforce
  next
    case False
    then show ?thesis using r by (auto simp: run_split_server_def Let_def split: if_splits intro!: exI [of _ "[]"])
  qed
next
  show "\<exists>rc s1. client_init e s = Some (rc, s1) \<and> (rc = 0 \<longleftrightarrow> udp_file e \<and> tcp_file e) \<and> alive s1 = {u, t, a, b} \<and>
      (\<exists>s2. client_exit s1 = Some s2 \<and> alive s2 = {} \<and> stops s2 = stops s @ [u, t, a, b]) \<and>
      (\<forall>x \<in> {u, t, a, b}. client_exit (thread_returns x s1) = None)"
    using assms by (auto simp: client_init_def client_exit_def kthread_stop_def thread_returns_def)
qed

section \<open>Witnesses\<close>

text \<open>A read that fills two slots, after one that leaves a page with the result 0: that page is lost.\<close>

definition ex_zs :: "rxz_io list" where
  "ex_zs = [\<lparr>told_z = False, now_z = 5, polls = [Rx_empty, Rx_read 0 [Some 3], Rx_read 6000 (map Some [7, 9] @ replicate 14 None)]\<rparr>,
     \<lparr>told_z = True, now_z = 6, polls = []\<rparr>]"

theorem receive_accounting_witness:
  "\<exists>z. start_new_connection_z 0 ex_zs = Some (6000, z) \<and> puts z = [7, 9] \<and> counted z = 6000 \<and>
    (\<exists>r0. start_new_connection_client (replicate 16 5) (replicate 2 1 @ 0 # replicate 13 1) 0 [] =
       Some (0, r0, [1, 1] @ replicate 13 5))"
proof -
  define zs where "zs = ex_zs"
  obtain z where z: "start_new_connection_z 0 zs = Some (6000, z)"
    by (simp add: zs_def start_new_connection_z_def ex_zs_def rx_tick_def put_pages_lead Let_def)
  obtain i1 i2 where zs: "zs = [i1, i2]" "told_z i2" "read_of i1 = (6000, map Some [7, 9] @ replicate 14 None)" "\<not> told_z i1"
    by (simp add: zs_def ex_zs_def)
  have l: "length (replicate 16 (5 :: u64)) = VEC_SZ" "length (replicate 2 (1 :: u64) @ 0 # replicate 13 1) = VEC_SZ" by simp_all
  note c = receive_accounting [OF l, where start = 0 and ios = "[]" and good = "replicate 2 1" and rest = "replicate 13 1"
      and zs = zs and rc = 6000 and z = z]
  obtain pre i post where p: "zs = pre @ i # post" "\<forall>j \<in> set pre. \<not> told_z j \<and> 0 < fst (read_of j)"
    "if told_z i then 6000 = last (0 # map (\<lambda>j. fst (read_of j)) pre) else (6000 :: int) = fst (read_of i) \<and> (6000 :: int) < 0"
    "puts z = put_of pre" "counted z = of_int (sum_list (map (\<lambda>j. fst (read_of j)) pre))"
    using c z by blast
  have "pre = [i1]" using p(1-3) zs(1,2,4) by (cases pre) (auto simp: Cons_eq_append_conv)
  then have "puts z = [7, 9]" "counted z = 6000" using p(4,5) zs(3) by (simp_all add: lead_def)
  moreover have "\<exists>r0. start_new_connection_client (replicate 16 5) (replicate 2 1 @ 0 # replicate 13 1) 0 [] =
       Some (0, r0, [1, 1] @ replicate 13 5)"
  proof -
    have "filter (\<lambda>p. p \<noteq> 0) (drop (Suc (length (replicate 2 (1 :: u64)))) (replicate 16 5)) = replicate 13 (5 :: u64)" by simp
    moreover have "replicate 2 (1 :: u64) = [1, 1]" "(0 :: u64) \<notin> set (replicate 2 1)" by (simp_all add: numeral_eq_Suc)
    ultimately show ?thesis using c by metis
  qed
  ultimately show ?thesis using z unfolding zs_def by blast
qed

definition ex_tc :: "int list \<Rightarrow> tc_env" where
  "ex_tc sends = \<lparr>tc_base = Some 65536, tc_sock = 20, tc_create_rc = 0, tc_connect_rc = 0, tc_sends = sends\<rparr>"

theorem tcp_client_lifecycle_witness:
  "\<exists>cs. tcp_client (ex_tc (replicate (2 ^ 19) 1)) 1 = Some (Some cs) \<and> last cs = c_free_pages 65536 6"
proof -
  define rcs where "rcs = replicate (2 ^ 19) (1 :: int)"
  have "length (filter (\<lambda>rc. 0 < rc) (replicate n (1 :: int))) = n" for n by simp
  then have n: "length (filter (\<lambda>rc. 0 < rc) rcs) = 2 ^ 19" unfolding rcs_def .
  have e: "tc_base (ex_tc rcs) = Some 65536" "tc_create_rc (ex_tc rcs) = 0" "tc_sends (ex_tc rcs) = rcs" by (simp_all add: ex_tc_def)
  obtain cs where cs: "tcp_client (ex_tc rcs) 1 = Some (Some cs)"
    using tcp_client_lifecycle [of "ex_tc rcs" 1, THEN conjunct2, THEN conjunct1] e n by fastforce
  obtain base mid where "tc_base (ex_tc rcs) = Some base"
    "cs = c_alloc_pages base 6 # c_sock_create (tc_sock (ex_tc rcs)) # mid @ [c_sock_release (tc_sock (ex_tc rcs)), c_free_pages base 6]"
    using tcp_client_lifecycle [of "ex_tc rcs" 1, THEN conjunct2, THEN conjunct2, rule_format, OF cs] by blast
  then have "last cs = c_free_pages 65536 6" using e(1) by simp
  then show ?thesis using cs unfolding rcs_def by blast
qed

definition ex_ci_env :: ci_env where
  "ex_ci_env = \<lparr>ci_udp = PTR 1, ci_tcp = PTR 2, ci_srv = PTR 3, ci_srv_z = PTR 4, udp_file = True, tcp_file = True\<rparr>"

definition ex_client_mod :: client_mod where
  "ex_client_mod = \<lparr>udp_task = NULL, tcp_task = NULL, tcp_server = [], alive = {}, wakes = [], stops = []\<rparr>"

definition ex_srv_env :: srv_env where
  "ex_srv_env = \<lparr>lsock_new = 20, create_rc = 0, bind_rc = - 98, listen_rc = 0, accepts = []\<rparr>"

theorem client_servers_witness:
  "run_split_server 8080 Start_new_connection_client ex_srv_env = Some (- 98, [c_sock_create 20, c_bind 20 8080, c_sock_release 20]) \<and>
   (\<exists>s1. client_init ex_ci_env ex_client_mod = Some (0, s1) \<and> client_exit (thread_returns 3 s1) = None)"
proof -
  have "\<exists>cs. run_split_server 8080 Start_new_connection_client ex_srv_env = Some (- 98, cs)"
    by (simp add: run_split_server_def ex_srv_env_def)
  then obtain cs where cs: "run_split_server 8080 Start_new_connection_client ex_srv_env = Some (- 98, cs)" ..
  have "ci_udp ex_ci_env = PTR 1" "ci_tcp ex_ci_env = PTR 2" "ci_srv ex_ci_env = PTR 3" "ci_srv_z ex_ci_env = PTR 4"
    "udp_file ex_ci_env" "tcp_file ex_ci_env" by (simp_all add: ex_ci_env_def)
  with client_servers [OF this(1-4), of 8080 Start_new_connection_client ex_srv_env "- 98" cs ex_client_mod] cs
  show ?thesis by (auto simp: ex_srv_env_def)
qed

end
