(* ===== verification/Pkt_Trace.thy ===== *)
theory Pkt_Trace
  imports Netfilter Format
begin

unbundle bit_operations_syntax

text \<open>
  The packet tracer, the separate module \<^verbatim>\<open>pkt_tracer/\<close>: hooks that print the headers of marked packets and
  of packets on the ports 5000 to 6000, and accept every packet. The text is put together in a buffer of
  512 bytes on the stack with \<open>sprintf\<close>, which does not check for space.

  A packet is the fields that are printed, in network byte order. \<open>%p\<close> of the packet is a parameter.
\<close>

section \<open>Definitions\<close>

record trace_tcp =
  t_source :: u16
  t_dest :: u16
  t_seq :: u32
  t_ack_seq :: u32
  t_window :: u16
  t_syn :: bool
  t_ack :: bool
  t_fin :: bool

record trace_skb =
  skb_mark :: u32
  secmark :: s32
  ihl :: "4 word"
  version :: "4 word"
  tos :: u8
  tot_len :: u16
  ip_id :: u16
  frag_off :: u16
  ttl :: u8
  proto :: u8
  ip_check :: u16
  ip_saddr :: u32
  ip_daddr :: u32
  transport :: trace_tcp

text \<open>The first two fields of a UDP header are in the same place.\<close>

definition udp_port :: "trace_skb \<Rightarrow> nat \<times> nat" where
  "udp_port skb = (unat (ntohs (t_source (transport skb))), unat (ntohs (t_dest (transport skb))))"

definition tcp_port :: "trace_skb \<Rightarrow> nat \<times> nat" where
  "tcp_port skb = (unat (ntohs (t_source (transport skb))), unat (ntohs (t_dest (transport skb))))"

definition get_port :: "trace_skb \<Rightarrow> bool" where
  "get_port skb =
     (let p = (0, 0);
          p = (if proto skb = 6 then tcp_port skb else p);
          p = (if proto skb = 17 then udp_port skb else p);
          (s, d) = p
      in (s \<ge> 5000 \<and> s \<le> 6000) \<or> (d \<ge> 5000 \<and> d \<le> 6000))"

definition iphdr_flag :: "u16 \<Rightarrow> string" where
  "iphdr_flag flags = (if bit flags 14 then ''DF'' else if bit flags 13 then ''MF'' else [])"

definition proto_string :: "u8 \<Rightarrow> string" where
  "proto_string p = (if p = 1 then ''ICMP'' else if p = 4 then ''IP'' else if p = 6 then ''TCP'' else if p = 17 then ''UDP''
     else if p = 50 then ''ESP'' else if p = 51 then ''AH'' else [])"

text \<open>\<open>%x\<close>, \<open>%05d\<close> and \<open>%pI4n\<close>.\<close>

definition hex_digit :: "nat \<Rightarrow> char" where
  "hex_digit n = (if n < 10 then char_of (48 + n) else char_of (87 + n))"

fun nat_hex :: "nat \<Rightarrow> string" where
  "nat_hex n = (if n < 16 then [hex_digit n] else nat_hex (n div 16) @ [hex_digit (n mod 16)])"

declare nat_hex.simps [simp del]

definition pad5 :: "nat \<Rightarrow> string" where
  "pad5 n = replicate (5 - length (nat_dec n)) (CHR ''0'') @ nat_dec n"

definition pI4 :: "u32 \<Rightarrow> string" where
  "pI4 ad = concat (map (\<lambda>b. nat_dec (unat b) @ ''.'') (butlast (bytes32 ad))) @ nat_dec (unat (last (bytes32 ad)))"

abbreviation (input) NL :: string where "NL \<equiv> [CHR 0x0A]"
abbreviation (input) TAB2 :: string where "TAB2 \<equiv> [CHR 0x09, CHR 0x09]"

definition dump_iph :: "trace_skb \<Rightarrow> string" where
  "dump_iph skb =
     TAB2 @ ''mark 0x'' @ nat_hex (unat (skb_mark skb)) @ '' secmark '' @ int_dec (sint (secmark skb)) @ NL @ TAB2 @
     ''ihl '' @ nat_dec (unat (ihl skb)) @ '' ver '' @ nat_dec (unat (version skb)) @ '' tos '' @ nat_dec (unat (tos skb)) @
     '' total len '' @ nat_dec (unat (ntohs (tot_len skb))) @ NL @ TAB2 @
     ''id '' @ pad5 (unat (ntohs (ip_id skb))) @ '' frag_off '' @ pad5 (unat (take_bit 13 (ntohs (frag_off skb)))) @
     '' ['' @ iphdr_flag (ntohs (frag_off skb)) @ '']'' @ NL @ TAB2 @
     ''ttl '' @ nat_dec (unat (ttl skb)) @ '' proto '' @ proto_string (proto skb) @ ''['' @ nat_dec (unat (proto skb)) @
     ''] csum 0x'' @ nat_hex (unat (ip_check skb)) @ NL @ TAB2 @
     ''saddr '' @ pI4 (ip_saddr skb) @ '' '' @ NL @ TAB2 @ ''daddr '' @ pI4 (ip_daddr skb) @ '' '' @ NL"

definition dump_tcph :: "trace_tcp \<Rightarrow> string" where
  "dump_tcph t =
     NL @ TAB2 @ nat_dec (unat (ntohs (t_source t))) @ '' => '' @ nat_dec (unat (ntohs (t_dest t))) @ '' '' @
     TAB2 @ (if t_syn t then ''SYN'' else []) @ '' '' @ (if t_ack t then ''ACK'' else []) @ '' '' @ (if t_fin t then ''FIN'' else []) @ NL @
     TAB2 @ ''seq '' @ nat_dec (unat (ntohl (t_seq t))) @ '' ack '' @ int_dec (sint (ntohl (t_ack_seq t))) @
     '' window '' @ nat_dec (unat (ntohs (t_window t))) @ NL"

definition dump_udph :: "trace_tcp \<Rightarrow> string" where
  "dump_udph t = TAB2 @ ''src : '' @ pad5 (unat (ntohs (t_source t))) @ ''  dst '' @ pad5 (unat (ntohs (t_dest t))) @ NL"

text \<open>What is handed to \<open>trace_printk\<close>.\<close>

definition trace_only :: "string \<Rightarrow> trace_skb \<Rightarrow> string \<Rightarrow> string option" where
  "trace_only ptr skb str = do {
     let store = replicate 512 (CHR 0x00);
     let line = str @ '':<'' @ ptr @ ''>'' @ NL;
     store \<leftarrow> sprintf_at store 0 line;
     let idx = length line;
     store \<leftarrow> sprintf_at store idx (dump_iph skb);
     let idx = idx + length (dump_iph skb);
     (store, idx) \<leftarrow> (if proto skb = 6 then do {
         store \<leftarrow> sprintf_at store idx (dump_tcph (transport skb));
         Some (store, idx + length (dump_tcph (transport skb))) } else Some (store, idx));
     (store, idx) \<leftarrow> (if proto skb = 17 then do {
         store \<leftarrow> sprintf_at store idx (dump_udph (transport skb));
         Some (store, idx + length (dump_udph (transport skb))) } else Some (store, idx));
     Some (take idx store) }"

definition cbn_trace_hook :: "string \<Rightarrow> string \<Rightarrow> trace_skb \<Rightarrow> string list \<Rightarrow> (verdict \<times> string list) option" where
  "cbn_trace_hook ptr priv skb out =
     (if skb_mark skb \<noteq> 0 \<or> get_port skb
      then do { t \<leftarrow> trace_only ptr skb priv; Some (NF_ACCEPT, out @ [t]) }
      else Some (NF_ACCEPT, out))"

text \<open>
  The same decision as the splitter makes, with the text that is put together for a switched-off trace. No
  hook of the tracer calls it.
\<close>

definition tracer_trace_iph :: "trace_skb \<Rightarrow> string \<Rightarrow> bool option" where
  "tracer_trace_iph skb str =
     (if proto skb = 6 then
        (let t = transport skb in
         if t_syn t \<and> \<not> t_ack t then do {
           let store = replicate 512 (CHR 0x00);
           let line = str @ '':'' @ NL;
           store \<leftarrow> sprintf_at store 0 line;
           let idx = length line;
           store \<leftarrow> sprintf_at store idx (dump_iph skb);
           let idx = idx + length (dump_iph skb);
           store \<leftarrow> sprintf_at store idx (dump_tcph t);
           Some (skb_mark skb \<noteq> 0) }
         else Some False)
      else Some False)"

text \<open>\<open>%02x\<close>, and the lines of sixteen bytes; every element of the list is one call of \<open>trace_printk\<close>.\<close>

definition hex2 :: "u8 \<Rightarrow> string" where
  "hex2 b = [hex_digit (unat b div 16), hex_digit (unat b mod 16)]"

fun hex_loop :: "u8 list \<Rightarrow> nat \<Rightarrow> nat \<Rightarrow> string list option" where
  "hex_loop buf i 0 = Some [NL]"
| "hex_loop buf i (Suc n) = do {
     b \<leftarrow> arr_get buf i;
     out \<leftarrow> hex_loop buf (Suc i) n;
     Some ((if i mod 16 = 0 then [NL @ nat_dec i @ [CHR 0x09] @ '':''] else []) @ [hex2 b @ '' ''] @ out) }"

definition hex_dump :: "u8 list \<Rightarrow> nat \<Rightarrow> string list option" where
  "hex_dump buf len = hex_loop buf 0 len"

text \<open>The hooks that are registered, and what loading and unloading do with the list of registered hooks.\<close>

type_synonym trace_hook = "string \<Rightarrow> trace_skb \<Rightarrow> string list \<Rightarrow> (verdict \<times> string list) option"

definition trace_nf_hooks :: "string \<Rightarrow> trace_hook nf_hook_ops list" where
  "trace_nf_hooks ptr =
     [\<lparr>nf_hook = cbn_trace_hook ptr, hooknum = NF_INET_POST_ROUTING, nf_pf = PF_INET, nf_priority = NF_IP_PRI_FIRST, nf_priv = ''POST''\<rparr>,
      \<lparr>nf_hook = cbn_trace_hook ptr, hooknum = NF_INET_POST_ROUTING, nf_pf = PF_INET, nf_priority = NF_IP_PRI_LAST, nf_priv = ''POST LAST''\<rparr>,
      \<lparr>nf_hook = cbn_trace_hook ptr, hooknum = NF_INET_LOCAL_OUT, nf_pf = PF_INET, nf_priority = NF_IP_PRI_FIRST, nf_priv = ''NF_INET_LOCAL_OUT''\<rparr>,
      \<lparr>nf_hook = cbn_trace_hook ptr, hooknum = NF_INET_LOCAL_IN, nf_pf = PF_INET, nf_priority = NF_IP_PRI_FIRST, nf_priv = ''NF_INET_LOCAL_IN''\<rparr>,
      \<lparr>nf_hook = cbn_trace_hook ptr, hooknum = NF_INET_FORWARD, nf_pf = PF_INET, nf_priority = NF_IP_PRI_FIRST, nf_priv = ''NF_INET_FORWARD''\<rparr>,
      \<lparr>nf_hook = cbn_trace_hook ptr, hooknum = NF_INET_PRE_ROUTING, nf_pf = PF_INET, nf_priority = NF_IP_PRI_FIRST, nf_priv = ''RX''\<rparr>,
      \<lparr>nf_hook = cbn_trace_hook ptr, hooknum = NF_INET_PRE_ROUTING, nf_pf = PF_INET, nf_priority = NF_IP_PRI_LAST, nf_priv = ''RX-Last''\<rparr>]"

definition pkt_trace_init :: "string \<Rightarrow> trace_hook nf_hook_ops list \<Rightarrow> int \<times> trace_hook nf_hook_ops list" where
  "pkt_trace_init ptr registered = (0, registered @ trace_nf_hooks ptr)"

definition pkt_trace_clean :: "string \<Rightarrow> trace_hook nf_hook_ops list \<Rightarrow> trace_hook nf_hook_ops list" where
  "pkt_trace_clean ptr registered = foldl (\<lambda>r h. remove1 h r) registered (trace_nf_hooks ptr)"

section \<open>Lemmas\<close>

lemma length_nat_hex: "n < 16 ^ k \<Longrightarrow> 0 < k \<Longrightarrow> length (nat_hex n) \<le> k"
proof (induction n arbitrary: k rule: nat_hex.induct)
  case (1 n)
  show ?case
  proof (cases "n < 16")
    case True then show ?thesis using 1(3) by (simp add: nat_hex.simps [of n])
  next
    case False
    obtain k' where k: "k = Suc k'" using 1(3) gr0_conv_Suc by blast
    have k': "0 < k'" using 1(2) k False by (cases k') auto
    have "n div 16 < 16 ^ k'" using 1(2) k by (simp add: less_mult_imp_div_less mult.commute)
    with 1(1) [OF False this k'] show ?thesis using False k by (simp add: nat_hex.simps [of n])
  qed
qed

text \<open>Widths of the numbers that are printed.\<close>

lemma width_nat:
  "length (nat_hex (unat (w32 :: u32))) \<le> 8" "length (nat_hex (unat (w16 :: u16))) \<le> 4"
  "length (nat_dec (unat w32)) \<le> 10" "length (nat_dec (unat w16)) \<le> 5" "length (nat_dec (unat (w8 :: u8))) \<le> 3"
  "length (nat_dec (unat (w4 :: 4 word))) \<le> 2"
proof -
  have b: "unat w32 < 2 ^ 32" "unat w16 < 2 ^ 16" "unat w8 < 2 ^ 8" "unat w4 < 2 ^ 4"
    using unsigned_less [of w32] unsigned_less [of w16] unsigned_less [of w8] unsigned_less [of w4] by simp_all
  show "length (nat_hex (unat w32)) \<le> 8" "length (nat_hex (unat w16)) \<le> 4" by (rule length_nat_hex; use b in simp)+
  show "length (nat_dec (unat w32)) \<le> 10" "length (nat_dec (unat w16)) \<le> 5" "length (nat_dec (unat w8)) \<le> 3"
    "length (nat_dec (unat w4)) \<le> 2" by (rule length_nat_dec; use b in simp)+
qed

lemma width_int: "length (int_dec (sint (w :: s32))) \<le> 11"
  by (rule length_int_dec_s32)

lemma width_pad5: "length (pad5 (unat (w :: u16))) = 5"
  using width_nat(4) [of w] by (simp add: pad5_def)

lemma width_names: "length (iphdr_flag f) \<le> 2" "length (proto_string p) \<le> 4"
  by (simp_all add: iphdr_flag_def proto_string_def)

lemma width_pI4: "length (pI4 ad) \<le> 15"
  using width_nat(5) [of "ucast ad"] width_nat(5) [of "ucast (drop_bit 8 ad)"] width_nat(5) [of "ucast (drop_bit 16 ad)"]
    width_nat(5) [of "ucast (drop_bit 24 ad)"]
  by (simp add: pI4_def bytes32_def)

lemma length_dump_iph: "length (dump_iph skb) \<le> 200"
  using width_nat(1) [of "skb_mark skb"] width_int [of "secmark skb"] width_nat(6) [of "ihl skb"] width_nat(6) [of "version skb"]
    width_nat(5) [of "tos skb"] width_nat(4) [of "ntohs (tot_len skb)"] width_pad5 [of "ntohs (ip_id skb)"]
    width_pad5 [of "take_bit 13 (ntohs (frag_off skb))"] width_names(1) [of "ntohs (frag_off skb)"] width_nat(5) [of "ttl skb"]
    width_names(2) [of "proto skb"] width_nat(5) [of "proto skb"] width_nat(2) [of "ip_check skb"] width_pI4 [of "ip_saddr skb"]
    width_pI4 [of "ip_daddr skb"]
  unfolding dump_iph_def length_append list.size by linarith

lemma length_dump_transport: "length (dump_tcph t) \<le> 90" "length (dump_udph t) \<le> 90"
proof -
  have "length (if b then ''SYN'' else []) \<le> 3" "length (if b then ''ACK'' else []) \<le> 3" "length (if b then ''FIN'' else []) \<le> 3" for b
    by simp_all
  note f = this(1) [of "t_syn t"] this(2) [of "t_ack t"] this(3) [of "t_fin t"]
  show "length (dump_tcph t) \<le> 90"
    using f width_nat(4) [of "ntohs (t_source t)"] width_nat(4) [of "ntohs (t_dest t)"] width_nat(3) [of "ntohl (t_seq t)"]
      width_int [of "ntohl (t_ack_seq t)"] width_nat(4) [of "ntohs (t_window t)"]
    unfolding dump_tcph_def length_append list.size by linarith
  show "length (dump_udph t) \<le> 90"
    using width_pad5 [of "ntohs (t_source t)"] width_pad5 [of "ntohs (t_dest t)"]
    unfolding dump_udph_def length_append list.size by linarith
qed

lemma sprintf_append:
  assumes "idx + length str + 1 \<le> length buffer" and "take idx buffer = done_so_far" and "length done_so_far = idx"
  shows "\<exists>b. sprintf_at buffer idx str = Some b \<and> length b = length buffer \<and> take (idx + length str) b = done_so_far @ str"
  using sprintf_at_ok [OF assms(1)] assms(2) by blast

text \<open>Three texts put one after the other into the buffer.\<close>

lemma sprintf_chain:
  assumes "length line \<le> 204" and "length head \<le> 200"
  obtains b b2 where "sprintf_at (replicate 512 (CHR 0x00)) 0 line = Some b" and "sprintf_at b (length line) head = Some b2"
    and "take (length line + length head) b2 = line @ head"
    and "\<And>str. length str \<le> 90 \<Longrightarrow> \<exists>b3. sprintf_at b2 (length line + length head) str = Some b3 \<and>
      take (length line + length head + length str) b3 = line @ head @ str"
proof -
  obtain b where b: "sprintf_at (replicate 512 (CHR 0x00)) 0 line = Some b" "length b = 512" "take (length line) b = line"
    using sprintf_append [of 0 line "replicate 512 (CHR 0x00)" "[]"] assms by auto
  obtain b2 where b2: "sprintf_at b (length line) head = Some b2" "length b2 = 512" "take (length line + length head) b2 = line @ head"
    using sprintf_append [of "length line" head b line] b assms by auto
  show ?thesis
  proof (rule that [OF b(1) b2(1,3)])
    show "\<exists>b3. sprintf_at b2 (length line + length head) str = Some b3 \<and>
      take (length line + length head + length str) b3 = line @ head @ str" if "length str \<le> 90" for str
      using sprintf_append [of "length line + length head" str b2 "line @ head"] b2 assms that by auto
  qed
qed

lemma trace_text:
  assumes "length str + length ptr \<le> 200"
  shows "trace_only ptr skb str = Some (str @ '':<'' @ ptr @ ''>'' @ NL @ dump_iph skb @
    (if proto skb = 6 then dump_tcph (transport skb) else if proto skb = 17 then dump_udph (transport skb) else []))"
proof -
  define line where "line = str @ '':<'' @ ptr @ ''>'' @ NL"
  have l: "length line \<le> 204" using assms by (simp add: line_def)
  obtain b b2 where b: "sprintf_at (replicate 512 (CHR 0x00)) 0 line = Some b" "sprintf_at b (length line) (dump_iph skb) = Some b2"
    "take (length line + length (dump_iph skb)) b2 = line @ dump_iph skb"
    and t: "\<And>str. length str \<le> 90 \<Longrightarrow> \<exists>b3. sprintf_at b2 (length line + length (dump_iph skb)) str = Some b3 \<and>
      take (length line + length (dump_iph skb) + length str) b3 = line @ dump_iph skb @ str"
    by (rule sprintf_chain [OF l length_dump_iph [of skb]]) blast
  show ?thesis using b t [OF length_dump_transport(1) [of "transport skb"]] t [OF length_dump_transport(2) [of "transport skb"]]
    unfolding trace_only_def line_def [symmetric] Let_def by (auto simp: line_def)
qed

text \<open>What the tracer would print when the splitter's decision is asked for; the dump in hexadecimal.\<close>

lemma tracer_trace_iph_ok:
  assumes "length str \<le> 200"
  shows "tracer_trace_iph skb str = Some (proto skb = 6 \<and> t_syn (transport skb) \<and> \<not> t_ack (transport skb) \<and> skb_mark skb \<noteq> 0)"
proof -
  define line where "line = str @ '':'' @ NL"
  have l: "length line \<le> 204" using assms by (simp add: line_def)
  obtain b b2 where b: "sprintf_at (replicate 512 (CHR 0x00)) 0 line = Some b" "sprintf_at b (length line) (dump_iph skb) = Some b2"
    and t: "\<And>str. length str \<le> 90 \<Longrightarrow> \<exists>b3. sprintf_at b2 (length line + length (dump_iph skb)) str = Some b3 \<and>
      take (length line + length (dump_iph skb) + length str) b3 = line @ dump_iph skb @ str"
    by (rule sprintf_chain [OF l length_dump_iph [of skb]]) blast
  show ?thesis using b t [OF length_dump_transport(1) [of "transport skb"]]
    unfolding tracer_trace_iph_def line_def [symmetric] Let_def by auto
qed

lemma hex_loop_ok:
  assumes "i + n \<le> length buf"
  shows "\<exists>out. hex_loop buf i n = Some (out @ [NL]) \<and>
    filter (\<lambda>p. length p = 3 \<and> last p = CHR '' '') out = map (\<lambda>b. hex2 b @ '' '') (take n (drop i buf))"
  using assms
proof (induction n arbitrary: i)
  case (Suc n)
  obtain out where o: "hex_loop buf (Suc i) n = Some (out @ [NL])"
    "filter (\<lambda>p. length p = 3 \<and> last p = CHR '' '') out = map (\<lambda>b. hex2 b @ '' '') (take n (drop (Suc i) buf))"
    using Suc.IH [of "Suc i"] Suc.prems by auto
  have "take (Suc n) (drop i buf) = buf ! i # take n (drop (Suc i) buf)" using Suc.prems by (simp add: Cons_nth_drop_Suc [symmetric])
  then show ?case using o Suc.prems by (simp add: hex2_def)
qed simp

lemma hex_dump_bytes:
  assumes "len \<le> length buf"
  shows "\<exists>out. hex_dump buf len = Some (out @ [NL]) \<and>
    filter (\<lambda>p. length p = 3 \<and> last p = CHR '' '') out = map (\<lambda>b. hex2 b @ '' '') (take len buf)"
  using hex_loop_ok [of 0 len buf] assms by (simp add: hex_dump_def)

text \<open>
  A packet at one point of the network stack passes the hooks registered there in the order of their
  priorities. Unloading takes away what loading has added.
\<close>

definition at_point :: "trace_hook nf_hook_ops list \<Rightarrow> nf_inet_hook \<Rightarrow> trace_hook nf_hook_ops list" where
  "at_point hooks n = sort_key (\<lambda>h. sint (nf_priority h)) (filter (\<lambda>h. hooknum h = n) hooks)"

fun pass :: "trace_hook nf_hook_ops list \<Rightarrow> trace_skb \<Rightarrow> string list \<Rightarrow> (verdict \<times> string list) option" where
  "pass [] skb out = Some (NF_ACCEPT, out)"
| "pass (h # hs) skb out = do {
     (v, out) \<leftarrow> nf_hook h (nf_priv h) skb out;
     if v = NF_DROP then Some (v, out) else pass hs skb out }"

lemma trace_points:
  "map nf_priv (concat (map (at_point (trace_nf_hooks ptr)) [NF_INET_PRE_ROUTING, NF_INET_FORWARD, NF_INET_POST_ROUTING])) =
    [''RX'', ''RX-Last'', ''NF_INET_FORWARD'', ''POST'', ''POST LAST'']"
  "map nf_priv (concat (map (at_point (trace_nf_hooks ptr)) [NF_INET_PRE_ROUTING, NF_INET_LOCAL_IN])) =
    [''RX'', ''RX-Last'', ''NF_INET_LOCAL_IN'']"
  "map nf_priv (concat (map (at_point (trace_nf_hooks ptr)) [NF_INET_LOCAL_OUT, NF_INET_POST_ROUTING])) =
    [''NF_INET_LOCAL_OUT'', ''POST'', ''POST LAST'']"
  by (simp_all add: at_point_def trace_nf_hooks_def)

lemma trace_unload: "pkt_trace_clean ptr (snd (pkt_trace_init ptr [])) = []"
  by (simp add: pkt_trace_clean_def pkt_trace_init_def trace_nf_hooks_def)

text \<open>The packets that are printed, and what one hook prints for a packet.\<close>

definition traced :: "trace_skb \<Rightarrow> bool" where
  "traced skb \<longleftrightarrow> skb_mark skb \<noteq> 0 \<or> proto skb \<in> {6, 17} \<and> (unat (ntohs (t_source (transport skb))) \<in> {5000..6000} \<or>
     unat (ntohs (t_dest (transport skb))) \<in> {5000..6000})"

definition trace_of :: "string \<Rightarrow> trace_skb \<Rightarrow> string \<Rightarrow> string" where
  "trace_of ptr skb name = name @ '':<'' @ ptr @ ''>'' @ NL @ dump_iph skb @
     (if proto skb = 6 then dump_tcph (transport skb) else if proto skb = 17 then dump_udph (transport skb) else [])"

lemma trace_hook_text:
  assumes "length name + length ptr \<le> 200"
  shows "cbn_trace_hook ptr name skb out = Some (NF_ACCEPT, out @ (if traced skb then [trace_of ptr skb name] else []))"
  using trace_text [OF assms, of skb]
  by (auto simp: cbn_trace_hook_def get_port_def tcp_port_def udp_port_def traced_def trace_of_def)

lemma trace_of_fits:
  assumes "length name + length ptr \<le> 200"
  shows "length (trace_of ptr skb name) < 512"
  using assms length_dump_iph [of skb] length_dump_transport [of "transport skb"] by (simp add: trace_of_def)

lemma pass_text:
  assumes "\<forall>h \<in> set hs. nf_hook h = cbn_trace_hook ptr \<and> length (nf_priv h) + length ptr \<le> 200"
  shows "pass hs skb out = Some (NF_ACCEPT, out @ (if traced skb then map (trace_of ptr skb) (map nf_priv hs) else []))"
  using assms by (induction hs arbitrary: out) (simp_all add: trace_hook_text)

lemma trace_nf_hook:
  assumes "length ptr \<le> 180" and "h \<in> set (trace_nf_hooks ptr)"
  shows "nf_hook h = cbn_trace_hook ptr \<and> length (nf_priv h) + length ptr \<le> 200"
  using assms by (auto simp: trace_nf_hooks_def)

lemma at_point_hooks:
  assumes "length ptr \<le> 180" and "h \<in> set (at_point (trace_nf_hooks ptr) n)"
  shows "nf_hook h = cbn_trace_hook ptr \<and> length (nf_priv h) + length ptr \<le> 200"
  using trace_nf_hook [OF assms(1), of h] assms(2) by (simp add: at_point_def)

definition on_route :: "string \<Rightarrow> nf_inet_hook list \<Rightarrow> trace_skb \<Rightarrow> string list \<Rightarrow> (verdict \<times> string list) option" where
  "on_route ptr route = pass (concat (map (at_point (trace_nf_hooks ptr)) route))"

definition prints :: "string \<Rightarrow> trace_skb \<Rightarrow> string list \<Rightarrow> string list" where
  "prints ptr skb names = (if traced skb then map (trace_of ptr skb) names else [])"

lemma route_text:
  assumes "length ptr \<le> 180"
  shows "on_route ptr route skb out = Some (NF_ACCEPT, out @
    prints ptr skb (map nf_priv (concat (map (at_point (trace_nf_hooks ptr)) route))))"
  unfolding on_route_def prints_def
  by (rule pass_text) (use at_point_hooks [OF assms] in auto)

section \<open>Properties\<close>

text \<open>C40. The tracer accepts every packet, wherever it passes. On its way it prints the headers of exactly the
  packets that are marked and of the TCP and UDP packets with a port from 5000 to 6000: three times for a
  packet to this host, five times for one that is forwarded, three times for one sent by this host, in
  the order of the points and of the priorities, and every text fits into the buffer of 512 bytes,
  whatever the headers contain.\<close>

theorem trace_routes:
  assumes "length ptr \<le> 180"
  shows "on_route ptr [NF_INET_PRE_ROUTING, NF_INET_LOCAL_IN] skb out =
      Some (NF_ACCEPT, out @ prints ptr skb [''RX'', ''RX-Last'', ''NF_INET_LOCAL_IN'']) \<and>
    on_route ptr [NF_INET_PRE_ROUTING, NF_INET_FORWARD, NF_INET_POST_ROUTING] skb out =
      Some (NF_ACCEPT, out @ prints ptr skb [''RX'', ''RX-Last'', ''NF_INET_FORWARD'', ''POST'', ''POST LAST'']) \<and>
    on_route ptr [NF_INET_LOCAL_OUT, NF_INET_POST_ROUTING] skb out =
      Some (NF_ACCEPT, out @ prints ptr skb [''NF_INET_LOCAL_OUT'', ''POST'', ''POST LAST'']) \<and>
    (\<forall>name. length name \<le> 20 \<longrightarrow> length (trace_of ptr skb name) < 512)"
proof (intro conjI allI impI)
  show "length (trace_of ptr skb name) < 512" if "length name \<le> 20" for name
    using trace_of_fits [of name ptr skb] assms that by simp
qed (simp_all only: route_text [OF assms] trace_points)

definition ex_skb :: trace_skb where
  "ex_skb = \<lparr>skb_mark = 0, secmark = 0, ihl = 5, version = 4, tos = 0, tot_len = htons 60, ip_id = 1, frag_off = 0, ttl = 64,
     proto = 6, ip_check = 0, ip_saddr = 0x0100000A, ip_daddr = 0x0200000A,
     transport = \<lparr>t_source = htons 5500, t_dest = htons 80, t_seq = 1, t_ack_seq = 0, t_window = 100, t_syn = True, t_ack = False,
       t_fin = False\<rparr>\<rparr>"

theorem trace_routes_witness:
  "\<exists>text. on_route ''00000000deadbeef'' [NF_INET_LOCAL_OUT, NF_INET_POST_ROUTING] ex_skb [] =
     Some (NF_ACCEPT, [text ''NF_INET_LOCAL_OUT'', text ''POST'', text ''POST LAST'']) \<and> length (text ''POST'') < 512"
proof -
  have t: "traced ex_skb" by (simp add: traced_def ex_skb_def)
  have p: "length ''00000000deadbeef'' \<le> 180" by simp
  show ?thesis
    using trace_routes [OF p, of ex_skb "[]"] t
    by (intro exI [of _ "trace_of ''00000000deadbeef'' ex_skb"]) (simp add: prints_def)
qed

end
