(* ===== verification/Split_Trace.thy ===== *)
theory Split_Trace
  imports Pkt_Trace
begin

text \<open>
  The packet text of the splitter, \<^verbatim>\<open>tcpsplit/cbn_common.h\<close>, a variant of the tracer's: the mark, the sequence
  numbers and the window are printed as signed numbers, addresses with \<open>IP4\<close>, and the packet is named by the
  string only. It is put together in 512 bytes on the stack also when \<open>TRACE_PACKETS\<close> is off, and then thrown
  away; so the text must fit in any case. \<open>hex_dump\<close> is the same as the tracer's.
\<close>

section \<open>Definitions\<close>

definition split_iphdr_flag :: "u16 \<Rightarrow> string" where
  "split_iphdr_flag flags = (if bit flags 14 then ''DF'' else if bit flags 13 then ''MF'' else [])"

definition split_proto_string :: "u8 \<Rightarrow> string" where
  "split_proto_string p = (if p = 1 then ''ICMP'' else if p = 4 then ''IP'' else if p = 6 then ''TCP'' else if p = 17 then ''UDP''
     else if p = 50 then ''ESP'' else if p = 51 then ''AH'' else [])"

text \<open>\<open>IP4\<close> with \<open>IP4N\<close>, \<open>TCP4\<close> with \<open>TCP4N\<close>: the bytes in the order of memory.\<close>

definition ip4 :: "u32 \<Rightarrow> string" where
  "ip4 x = (let b = map (\<lambda>b. nat_dec (unat b)) (bytes32 x) in
     b ! 0 @ ''.'' @ b ! 1 @ ''.'' @ b ! 2 @ ''.'' @ b ! 3)"

definition split_dump_iph :: "trace_skb \<Rightarrow> string" where
  "split_dump_iph skb =
     TAB2 @ ''mark '' @ int_dec (sint (skb_mark skb)) @ '' secmark '' @ int_dec (sint (secmark skb)) @ NL @ TAB2 @
     ''ihl '' @ nat_dec (unat (ihl skb)) @ '' ver '' @ nat_dec (unat (version skb)) @ '' tos '' @ nat_dec (unat (tos skb)) @
     '' total len '' @ nat_dec (unat (ntohs (tot_len skb))) @ NL @ TAB2 @
     ''id '' @ pad5 (unat (ntohs (ip_id skb))) @ '' frag_off '' @ pad5 (unat (take_bit 13 (ntohs (frag_off skb)))) @
     '' ['' @ split_iphdr_flag (ntohs (frag_off skb)) @ '']'' @ NL @ TAB2 @
     ''ttl '' @ nat_dec (unat (ttl skb)) @ '' proto '' @ split_proto_string (proto skb) @ ''['' @ nat_dec (unat (proto skb)) @
     ''] csum 0x'' @ nat_hex (unat (ip_check skb)) @ NL @ TAB2 @
     ''saddr '' @ ip4 (ip_saddr skb) @ '' '' @ NL @ TAB2 @ ''daddr '' @ ip4 (ip_daddr skb) @ '' '' @ NL"

definition split_dump_udphdr :: "trace_tcp \<Rightarrow> string" where
  "split_dump_udphdr t = ''src : '' @ pad5 (unat (ntohs (t_source t))) @ ''  dst '' @ pad5 (unat (ntohs (t_dest t))) @ NL"

definition split_dump_tcph :: "trace_tcp \<Rightarrow> string" where
  "split_dump_tcph t =
     NL @ TAB2 @ nat_dec (unat (ntohs (t_source t))) @ '' => '' @ nat_dec (unat (ntohs (t_dest t))) @ '' '' @
     TAB2 @ (if t_syn t then ''SYN'' else []) @ '' '' @ (if t_ack t then ''ACK'' else []) @ '' '' @ (if t_fin t then ''FIN'' else []) @ NL @
     TAB2 @ ''seq '' @ int_dec (sint (ntohl (t_seq t))) @ '' ack '' @ int_dec (sint (ntohl (t_ack_seq t))) @
     '' window '' @ nat_dec (unat (ntohs (t_window t))) @ NL"

text \<open>The buffer and the index at the end; \<open>print\<close> is whether \<open>TRACE_PACKETS\<close> is defined.\<close>

definition split_trace_only :: "bool \<Rightarrow> trace_skb \<Rightarrow> string \<Rightarrow> string list \<Rightarrow> string list option" where
  "split_trace_only print skb str out = do {
     let store = replicate 512 (CHR 0x00);
     let line = str @ '':'' @ NL;
     store \<leftarrow> sprintf_at store 0 line;
     let idx = length line;
     store \<leftarrow> sprintf_at store idx (split_dump_iph skb);
     let idx = idx + length (split_dump_iph skb);
     (store, idx) \<leftarrow> (if proto skb = 6 then do {
         store \<leftarrow> sprintf_at store idx (split_dump_tcph (transport skb));
         Some (store, idx + length (split_dump_tcph (transport skb))) } else Some (store, idx));
     (store, idx) \<leftarrow> (if proto skb = 17 then do {
         store \<leftarrow> sprintf_at store idx (split_dump_udphdr (transport skb));
         Some (store, idx + length (split_dump_udphdr (transport skb))) } else Some (store, idx));
     Some (if print then out @ [take idx store] else out) }"

section \<open>Lemmas\<close>

lemma width_ip4: "length (ip4 ad) \<le> 15"
  using width_nat(5) [of "ucast ad"] width_nat(5) [of "ucast (drop_bit 8 ad)"] width_nat(5) [of "ucast (drop_bit 16 ad)"]
    width_nat(5) [of "ucast (drop_bit 24 ad)"]
  by (simp add: ip4_def bytes32_def)

lemma split_names: "split_iphdr_flag = iphdr_flag" "split_proto_string = proto_string"
  by (simp_all add: fun_eq_iff split_iphdr_flag_def iphdr_flag_def split_proto_string_def proto_string_def)

lemma length_split_dump_iph: "length (split_dump_iph skb) \<le> 200"
  using width_int [of "skb_mark skb"] width_int [of "secmark skb"] width_nat(6) [of "ihl skb"] width_nat(6) [of "version skb"]
    width_nat(5) [of "tos skb"] width_nat(4) [of "ntohs (tot_len skb)"] width_pad5 [of "ntohs (ip_id skb)"]
    width_pad5 [of "take_bit 13 (ntohs (frag_off skb))"] width_names(1) [of "ntohs (frag_off skb)"] width_nat(5) [of "ttl skb"]
    width_names(2) [of "proto skb"] width_nat(5) [of "proto skb"] width_nat(2) [of "ip_check skb"] width_ip4 [of "ip_saddr skb"]
    width_ip4 [of "ip_daddr skb"]
  unfolding split_dump_iph_def split_names length_append list.size by linarith

lemma length_split_transport: "length (split_dump_tcph t) \<le> 90" "length (split_dump_udphdr t) \<le> 90"
proof -
  have f: "length (if b then ''SYN'' else []) \<le> 3" "length (if b then ''ACK'' else []) \<le> 3" "length (if b then ''FIN'' else []) \<le> 3"
    for b by simp_all
  show "length (split_dump_tcph t) \<le> 90"
    using f(1) [of "t_syn t"] f(2) [of "t_ack t"] f(3) [of "t_fin t"] width_nat(4) [of "ntohs (t_source t)"]
      width_nat(4) [of "ntohs (t_dest t)"] width_int [of "ntohl (t_seq t)"] width_int [of "ntohl (t_ack_seq t)"]
      width_nat(4) [of "ntohs (t_window t)"]
    unfolding split_dump_tcph_def length_append list.size by linarith
  show "length (split_dump_udphdr t) \<le> 90"
    using width_pad5 [of "ntohs (t_source t)"] width_pad5 [of "ntohs (t_dest t)"]
    unfolding split_dump_udphdr_def length_append list.size by linarith
qed

text \<open>The text of a packet; with tracing off nothing is printed, and the buffer is safe all the same.\<close>

lemma split_trace_text:
  assumes "length str \<le> 200"
  shows "split_trace_only print skb str out = Some (if print then out @ [str @ '':'' @ NL @ split_dump_iph skb @
    (if proto skb = 6 then split_dump_tcph (transport skb) else if proto skb = 17 then split_dump_udphdr (transport skb) else [])]
    else out)"
proof -
  define line where "line = str @ '':'' @ NL"
  have l: "length line \<le> 204" using assms by (simp add: line_def)
  obtain b b2 where b: "sprintf_at (replicate 512 (CHR 0x00)) 0 line = Some b" "sprintf_at b (length line) (split_dump_iph skb) = Some b2"
    "take (length line + length (split_dump_iph skb)) b2 = line @ split_dump_iph skb"
    and t: "\<And>str. length str \<le> 90 \<Longrightarrow> \<exists>b3. sprintf_at b2 (length line + length (split_dump_iph skb)) str = Some b3 \<and>
      take (length line + length (split_dump_iph skb) + length str) b3 = line @ split_dump_iph skb @ str"
    by (rule sprintf_chain [OF l length_split_dump_iph [of skb]]) blast
  show ?thesis
    using b t [OF length_split_transport(1) [of "transport skb"]] t [OF length_split_transport(2) [of "transport skb"]]
    unfolding split_trace_only_def line_def [symmetric] Let_def by (auto simp: line_def)
qed

end
