(* ===== verification/Spec2Isabelle.thy ===== *)
theory Spec2Isabelle
  imports Rendezvous_Safety Tunnel Module_Machine Mag_Stats Logger Kernel_Client Split_Trace
begin

text \<open>
  \<^bold>\<open>KTCP split: a verification of the kernel module in \<^verbatim>\<open>src/tcpsplit\<close> and of its companions.\<close>

  The module splits TCP connections of virtual tenants. The SYN of a client is captured on its way into
  the host; the module accepts the client's connection itself, opens a second connection to the real
  destination, and relays data between the two. Both halves are found under one key, the four fields of
  the connection, and are served by two kernel threads.

  \<^bold>\<open>The program and the theories.\<close>

  \<^item> \<open>Ktcp_Prelude\<close>: machine integers, kernel pointers (\<open>NULL\<close>, error pointer, object), checked arrays,
    byte order, reachability, and the locales \<open>invariant_system\<close> and \<open>ranked_system\<close> of a transition system
    with an inductive invariant, and with one whose every step raises a bounded rank.
  \<^item> \<open>Qp_Key\<close> (\<^verbatim>\<open>tcp_split.h\<close>, \<^verbatim>\<open>qp.c\<close>): \<open>struct cbn_qp\<close> with its key union as bytes, \<open>qp2cpu\<close>,
    \<open>addresses2cpu\<close>, \<open>uint2void\<close>.
  \<^item> \<open>Rb_Tree\<close> (\<^verbatim>\<open>rb_data_tree.h\<close>): the trees of connections and of listeners. The locales \<open>cmp_order\<close> and
    \<open>index_order\<close> state what a comparison must satisfy for the descents to implement a finite map; they
    are interpreted for \<open>strncmp\<close> on keys and for the 32-bit difference of ids in one window.
  \<^item> \<open>Magazine\<close> (\<^verbatim>\<open>magazine.c\<close>, \<^verbatim>\<open>lib/magazine.h\<close>): the per-core allocator; its abstraction is the multiset
    of the elements it holds.
  \<^item> \<open>Qp_State\<close> (\<^verbatim>\<open>qp.c\<close>, \<^verbatim>\<open>split.c\<close>): the state \<open>kstate\<close> shared by all threads, the reference count
    (\<open>get_qp\<close>, \<open>put_qp\<close>), \<open>qp_exists\<close> and \<open>wait_qp_ready\<close>.
  \<^item> \<open>Half_Duplex\<close> (\<^verbatim>\<open>split.c\<close>): the relay loop.
  \<^item> \<open>Connections\<close> (\<^verbatim>\<open>split.c\<close>): \<open>start_new_connection_syn\<close> and \<open>start_new_connection\<close> as step functions.
  \<^item> \<open>Rendezvous\<close>, \<open>Rendezvous_Safety\<close>: the machine of any number of these threads, interleaved at the
    points where they sleep, its invariant, and the properties of its reachable states.
  \<^item> \<open>Thread_Pool\<close> (\<^verbatim>\<open>thread_pool.c\<close>): idle threads in the magazine allocator, refill and dispatch.
  \<^item> \<open>Netfilter\<close> (\<^verbatim>\<open>split.c\<close>, \<^verbatim>\<open>cbn_common.h\<close>, \<^verbatim>\<open>conn_pool.c\<close>): the packet hooks, the probe.
  \<^item> \<open>Format\<close>: decimal output and \<open>sprintf\<close> into a buffer.
  \<^item> \<open>Split_Server\<close> (\<^verbatim>\<open>split.c\<close>): the server thread of a tenant, registration, removal, unloading, listing.
  \<^item> \<open>Preconn_Tree\<close> (\<^verbatim>\<open>preconn_rb_tree.h\<close>) and \<open>Conn_Pool\<close> (\<^verbatim>\<open>conn_pool.c\<close>): the pool of prepared
    connections and the threads at both ends of one.
  \<^item> \<open>Proc_Debug\<close> (\<^verbatim>\<open>proc.c\<close>, \<^verbatim>\<open>debug.c\<close>): the files under \<^verbatim>\<open>/proc/cbn\<close>.
  \<^item> \<open>Module_Load\<close> (\<^verbatim>\<open>split.c\<close>, \<^verbatim>\<open>thread_pool.c\<close>, \<^verbatim>\<open>conn_pool.c\<close>, \<^verbatim>\<open>proc.c\<close>): loading and unloading, which join the
    states of the parts.
  \<^item> \<open>End_To_End\<close>: a connection from the SYN of the client to its end, over the hooks, the server, and both
    threads, which it composes with the locations where they sleep; the machine of these two threads.
  \<^item> \<open>Tunnel\<close>: the same for a connection that crosses a tunnel, over a prepared connection and the threads at
    both of its ends; and what happens when the accepted half overtakes the record. In both theories the relay
    loops of the two threads interleave iteration by iteration, and the shutdown of the sockets by the loop that
    ends first cuts the other one short.
  \<^item> \<open>Module_Machine\<close>: everything that can happen in the loaded module as one machine. Its events are a packet
    at a hook, a write to a file, and a step of any thread; a call of \<open>kthread_run\<close> or of the pool that a
    step logs becomes a thread.
  \<^item> \<open>Logger\<close> (\<^verbatim>\<open>logger/\<close>): a separate module, a text buffer filled through a file and by callbacks. The locale
    \<open>stat_callback\<close> is what a callback must promise, interpreted for the one the module registers.
  \<^item> \<open>Kernel_Client\<close> (\<^verbatim>\<open>kernel_client/client.c\<close>): a separate module, the benchmark's servers and clients.
  \<^item> \<open>Pkt_Trace\<close> (\<^verbatim>\<open>pkt_tracer/\<close>): a separate module that prints packets; \<open>Split_Trace\<close>
    (\<^verbatim>\<open>tcpsplit/cbn_common.h\<close>): the splitter's variant of the text.
  \<^item> \<open>Mag_Stats\<close> (\<^verbatim>\<open>lib/mag_stats.c\<close>): a table of allocators and the file that prints their counts.

  \<^bold>\<open>How the parts interact.\<close> \<open>cbn_ingress_hook\<close> finds the tenant in the listener tree and starts
  \<open>start_probe_syn\<close> in the pool; its packet reaches \<open>cbn_egress_hook\<close>, which starts
  \<open>start_new_connection_syn\<close>, or through a tunnel \<open>start_new_pre_connection_syn\<close>, with the captured
  addresses. \<open>split_server\<close> accepts the client's connection and starts \<open>start_new_connection\<close>. The two
  threads meet in \<open>qp_exists\<close> on the tree of their core, wait for each other, and run \<open>half_duplex\<close>.
  Starting a function in the pool is an entry \<open>run_in_pool\<close> of the log of calls; \<open>Thread_Pool\<close> is the
  model of what the pool does with it. \<open>End_To_End\<close> and \<open>Tunnel\<close> follow one connection along these ways, and
  \<open>Module_Machine\<close> lets all of it happen in any order, together with the commands.

  \<^bold>\<open>Conventions.\<close> A function that mutates state takes the state and returns the new one in the option
  monad; \<open>None\<close> is a kernel oops (a \<open>NULL\<close> or dangling dereference, an overrun, a corrupted tree, the shutdown of
  a released socket of a listener). Objects of the slab caches are partial maps from addresses; a freed object is
  absent. So are the variables on the stack of a thread to which another thread has a pointer; they are gone
  when their thread returns. The unlock of the lock of a QP that has just been freed, which every \<open>put_qp\<close> of a
  last reference does, is an entry \<open>unlock_freed\<close> of the log and not an oops. Calls into the kernel
  that leave the module are appended to \<open>calls\<close>, and what they return is an argument of the step. A
  thread is a program counter that stops where it may sleep; the code in between is atomic, since it
  runs on one core under a spin lock or touches only the thread's own objects. Machine integers keep
  their width.

  \<^bold>\<open>Parameters and hypotheses.\<close> \<open>rb_insert_color\<close> and \<open>rb_erase\<close> are parameters with the contract
  \<open>rbtree_lib_ok\<close>: they keep the in-order sequence, respectively remove one node from it. \<open>get_options\<close> is a
  parameter that fills in its whole array. The results of allocations and socket calls are arbitrary
  unless a theorem says otherwise; fresh objects are fresh. \<open>wait_event_interruptible_timeout\<close> is that of a thread
  that gets no signal. What the network does with a probe is \<open>routed\<close>, which leaves the mark, the protocol, the
  addresses and the TCP header as they were and the rest of the IP header open, since a raw socket with
  \<open>IP_HDRINCL\<close> rewrites the length and the checksum; and \<open>encapsulated\<close>, which is what a GUE device does. The
  page arrays of the zero-copy receive may come back in any shape.

  \<^bold>\<open>Conditions on the runs.\<close> Ids of tenants, and addresses of next hops, are compared by a 32-bit difference, so
  the theorems on their trees need them to lie within one half-range window. The life cycle of a QP is that of
  the runs in which no accepted half times out while the other half is still in \<open>kernel_connect\<close>
  (\<open>patient_step\<close>); \<open>impatient_use_after_free\<close> is about the others. The near side of a tunnel is that of
  the runs in which the accepted half takes no step between linking the QP and sending the record
  (\<open>calm_step\<close>); \<open>forward_race\<close> is about the others. The theorems on whole connections assume calls that succeed
  and sockets that fail in no other way than by being shut down. Unloading depends on the thread that listens for
  other hops, into whose stack it looks, and on listeners whose sockets are still open.

  \<^bold>\<open>Bounds and fuel.\<close> \<open>stop_sockets\<close> gets as many rounds as the tree has nodes, which is enough because every
  round erases one. The relay loop consumes a script of iterations, which is as long as the sockets
  make it, and so do the loops of the benchmark client. The loop over the callbacks of the logger gets a
  number of rounds and reports whether it has ended: as many as there are callbacks suffice, unless an
  entry is linked twice, and then no number does. All other loops are structural, counted, or have a
  termination proof.

  \<^bold>\<open>What the lemmas show.\<close> Keys, hashes and packings: round trips, bounds, and that both halves of a
  connection share a core. Trees, allocator, pool of connections: refinement of a finite map, of a
  multiset, of stacks, with the inputs on which they fail. Threads: in every interleaving without an early
  timeout the reference count is the number of holders, relays mirror each other, no step oopses (with the
  exceptions that the theorem names), and quiescent states hold only failed attempts; with an early timeout
  a freed QP is used. Hooks, servers and commands: the behaviour on every branch, and the sequences of calls. A
  whole connection: every interleaving of its two threads ends with everything freed, one stream delivered and of
  the other a prefix, in the worst case nothing; also over two hops if nothing comes between linking and sending,
  and an exhibited oops if something does. The whole module: its state is well formed after every sequence of
  events, and when it can be unloaded and when unloading oopses. Loading: every
  part starts in the state its theorems assume. Logger: bounds for all arguments, and reading returns what was
  written. Client: every byte is accounted for, and which pages are put and which are lost. Tracer: the text fits its buffer.

  \<^bold>\<open>Not modelled.\<close> The macros that only print to the trace or the kernel log, and \<open>dump_qp\<close>, which is one of
  them; \<open>udp_port\<close>, \<open>tcp_port\<close>, \<open>get_port\<close> of \<^verbatim>\<open>split.c\<close>, which compute two ports and drop them; code that is
  commented out or under \<open>#if 0\<close>; the macro \<open>log_string\<close> of the logger, which nothing uses and which calls a
  function that does not exist. Spin locks are represented by the atomicity of the steps. The remaining
  lines are declarations: includes, prototypes, macros for constants. The scripts and measurement results
  are no part of the program's logic.
\<close>

end
